(* ===== verification/Cync_Prelude.thy ===== *)
theory Cync_Prelude
  imports Main "HOL-Library.Word"
begin

text \<open>
  Shared vocabulary of the development: Rust's fixed-width integers and their
  checked, saturating, wrapping and casting operations, byte strings and the
  little- and big-endian codecs, the error type of \<^verbatim>\<open>src/error.rs\<close>, the
  result type, loops that stop at the first error, and the generic interface of
  a state machine with an invariant.

  An unsigned Rust integer is a natural number together with the width-specific
  operations below: \<open>u64\<close> and \<open>u128\<close> values are naturals up to
  \<open>u64_max\<close> and \<open>u128_max\<close>, \<open>usize\<close> is 64 bits wide, and a plain
  \<open>+\<close> or \<open>*\<close> of the source is written with \<open>as_u64\<close> or
  \<open>as_u128\<close> around it wherever it could wrap. Truncating subtraction of
  naturals is exactly \<open>saturating_sub\<close>. \<open>i128\<close> is \<open>int\<close> with the
  range check written out. Raw bytes are \<open>8 word\<close>.
\<close>

named_theorems rust_arith \<open>characterisations of the Rust integer operations\<close>
named_theorems result_simps \<open>case analysis of results\<close>

section \<open>Fixed-width integers\<close>

type_synonym u8 = "8 word"
type_synonym bytes = "u8 list"

definition u32_max :: nat where "u32_max = 2 ^ 32 - 1"
definition u64_max :: nat where "u64_max = 2 ^ 64 - 1"
definition u128_max :: nat where "u128_max = 2 ^ 128 - 1"
definition i128_max :: int where "i128_max = 2 ^ 127 - 1"
definition i128_min :: int where "i128_min = - (2 ^ 127)"

lemma u32_max_eq [simp]: "u32_max = 4294967295" by (simp add: u32_max_def)
lemma u64_max_eq: "u64_max = 18446744073709551615" by (simp add: u64_max_def)
lemma u128_max_eq: "u128_max = 340282366920938463463374607431768211455"
  by (simp add: u128_max_def)
lemma i128_max_eq: "i128_max = 170141183460469231731687303715884105727"
  by (simp add: i128_max_def)
lemma i128_min_eq: "i128_min = -170141183460469231731687303715884105728"
  by (simp add: i128_min_def)

lemmas width_eqs = u64_max_eq u128_max_eq i128_max_eq i128_min_eq

subsection \<open>Casts\<close>

definition as_u64 :: "nat \<Rightarrow> nat" where "as_u64 n = n mod 2 ^ 64"
definition as_u128 :: "nat \<Rightarrow> nat" where "as_u128 n = n mod 2 ^ 128"
definition as_u8 :: "nat \<Rightarrow> nat" where "as_u8 n = n mod 2 ^ 8"
definition as_u32 :: "nat \<Rightarrow> nat" where "as_u32 n = n mod 2 ^ 32"

lemma as_u64_id [simp]: "n \<le> u64_max \<Longrightarrow> as_u64 n = n"
  by (simp add: as_u64_def u64_max_def)

lemma as_u128_id [simp]: "n \<le> u128_max \<Longrightarrow> as_u128 n = n"
  by (simp add: as_u128_def u128_max_def)

lemma as_u32_id [simp]: "n \<le> 4294967295 \<Longrightarrow> as_u32 n = n"
  by (simp add: as_u32_def)

lemma as_u64_le: "as_u64 n \<le> u64_max"
proof -
  have "n mod 2 ^ 64 < (2::nat) ^ 64" by (rule mod_less_divisor) simp
  then show ?thesis by (simp add: as_u64_def u64_max_def)
qed

lemma as_u64_le_self: "as_u64 n \<le> n" by (simp add: as_u64_def)

lemma as_u128_le: "as_u128 n \<le> u128_max"
proof -
  have "n mod 2 ^ 128 < (2::nat) ^ 128" by (rule mod_less_divisor) simp
  then show ?thesis by (simp add: as_u128_def u128_max_def)
qed

lemma u64_le_u128: "n \<le> u64_max \<Longrightarrow> n \<le> u128_max"
  by (simp add: width_eqs)

subsection \<open>Checked and saturating operations\<close>

definition checked_add64 :: "nat \<Rightarrow> nat \<Rightarrow> nat option" where
  "checked_add64 a b = (if a + b \<le> u64_max then Some (a + b) else None)"

definition checked_sub64 :: "nat \<Rightarrow> nat \<Rightarrow> nat option" where
  "checked_sub64 a b = (if b \<le> a then Some (a - b) else None)"

definition checked_mul64 :: "nat \<Rightarrow> nat \<Rightarrow> nat option" where
  "checked_mul64 a b = (if a * b \<le> u64_max then Some (a * b) else None)"

definition sat_add64 :: "nat \<Rightarrow> nat \<Rightarrow> nat" where
  "sat_add64 a b = min (a + b) u64_max"

definition sat_sub :: "nat \<Rightarrow> nat \<Rightarrow> nat" where
  "sat_sub a b = a - b"

definition sat_mul64 :: "nat \<Rightarrow> nat \<Rightarrow> nat" where
  "sat_mul64 a b = min (a * b) u64_max"

definition checked_add128 :: "nat \<Rightarrow> nat \<Rightarrow> nat option" where
  "checked_add128 a b = (if a + b \<le> u128_max then Some (a + b) else None)"

definition checked_mul128 :: "nat \<Rightarrow> nat \<Rightarrow> nat option" where
  "checked_mul128 a b = (if a * b \<le> u128_max then Some (a * b) else None)"

definition sat_add128 :: "nat \<Rightarrow> nat \<Rightarrow> nat" where
  "sat_add128 a b = min (a + b) u128_max"

definition sat_mul128 :: "nat \<Rightarrow> nat \<Rightarrow> nat" where
  "sat_mul128 a b = min (a * b) u128_max"

lemma checked_add64_Some [rust_arith]:
  "checked_add64 a b = Some c \<longleftrightarrow> a + b \<le> u64_max \<and> c = a + b"
  by (auto simp: checked_add64_def)

lemma checked_add64_None [rust_arith]: "checked_add64 a b = None \<longleftrightarrow> u64_max < a + b"
  by (auto simp: checked_add64_def)

lemma checked_sub64_Some [rust_arith]:
  "checked_sub64 a b = Some c \<longleftrightarrow> b \<le> a \<and> c = a - b"
  by (auto simp: checked_sub64_def)

lemma checked_mul64_Some [rust_arith]:
  "checked_mul64 a b = Some c \<longleftrightarrow> a * b \<le> u64_max \<and> c = a * b"
  by (auto simp: checked_mul64_def)

lemma sat_add64_le: "sat_add64 a b \<le> u64_max"
  by (simp add: sat_add64_def)

lemma sat_add64_exact [simp]: "a + b \<le> u64_max \<Longrightarrow> sat_add64 a b = a + b"
  by (simp add: sat_add64_def)

lemma sat_add64_commute: "sat_add64 a b = sat_add64 b a"
  by (simp add: sat_add64_def add.commute)

lemma sat_add64_assoc: "sat_add64 (sat_add64 a b) c = sat_add64 a (sat_add64 b c)"
  by (simp add: sat_add64_def min_def)

lemma sat_add128_le: "sat_add128 a b \<le> u128_max"
  by (simp add: sat_add128_def)

lemma sat_mul128_le: "sat_mul128 a b \<le> u128_max"
  by (simp add: sat_mul128_def)

text \<open>A saturating left fold is the saturated sum: the fold used by every fee total.\<close>

lemma fold_sat_add64:
  "fold (\<lambda>x acc. sat_add64 acc x) xs a = (if xs = [] then a else min (a + sum_list xs) u64_max)"
  by (induction xs arbitrary: a) (auto simp: sat_add64_def)

subsection \<open>Shifts and truncating division\<close>

text \<open>
  \<open>checked_shl\<close> of Rust fails only when the shift amount reaches the width;
  bits shifted past the top are dropped.
\<close>

definition checked_shl128 :: "nat \<Rightarrow> nat \<Rightarrow> nat option" where
  "checked_shl128 a k = (if k < 128 then Some (as_u128 (a * 2 ^ k)) else None)"

definition shr :: "nat \<Rightarrow> nat \<Rightarrow> nat" where
  "shr a k = a div 2 ^ k"

definition trunc_div :: "int \<Rightarrow> int \<Rightarrow> int" where
  "trunc_div a b = sgn a * sgn b * (\<bar>a\<bar> div \<bar>b\<bar>)"

definition clamp_nat :: "nat \<Rightarrow> nat \<Rightarrow> nat \<Rightarrow> nat" where
  "clamp_nat x lo hi = (if x < lo then lo else if hi < x then hi else x)"

definition clamp_int :: "int \<Rightarrow> int \<Rightarrow> int \<Rightarrow> int" where
  "clamp_int x lo hi = (if x < lo then lo else if hi < x then hi else x)"

lemma clamp_nat_bounds [rust_arith]:
  "lo \<le> hi \<Longrightarrow> lo \<le> clamp_nat x lo hi \<and> clamp_nat x lo hi \<le> hi"
  by (simp add: clamp_nat_def)

lemma clamp_int_bounds [rust_arith]:
  "lo \<le> hi \<Longrightarrow> lo \<le> clamp_int x lo hi \<and> clamp_int x lo hi \<le> hi"
  by (simp add: clamp_int_def)

lemma clamp_nat_mono: "x \<le> y \<Longrightarrow> lo \<le> hi \<Longrightarrow> clamp_nat x lo hi \<le> clamp_nat y lo hi"
  by (auto simp: clamp_nat_def)

lemma shr_le: "shr a k \<le> a"
  by (simp add: shr_def)

section \<open>Errors and results\<close>

text \<open>
  The variants of \<^verbatim>\<open>enum Error\<close> in \<^verbatim>\<open>src/error.rs\<close> that the modelled
  code constructs, with their numeric fields. A \<open>String\<close> payload keeps the
  static text of the message; the numbers and hashes that \<open>format!\<close>
  interpolates into it are dropped.
\<close>

datatype error =
    InvalidAddress string
  | AmountOverflow
  | AmountUnderflow
  | RangeProofInvalid
  | CommitmentMismatch
  | TransparentOutputForbidden
  | RawPubkeyForbidden
  | UnshieldedForbidden
  | TransactionTooLarge nat nat
  | TransactionTooSmall nat nat
  | InvalidInputCount nat nat
  | InvalidOutputCount nat nat
  | InvalidRingSize nat nat
  | InvalidSignature string
  | DuplicateKeyImage string
  | FeeTooLow nat nat
  | OutputTooSmall nat nat
  | InvalidTxVersion nat
  | InvalidTransaction string
  | MempoolFull
  | InvalidMessage string
  | InvalidState string
  | SerializationError string
  | DatabaseError string
  | CryptoError string
  | Internal string
  | DuplicateNullifier
  | SparkVerifyFailed
  | MwCutthroughVerifyFailed
  | PowValidation string
  | ReorgTooDeep nat nat
  | Corruption string

type_synonym 'a result = "error + 'a"

definition is_ok :: "'a result \<Rightarrow> bool" where
  "is_ok r = (case r of Inl _ \<Rightarrow> False | Inr _ \<Rightarrow> True)"

lemma is_ok_simps [simp, result_simps]: "is_ok (Inr x)" "\<not> is_ok (Inl e)"
  by (simp_all add: is_ok_def)

text \<open>The \<open>?\<close> operator on a unit result, and a loop of such checks.\<close>

definition andthen :: "unit result \<Rightarrow> 'a result \<Rightarrow> 'a result" where
  "andthen r k = (case r of Inl e \<Rightarrow> Inl e | Inr _ \<Rightarrow> k)"

fun check_all :: "('a \<Rightarrow> unit result) \<Rightarrow> 'a list \<Rightarrow> unit result" where
  "check_all f [] = Inr ()"
| "check_all f (x # xs) = andthen (f x) (check_all f xs)"

text \<open>\<open>guard_err c e\<close> is the source's \<^verbatim>\<open>if c { return Err(e) }\<close>.\<close>

definition guard_err :: "bool \<Rightarrow> error \<Rightarrow> unit result" where
  "guard_err c e = (if c then Inl e else Inr ())"

lemma guard_err_ok [simp, result_simps]: "guard_err c e = Inr u \<longleftrightarrow> \<not> c"
  by (simp add: guard_err_def)

lemma guard_err_Inl [result_simps]: "guard_err c e = Inl e' \<longleftrightarrow> c \<and> e' = e"
  by (auto simp: guard_err_def)

lemma andthen_ok [simp, result_simps]: "andthen r k = Inr x \<longleftrightarrow> r = Inr () \<and> k = Inr x"
  by (cases r) (auto simp: andthen_def)

lemma andthen_Inr [simp]: "andthen (Inr u) k = k"
  by (simp add: andthen_def)

lemma andthen_Inl [simp]: "andthen (Inl e) k = Inl e"
  by (simp add: andthen_def)

lemma check_all_ok [simp, result_simps]:
  "check_all f xs = Inr u \<longleftrightarrow> (\<forall>x\<in>set xs. f x = Inr ())"
  by (induction xs) auto

text \<open>
  A \<open>HashSet::insert\<close> loop that returns an error at the first repeated element.
\<close>

fun first_dup :: "'a set \<Rightarrow> 'a list \<Rightarrow> bool" where
  "first_dup seen [] = False"
| "first_dup seen (x # xs) = (x \<in> seen \<or> first_dup (insert x seen) xs)"

lemma first_dup_iff: "first_dup seen xs \<longleftrightarrow> \<not> distinct xs \<or> set xs \<inter> seen \<noteq> {}"
  by (induction xs arbitrary: seen) auto

lemma first_dup_empty [simp]: "first_dup {} xs \<longleftrightarrow> \<not> distinct xs"
  by (simp add: first_dup_iff)

lemma set_map_filter: "set (List.map_filter f xs) = {y. \<exists>x\<in>set xs. f x = Some y}"
  by (force simp: map_filter_def)

section \<open>Byte strings\<close>

text \<open>\<open>to_le_bytes\<close>, \<open>to_be_bytes\<close> and their inverses.\<close>

fun le_bytes :: "nat \<Rightarrow> nat \<Rightarrow> bytes" where
  "le_bytes 0 n = []"
| "le_bytes (Suc k) n = of_nat (n mod 256) # le_bytes k (n div 256)"

fun from_le_bytes :: "bytes \<Rightarrow> nat" where
  "from_le_bytes [] = 0"
| "from_le_bytes (b # bs) = unat b + 256 * from_le_bytes bs"

definition be_bytes :: "nat \<Rightarrow> nat \<Rightarrow> bytes" where
  "be_bytes k n = rev (le_bytes k n)"

definition from_be_bytes :: "bytes \<Rightarrow> nat" where
  "from_be_bytes bs = from_le_bytes (rev bs)"

lemma length_le_bytes [simp]: "length (le_bytes k n) = k"
  by (induction k arbitrary: n) auto

lemma length_be_bytes [simp]: "length (be_bytes k n) = k"
  by (simp add: be_bytes_def)

lemma unat_of_nat_byte: "unat (of_nat (n mod 256) :: u8) = n mod 256"
  by (simp add: unat_of_nat)

lemma from_le_le_bytes: "from_le_bytes (le_bytes k n) = n mod 256 ^ k"
proof (induction k arbitrary: n)
  case 0
  then show ?case by simp
next
  case (Suc k)
  have "n mod 256 + 256 * (n div 256 mod 256 ^ k) = n mod (256 * 256 ^ k)"
    by (simp add: mod_mult2_eq)
  then show ?case by (simp add: Suc.IH unat_of_nat_byte)
qed

lemma from_be_be_bytes: "from_be_bytes (be_bytes k n) = n mod 256 ^ k"
  by (simp add: be_bytes_def from_be_bytes_def from_le_le_bytes)

lemma from_le_bytes_less: "from_le_bytes bs < 256 ^ length bs"
proof (induction bs)
  case Nil
  then show ?case by simp
next
  case (Cons b bs)
  have "unat b < 256" using unsigned_less [of b] by simp
  with Cons.IH show ?case by simp
qed

lemma from_be_bytes_less: "from_be_bytes bs < 256 ^ length bs"
  using from_le_bytes_less [of "rev bs"] by (simp add: from_be_bytes_def)

lemma le_from_le_bytes: "le_bytes (length bs) (from_le_bytes bs) = bs"
proof (induction bs)
  case Nil
  then show ?case by simp
next
  case (Cons b bs)
  have b: "unat b < 256" using unsigned_less [of b] by simp
  then have "of_nat ((unat b + 256 * from_le_bytes bs) mod 256) = b"
    by simp
  moreover have "(unat b + 256 * from_le_bytes bs) div 256 = from_le_bytes bs"
    using b by simp
  ultimately show ?case using Cons.IH by simp
qed

lemma be_from_be_bytes: "be_bytes (length bs) (from_be_bytes bs) = bs"
proof -
  have "le_bytes (length (rev bs)) (from_le_bytes (rev bs)) = rev bs"
    by (rule le_from_le_bytes)
  then show ?thesis by (simp add: be_bytes_def from_be_bytes_def)
qed

section \<open>State machines with an invariant\<close>

text \<open>
  The interface between a component's operations and the properties of its
  runs: whatever operations the clients call and in whatever order, an
  invariant that holds initially and is kept by one operation holds after the
  whole sequence.
\<close>

locale invariant_machine =
  fixes start :: "'s \<Rightarrow> bool"
    and step :: "'op \<Rightarrow> 's \<Rightarrow> 's"
    and inv :: "'s \<Rightarrow> bool"
  assumes inv_start: "start s \<Longrightarrow> inv s"
    and inv_step: "inv s \<Longrightarrow> inv (step x s)"
begin

lemma inv_run: "inv s \<Longrightarrow> inv (fold step xs s)"
  by (induction xs arbitrary: s) (auto intro: inv_step)

lemma reachable_inv: "start s \<Longrightarrow> inv (fold step xs s)"
  by (rule inv_run) (rule inv_start)

end

text \<open>
  Some operations keep an invariant only when their caller meets a precondition. A run
  is enabled when every operation's precondition holds in the state it is applied to.
\<close>

fun enabled_run :: "('op \<Rightarrow> 's \<Rightarrow> bool) \<Rightarrow> ('op \<Rightarrow> 's \<Rightarrow> 's) \<Rightarrow> 'op list \<Rightarrow> 's \<Rightarrow> bool" where
  "enabled_run en step [] s = True"
| "enabled_run en step (x # xs) s = (en x s \<and> enabled_run en step xs (step x s))"

locale guarded_machine =
  fixes enabled :: "'op \<Rightarrow> 's \<Rightarrow> bool"
    and step :: "'op \<Rightarrow> 's \<Rightarrow> 's"
    and inv :: "'s \<Rightarrow> bool"
  assumes inv_enabled_step: "inv s \<Longrightarrow> enabled x s \<Longrightarrow> inv (step x s)"
begin

lemma inv_enabled_run: "inv s \<Longrightarrow> enabled_run enabled step xs s \<Longrightarrow> inv (fold step xs s)"
  by (induction xs arbitrary: s) (auto intro: inv_enabled_step)

end

sublocale invariant_machine \<subseteq> guarded_machine "\<lambda>_ _. True" step inv
  by unfold_locales (rule inv_step)

end
