(* ===== verification/Amounts.thy ===== *)
theory Amounts
  imports Cync_Prelude
begin

text \<open>
  The monetary and chain-position newtypes of \<^verbatim>\<open>src/primitives\<close>:
  \<open>Amount\<close> (atomic units in a \<open>u64\<close>) with its checked, saturating and
  percentage arithmetic, its decimal formatter and its decimal parser, and the
  saturating operations of \<open>Height\<close>, \<open>Timestamp\<close> and
  \<open>Difficulty\<close>. Strings are ASCII. The conversions through \<open>f64\<close> are
  not modelled.
\<close>

section \<open>Constants and denominations\<close>

definition ATOMIC_UNITS :: nat where "ATOMIC_UNITS = 1000000000000"
definition MILLICYNC :: nat where "MILLICYNC = 1000000000"
definition MICROCYNC :: nat where "MICROCYNC = 1000000"
definition NANOCYNC :: nat where "NANOCYNC = 1000"

lemmas denomination_consts = ATOMIC_UNITS_def MILLICYNC_def MICROCYNC_def NANOCYNC_def

type_synonym amount = nat

datatype denomination = Cync | MilliCync | MicroCync | NanoCync | Sync

fun multiplier :: "denomination \<Rightarrow> nat" where
  "multiplier Cync = ATOMIC_UNITS"
| "multiplier MilliCync = MILLICYNC"
| "multiplier MicroCync = MICROCYNC"
| "multiplier NanoCync = NANOCYNC"
| "multiplier Sync = 1"

fun symbol :: "denomination \<Rightarrow> string" where
  "symbol Cync = ''CYNC''"
| "symbol MilliCync = ''mCYNC''"
| "symbol MicroCync = CHR 0xCE # CHR 0xBC # ''CYNC''"
| "symbol NanoCync = ''nCYNC''"
| "symbol Sync = ''sync''"

fun decimals :: "denomination \<Rightarrow> nat" where
  "decimals Cync = 12"
| "decimals MilliCync = 9"
| "decimals MicroCync = 6"
| "decimals NanoCync = 3"
| "decimals Sync = 0"

section \<open>Arithmetic\<close>

definition from_cync :: "nat \<Rightarrow> amount result" where
  "from_cync c = (case checked_mul64 c ATOMIC_UNITS of
     Some a \<Rightarrow> Inr a | None \<Rightarrow> Inl AmountOverflow)"

definition as_cync :: "amount \<Rightarrow> nat" where
  "as_cync a = a div ATOMIC_UNITS"

definition amount_checked_add :: "amount \<Rightarrow> amount \<Rightarrow> amount result" where
  "amount_checked_add a b = (case checked_add64 a b of
     Some c \<Rightarrow> Inr c | None \<Rightarrow> Inl AmountOverflow)"

definition amount_checked_sub :: "amount \<Rightarrow> amount \<Rightarrow> amount result" where
  "amount_checked_sub a b = (case checked_sub64 a b of
     Some c \<Rightarrow> Inr c | None \<Rightarrow> Inl AmountUnderflow)"

definition amount_checked_mul :: "amount \<Rightarrow> nat \<Rightarrow> amount result" where
  "amount_checked_mul a k = (case checked_mul64 a k of
     Some c \<Rightarrow> Inr c | None \<Rightarrow> Inl AmountOverflow)"

definition amount_checked_div :: "amount \<Rightarrow> nat \<Rightarrow> amount result" where
  "amount_checked_div a k = (if k = 0 then Inl AmountOverflow else Inr (a div k))"

definition amount_sum :: "amount list \<Rightarrow> amount" where
  "amount_sum xs = fold (\<lambda>x acc. sat_add64 acc x) xs 0"

definition percentage :: "amount \<Rightarrow> nat \<Rightarrow> amount" where
  "percentage a basis_points =
     (let numerator = as_u128 (a * basis_points);
          rounded = as_u128 (numerator + 5000) div 10000
      in as_u64 (min rounded u64_max))"

definition percentage_truncate :: "amount \<Rightarrow> nat \<Rightarrow> amount" where
  "percentage_truncate a basis_points =
     (let res = as_u128 (a * basis_points) div 10000
      in as_u64 (min res u64_max))"

text \<open>The operators \<open>+\<close>, \<open>-\<close>, \<open>*\<close> and \<open>/\<close> of \<open>Amount\<close>.\<close>

definition amount_add :: "amount \<Rightarrow> amount \<Rightarrow> amount" where
  "amount_add a b = sat_add64 a b"

definition amount_sub :: "amount \<Rightarrow> amount \<Rightarrow> amount" where
  "amount_sub a b = sat_sub a b"

definition amount_mul :: "amount \<Rightarrow> nat \<Rightarrow> amount" where
  "amount_mul a k = sat_mul64 a k"

definition amount_div :: "amount \<Rightarrow> nat \<Rightarrow> amount" where
  "amount_div a k = (if k = 0 then 0 else a div k)"

section \<open>Decimal text\<close>

text \<open>The decimal digits of a number (\<open>to_string\<close>), padding, and their reading.\<close>

definition digit_char :: "nat \<Rightarrow> char" where
  "digit_char d = char_of (48 + d)"

definition is_ascii_digit :: "char \<Rightarrow> bool" where
  "is_ascii_digit c = (48 \<le> (of_char c :: nat) \<and> (of_char c :: nat) \<le> 57)"

definition digit_val :: "char \<Rightarrow> nat" where
  "digit_val c = of_char c - 48"

fun show_nat :: "nat \<Rightarrow> string" where
  "show_nat n = (if n < 10 then [digit_char n]
     else show_nat (n div 10) @ [digit_char (n mod 10)])"

declare show_nat.simps [simp del]

definition dec_val :: "string \<Rightarrow> nat" where
  "dec_val s = foldl (\<lambda>v c. 10 * v + digit_val c) 0 s"

definition zero_char :: char where "zero_char = CHR ''0''"

definition pad_left :: "nat \<Rightarrow> string \<Rightarrow> string" where
  "pad_left k s = replicate (k - length s) zero_char @ s"

definition pad_right :: "nat \<Rightarrow> string \<Rightarrow> string" where
  "pad_right k s = s @ replicate (k - length s) zero_char"

definition trim_end_zeros :: "string \<Rightarrow> string" where
  "trim_end_zeros s = rev (dropWhile (\<lambda>c. c = zero_char) (rev s))"

definition is_space :: "char \<Rightarrow> bool" where
  "is_space c = (let n = (of_char c :: nat) in (9 \<le> n \<and> n \<le> 13) \<or> n = 32)"

definition trim :: "string \<Rightarrow> string" where
  "trim s = rev (dropWhile is_space (rev (dropWhile is_space s)))"

text \<open>\<open>str::parse::<u128>\<close>: an optional plus sign, then digits, without overflow.\<close>

definition parse_u128 :: "string \<Rightarrow> nat option" where
  "parse_u128 s =
     (let t = (case s of [] \<Rightarrow> [] | c # cs \<Rightarrow> if c = CHR ''+'' then cs else s)
      in if t = [] \<or> \<not> list_all is_ascii_digit t then None
         else if u128_max < dec_val t then None else Some (dec_val t))"

section \<open>Formatting and parsing amounts\<close>

definition amount_format :: "amount \<Rightarrow> nat \<Rightarrow> string" where
  "amount_format a ndec =
     (let whole = a div ATOMIC_UNITS;
          frac = a mod ATOMIC_UNITS
      in if ndec = 0 then show_nat whole
         else let frac_str = pad_left 12 (show_nat frac);
                  trimmed = trim_end_zeros (take (min ndec 12) frac_str)
              in if trimmed = [] then show_nat whole
                 else show_nat whole @ ''.'' @ trimmed)"

definition format_in :: "amount \<Rightarrow> denomination \<Rightarrow> string" where
  "format_in a denom =
     (let m = multiplier denom;
          whole = a div m;
          frac = a mod m;
          ndec = decimals denom
      in if ndec = 0 \<or> frac = 0 then show_nat whole @ '' '' @ symbol denom
         else let frac_str = pad_left ndec (show_nat frac);
                  trimmed = trim_end_zeros frac_str
              in show_nat whole @ ''.'' @ trimmed @ '' '' @ symbol denom)"

definition format_auto :: "amount \<Rightarrow> string" where
  "format_auto a =
     (if ATOMIC_UNITS \<le> a then format_in a Cync
      else if MILLICYNC \<le> a then format_in a MilliCync
      else if MICROCYNC \<le> a then format_in a MicroCync
      else if NANOCYNC \<le> a then format_in a NanoCync
      else format_in a Sync)"

definition from_str_frac :: "string option \<Rightarrow> nat result" where
  "from_str_frac frac_opt =
     (case frac_opt of
        None \<Rightarrow> Inr 0
      | Some frac_str \<Rightarrow>
          if frac_str = [] then Inr 0
          else if \<not> list_all is_ascii_digit frac_str then Inl (InvalidAddress ''invalid amount'')
          else (case parse_u128 (pad_right 12 (take (min (length frac_str) 12) frac_str)) of
                  None \<Rightarrow> Inl (InvalidAddress ''invalid amount'')
                | Some v \<Rightarrow> Inr v))"

definition split_point :: "string \<Rightarrow> string \<times> string option" where
  "split_point s =
     (let i = takeWhile (\<lambda>c. c \<noteq> CHR ''.'') s
      in if length i < length s then (i, Some (drop (length i + 1) s)) else (s, None))"

definition from_str :: "string \<Rightarrow> amount result" where
  "from_str s0 =
     (let s = trim s0
      in if s = [] then Inl (InvalidAddress ''empty amount'')
         else if hd s = CHR ''-'' then Inl AmountUnderflow
         else let (int_str, frac_opt) = split_point s
              in (case parse_u128 int_str of
                    None \<Rightarrow> Inl (InvalidAddress ''invalid amount'')
                  | Some int_part \<Rightarrow>
                      if u64_max div ATOMIC_UNITS < int_part then Inl AmountOverflow
                      else let int_syncs = as_u128 (int_part * ATOMIC_UNITS)
                           in (case from_str_frac frac_opt of
                                 Inl e \<Rightarrow> Inl e
                               | Inr frac_syncs \<Rightarrow>
                                   (case checked_add128 int_syncs frac_syncs of
                                      None \<Rightarrow> Inl AmountOverflow
                                    | Some tot \<Rightarrow>
                                        if u64_max < tot then Inl AmountOverflow
                                        else Inr (as_u64 tot)))))"

section \<open>Heights, timestamps, difficulties\<close>

definition height_next :: "nat \<Rightarrow> nat" where "height_next h = sat_add64 h 1"
definition height_prev :: "nat \<Rightarrow> nat" where "height_prev h = sat_sub h 1"
definition saturating_blocks_since :: "nat \<Rightarrow> nat \<Rightarrow> nat" where
  "saturating_blocks_since h earlier = sat_sub h earlier"
definition height_add :: "nat \<Rightarrow> nat \<Rightarrow> nat" where "height_add h blocks = sat_add64 h blocks"
definition saturating_secs_since :: "nat \<Rightarrow> nat \<Rightarrow> nat" where
  "saturating_secs_since t earlier = sat_sub t earlier"
definition difficulty_add :: "nat \<Rightarrow> nat \<Rightarrow> nat" where "difficulty_add a b = sat_add128 a b"
definition difficulty_sum :: "nat list \<Rightarrow> nat" where
  "difficulty_sum ds = fold (\<lambda>d acc. difficulty_add acc d) ds 0"

section \<open>Arithmetic properties\<close>

lemmas amount_result_defs = from_cync_def amount_checked_add_def amount_checked_sub_def
  amount_checked_mul_def amount_checked_div_def

lemma amount_sum_eq: "amount_sum xs = min (sum_list xs) u64_max"
  by (simp add: amount_sum_def fold_sat_add64)

lemma percentage_product:
  "a \<le> u64_max \<Longrightarrow> b \<le> u64_max \<Longrightarrow> a * b + 5000 \<le> u128_max"
proof -
  assume "a \<le> u64_max" "b \<le> u64_max"
  then have "a * b \<le> u64_max * u64_max" by (rule mult_le_mono)
  then show ?thesis by (simp add: width_eqs)
qed

lemma percentage_eq:
  assumes "a \<le> u64_max" "b \<le> u64_max"
  shows "percentage a b = min ((a * b + 5000) div 10000) u64_max"
proof -
  have "a * b \<le> u128_max" using percentage_product [OF assms] by simp
  then show ?thesis using percentage_product [OF assms] by (simp add: percentage_def Let_def)
qed

lemma percentage_truncate_eq:
  assumes "a \<le> u64_max" "b \<le> u64_max"
  shows "percentage_truncate a b = min (a * b div 10000) u64_max"
proof -
  have "a * b \<le> u128_max" using percentage_product [OF assms] by simp
  then show ?thesis by (simp add: percentage_truncate_def Let_def)
qed

section \<open>Digits\<close>

lemma digit_val_char [simp]: "d < 10 \<Longrightarrow> digit_val (digit_char d) = d"
  by (simp add: digit_val_def digit_char_def of_char_of)

lemma is_ascii_digit_char [simp]: "d < 10 \<Longrightarrow> is_ascii_digit (digit_char d)"
  by (simp add: is_ascii_digit_def digit_char_def of_char_of)

lemma zero_char_digit [simp]: "is_ascii_digit zero_char" "digit_val zero_char = 0"
  by (simp_all add: is_ascii_digit_def zero_char_def digit_val_def)

lemma digit_not_special:
  assumes "is_ascii_digit c"
  shows "c \<noteq> CHR ''.''" "c \<noteq> CHR ''-''" "c \<noteq> CHR ''+''" "\<not> is_space c"
  using assms by (auto simp: is_ascii_digit_def is_space_def Let_def)

lemma dec_val_foldl: "foldl (\<lambda>v c. 10 * v + digit_val c) a s = a * 10 ^ length s + dec_val s"
proof (induction s arbitrary: a)
  case Nil
  then show ?case by (simp add: dec_val_def)
next
  case (Cons c s)
  show ?case
    using Cons.IH [of "10 * a + digit_val c"] Cons.IH [of "digit_val c"]
    by (simp add: dec_val_def algebra_simps)
qed

lemma dec_val_append: "dec_val (s @ t) = dec_val s * 10 ^ length t + dec_val t"
  using dec_val_foldl [of "dec_val s" t] by (simp add: dec_val_def)

lemma dec_val_Nil [simp]: "dec_val [] = 0"
  by (simp add: dec_val_def)

lemma dec_val_single [simp]: "dec_val [c] = digit_val c"
  by (simp add: dec_val_def)

lemma dec_val_zeros [simp]: "dec_val (replicate n zero_char) = 0"
  by (induction n) (simp_all add: dec_val_append [of "[_]", simplified] flip: append_Cons)

lemma dec_val_less: "list_all is_ascii_digit s \<Longrightarrow> dec_val s < 10 ^ length s"
proof (induction s rule: rev_induct)
  case Nil
  then show ?case by simp
next
  case (snoc c s)
  then have "digit_val c < 10" by (auto simp: digit_val_def is_ascii_digit_def)
  with snoc show ?case by (simp add: dec_val_append)
qed

lemma dec_val_show_nat [simp]: "dec_val (show_nat n) = n"
proof (induction n rule: show_nat.induct)
  case (1 n)
  show ?case
  proof (cases "n < 10")
    case True
    then show ?thesis by (subst show_nat.simps) simp
  next
    case False
    then show ?thesis using 1 by (subst show_nat.simps) (simp add: dec_val_append)
  qed
qed

lemma show_nat_digits [simp]: "list_all is_ascii_digit (show_nat n)"
proof (induction n rule: show_nat.induct)
  case (1 n)
  then show ?case by (subst show_nat.simps) simp
qed

lemma show_nat_nonempty [simp]: "show_nat n \<noteq> []"
  by (subst show_nat.simps) simp

lemma length_show_nat: "n < 10 ^ k \<Longrightarrow> 0 < k \<Longrightarrow> length (show_nat n) \<le> k"
proof (induction k arbitrary: n)
  case 0
  then show ?case by simp
next
  case (Suc k)
  show ?case
  proof (cases "n < 10")
    case True
    then show ?thesis by (subst show_nat.simps) simp
  next
    case False
    with Suc.prems have "n div 10 < 10 ^ k" by auto
    moreover have "0 < k" using False Suc.prems by (cases k) auto
    ultimately have "length (show_nat (n div 10)) \<le> k" by (rule Suc.IH)
    then show ?thesis using False by (subst show_nat.simps) simp
  qed
qed

lemma pad_left_props:
  assumes "n < 10 ^ k" "0 < k"
  shows "length (pad_left k (show_nat n)) = k"
    and "list_all is_ascii_digit (pad_left k (show_nat n))"
    and "dec_val (pad_left k (show_nat n)) = n"
  using length_show_nat [OF assms] by (auto simp: pad_left_def dec_val_append list_all_iff
      dest: show_nat_digits [unfolded list_all_iff, rule_format])

lemma trim_end_zeros_split:
  "\<exists>m. s = trim_end_zeros s @ replicate m zero_char"
proof -
  let ?z = "takeWhile (\<lambda>c. c = zero_char) (rev s)"
  have "?z = replicate (length ?z) zero_char"
    by (rule replicate_length_same [symmetric]) (auto dest: set_takeWhileD)
  moreover have "s = rev (dropWhile (\<lambda>c. c = zero_char) (rev s)) @ rev ?z"
    by (metis rev_append rev_rev_ident takeWhile_dropWhile_id)
  ultimately show ?thesis unfolding trim_end_zeros_def
    by (metis rev_replicate)
qed

lemma trim_digits:
  assumes "list_all (\<lambda>c. \<not> is_space c) s"
  shows "trim s = s"
proof -
  have "dropWhile is_space t = t" if "list_all (\<lambda>c. \<not> is_space c) t" for t
    using that by (cases t) auto
  with assms show ?thesis by (simp add: trim_def list_all_rev)
qed

lemma parse_u128_digits:
  assumes "list_all is_ascii_digit s" "s \<noteq> []" "dec_val s \<le> u128_max"
  shows "parse_u128 s = Some (dec_val s)"
proof -
  have "hd s \<noteq> CHR ''+''" using assms by (cases s) (auto dest: digit_not_special)
  with assms show ?thesis by (cases s) (auto simp: parse_u128_def Let_def)
qed

section \<open>The formatter and the parser agree\<close>

text \<open>What \<open>amount_format\<close> prints after the point, as a number.\<close>

lemma dec_val_take:
  assumes "length s = 12" "list_all is_ascii_digit s" "d \<le> 12"
  shows "dec_val (take d s) = dec_val s div 10 ^ (12 - d)"
proof -
  have "dec_val s = dec_val (take d s @ drop d s)" by simp
  also have "\<dots> = dec_val (take d s) * 10 ^ (12 - d) + dec_val (drop d s)"
    using assms by (simp add: dec_val_append del: append_take_drop_id)
  finally have split: "dec_val s = dec_val (take d s) * 10 ^ (12 - d) + dec_val (drop d s)" .
  have "list_all is_ascii_digit (drop d s)" using assms(2)
    by (auto simp: list_all_iff dest: in_set_dropD)
  from dec_val_less [OF this] have "dec_val (drop d s) < 10 ^ (12 - d)" using assms(1) by simp
  with split show ?thesis by simp
qed

lemma from_str_frac_trimmed:
  assumes "length s = 12" "list_all is_ascii_digit s" "0 < d" "d \<le> 12"
    and "trim_end_zeros (take d s) \<noteq> []"
  shows "from_str_frac (Some (trim_end_zeros (take d s)))
       = Inr (dec_val s div 10 ^ (12 - d) * 10 ^ (12 - d))"
proof -
  let ?t = "trim_end_zeros (take d s)"
  obtain m where m: "take d s = ?t @ replicate m zero_char"
    using trim_end_zeros_split by blast
  have len: "length ?t + m = d" using arg_cong [OF m, of length] assms by simp
  have dig: "list_all is_ascii_digit (take d s)" using assms(2)
    by (auto simp: list_all_iff dest: in_set_takeD)
  then have digt: "list_all is_ascii_digit ?t" using m by (metis list_all_append)
  have pad: "pad_right 12 ?t = take d s @ replicate (12 - d) zero_char"
  proof -
    have "12 - length ?t = m + (12 - d)" using len assms(4) by linarith
    then show ?thesis by (subst (2) m) (simp add: pad_right_def replicate_add)
  qed
  have val: "dec_val (pad_right 12 ?t) = dec_val s div 10 ^ (12 - d) * 10 ^ (12 - d)"
    unfolding pad using dec_val_take [OF assms(1,2,4)] by (simp add: dec_val_append)
  have "dec_val s < 1000000000000" using dec_val_less [OF assms(2)] assms(1) by simp
  moreover have "dec_val s div 10 ^ (12 - d) * 10 ^ (12 - d) \<le> dec_val s"
    by (rule div_times_less_eq_dividend)
  ultimately have "dec_val (pad_right 12 ?t) \<le> u128_max"
    unfolding val width_eqs by linarith
  moreover have "list_all is_ascii_digit (pad_right 12 ?t)"
    using digt by (auto simp: pad_right_def list_all_iff)
  moreover have "pad_right 12 ?t \<noteq> []" using assms(5) by (simp add: pad_right_def)
  ultimately have "parse_u128 (pad_right 12 ?t) = Some (dec_val (pad_right 12 ?t))"
    by (rule parse_u128_digits [rotated 2])
  moreover have "take (min (length ?t) 12) ?t = ?t" using len assms(4) by simp
  ultimately show ?thesis using digt assms(5) val by (simp add: from_str_frac_def)
qed

lemma split_point_digits:
  assumes "list_all is_ascii_digit s"
  shows "split_point s = (s, None)" "split_point (s @ ''.'' @ t) = (s, Some t)"
proof -
  have no: "\<forall>c\<in>set s. c \<noteq> CHR ''.''" using assms digit_not_special by (auto simp: list_all_iff)
  then have all: "takeWhile (\<lambda>c. c \<noteq> CHR ''.'') s = s" by (simp add: takeWhile_eq_all_conv)
  show "split_point s = (s, None)" unfolding split_point_def all by simp
  have pre: "takeWhile (\<lambda>c. c \<noteq> CHR ''.'') (s @ ''.'' @ t) = s"
    using no by (simp add: takeWhile_append2)
  show "split_point (s @ ''.'' @ t) = (s, Some t)" unfolding split_point_def pre by simp
qed

lemma from_str_parts:
  assumes "trim s = s" "s \<noteq> []" "hd s \<noteq> CHR ''-''"
    and "split_point s = (show_nat w, fo)"
    and "from_str_frac fo = Inr f" "w * ATOMIC_UNITS + f \<le> u64_max"
  shows "from_str s = Inr (w * ATOMIC_UNITS + f)"
proof -
  have w: "w \<le> u64_max div ATOMIC_UNITS"
    using assms(6) by (simp add: ATOMIC_UNITS_def width_eqs)
  then have "w \<le> u128_max" by (simp add: ATOMIC_UNITS_def width_eqs)
  then have "parse_u128 (show_nat w) = Some w" by (simp add: parse_u128_digits)
  moreover have "w * ATOMIC_UNITS \<le> u128_max" "w * ATOMIC_UNITS + f \<le> u128_max"
    using assms(6) by (simp_all add: width_eqs)
  ultimately show ?thesis
    using assms w by (simp add: from_str_def checked_add128_def not_less)
qed

lemma show_nat_text:
  "hd (show_nat w) \<noteq> CHR ''-''" "list_all (\<lambda>c. \<not> is_space c) (show_nat w)"
proof -
  show "hd (show_nat w) \<noteq> CHR ''-''"
    using show_nat_digits [of w] show_nat_nonempty [of w] digit_not_special(2)
    by (cases "show_nat w") (auto simp del: show_nat_nonempty)
  show "list_all (\<lambda>c. \<not> is_space c) (show_nat w)"
    using show_nat_digits [of w] digit_not_special(4) by (auto simp: list_all_iff)
qed

lemma from_str_whole:
  assumes "w * ATOMIC_UNITS \<le> u64_max"
  shows "from_str (show_nat w) = Inr (w * ATOMIC_UNITS)"
  using from_str_parts [OF trim_digits [OF show_nat_text(2)] show_nat_nonempty
      show_nat_text(1) split_point_digits(1) [OF show_nat_digits], of 0] assms
  by (simp add: from_str_frac_def)

lemma from_str_point:
  assumes "list_all is_ascii_digit t" "from_str_frac (Some t) = Inr f"
    and "w * ATOMIC_UNITS + f \<le> u64_max"
  shows "from_str (show_nat w @ ''.'' @ t) = Inr (w * ATOMIC_UNITS + f)"
proof -
  have "list_all (\<lambda>c. \<not> is_space c) (show_nat w @ ''.'' @ t)"
    using assms(1) show_nat_text(2) [of w] digit_not_special(4)
    by (auto simp: list_all_iff is_space_def)
  then show ?thesis
    using from_str_parts [OF trim_digits _ _ split_point_digits(2) [OF show_nat_digits]]
      show_nat_text(1) assms(2,3) by simp
qed

text \<open>Dropping the decimals after the \<open>d\<close>-th one, as the formatter does.\<close>

lemma truncated_amount:
  fixes a d :: nat
  defines "p \<equiv> 10 ^ (12 - d)"
  shows "a div ATOMIC_UNITS * ATOMIC_UNITS + a mod ATOMIC_UNITS div p * p = a - a mod p"
proof -
  let ?f = "a mod ATOMIC_UNITS"
  have "ATOMIC_UNITS = p * 10 ^ (12 - (12 - d))"
    by (simp add: ATOMIC_UNITS_def p_def flip: power_add)
  then have "p dvd ATOMIC_UNITS" by (metis dvd_triv_left)
  then have "a mod p = ?f mod p" by (simp add: mod_mod_cancel)
  moreover have "?f div p * p = ?f - ?f mod p" by (simp add: minus_mod_eq_div_mult)
  moreover have "?f mod p \<le> ?f" "a div ATOMIC_UNITS * ATOMIC_UNITS + ?f = a" by simp_all
  ultimately show ?thesis by linarith
qed

lemma format_frac_empty:
  assumes "length s = 12" "list_all is_ascii_digit s" "trim_end_zeros (take (min d 12) s) = []"
  shows "dec_val s div 10 ^ (12 - d) = 0"
proof -
  obtain m where "take (min d 12) s = replicate m zero_char"
    using trim_end_zeros_split [of "take (min d 12) s"] assms(3) by auto
  then have "dec_val s div 10 ^ (12 - min d 12) = 0"
    using dec_val_take [OF assms(1,2), of "min d 12"] by simp
  moreover have "12 - min d 12 = 12 - d" by simp
  ultimately show ?thesis by metis
qed

lemma amount_format_from_str:
  assumes "a \<le> u64_max"
  shows "from_str (amount_format a d) = Inr (a - a mod 10 ^ (12 - d))"
proof -
  let ?w = "a div ATOMIC_UNITS" and ?f = "a mod ATOMIC_UNITS" and ?d = "min d 12"
  let ?s = "pad_left 12 (show_nat ?f)" and ?p = "10 ^ (12 - d) :: nat"
  let ?t = "trim_end_zeros (take ?d ?s)"
  have f: "?f < 10 ^ 12" by (simp add: ATOMIC_UNITS_def)
  note s = pad_left_props [OF f, simplified]
  have p: "12 - ?d = 12 - d" by simp
  have le: "?w * ATOMIC_UNITS + ?f div ?p * ?p \<le> u64_max"
    unfolding truncated_amount using assms by simp
  have fmt: "amount_format a d = (if d = 0 \<or> ?t = [] then show_nat ?w else show_nat ?w @ ''.'' @ ?t)"
    by (simp add: amount_format_def Let_def)
  show ?thesis
  proof (cases "d = 0 \<or> ?t = []")
    case True
    then have zero: "?f div ?p = 0"
      using f format_frac_empty [OF s(1,2), of d] s(3) by (cases "d = 0") auto
    then have "from_str (show_nat ?w) = Inr (?w * ATOMIC_UNITS + ?f div ?p * ?p)"
      using from_str_whole [of ?w] le by simp
    then show ?thesis using True fmt truncated_amount [of a d] by simp
  next
    case False
    have "list_all is_ascii_digit ?t"
      using trim_end_zeros_split [of "take ?d ?s"] s(2)
      by (metis append_take_drop_id list_all_append)
    moreover have "from_str_frac (Some ?t) = Inr (?f div ?p * ?p)"
      using from_str_frac_trimmed [OF s(1,2), of ?d] False s(3) p by (metis gr0I min.cobounded2
          min_less_iff_conj zero_less_numeral)
    ultimately have "from_str (show_nat ?w @ ''.'' @ ?t) = Inr (?w * ATOMIC_UNITS + ?f div ?p * ?p)"
      using le by (rule from_str_point)
    then show ?thesis using False fmt truncated_amount [of a d] by simp
  qed
qed

section \<open>Properties\<close>

text \<open>
  C40 (amount text round trip). Parsing the text that \<open>Amount::format\<close> prints
  with \<open>d\<close> decimals returns the amount with the decimals after the
  \<open>d\<close>-th dropped; with twelve or more decimals it returns the amount itself.
  Neither overflow check of the parser fires on any printed \<open>u64\<close>.
\<close>

theorem amount_text_roundtrip:
  assumes "a \<le> u64_max"
  shows "from_str (amount_format a d) = Inr (a - a mod 10 ^ (12 - d)) \<and>
    (12 \<le> d \<longrightarrow> from_str (amount_format a d) = Inr a)"
  using amount_format_from_str [OF assms, of d] by simp

theorem amount_text_roundtrip_witness:
  "from_str (amount_format 1500000000001 4) = Inr 1500000000000
   \<and> from_str (amount_format u64_max 12) = Inr u64_max"
proof -
  have h: "(1500000000001::nat) \<le> u64_max" by (simp add: width_eqs)
  show ?thesis
    using amount_text_roundtrip [OF h, of 4] amount_text_roundtrip [of u64_max 12] by simp
qed

text \<open>
  Basis-point percentages. For any \<open>u64\<close> amount and any rate up to
  100 percent, \<open>percentage\<close> never exceeds the amount, is within half an atomic
  unit of the exact share, and differs from \<open>percentage_truncate\<close> by at most
  one; the \<open>u128\<close> product and the narrowing cast lose nothing.
\<close>

theorem percentage_rounding:
  assumes "a \<le> u64_max" "bp \<le> 10000"
  shows "percentage a bp \<le> a
     \<and> 10000 * percentage a bp \<le> a * bp + 5000
     \<and> a * bp < 10000 * percentage a bp + 5001
     \<and> percentage_truncate a bp \<le> percentage a bp
     \<and> percentage a bp \<le> percentage_truncate a bp + 1"
proof -
  have bp: "bp \<le> u64_max" using assms(2) by (simp add: width_eqs)
  have "a * bp \<le> a * 10000" using assms(2) by simp
  then have le: "(a * bp + 5000) div 10000 \<le> a" by linarith
  then have "percentage a bp = (a * bp + 5000) div 10000"
    using assms(1) by (simp add: percentage_eq [OF assms(1) bp])
  moreover have "percentage_truncate a bp = a * bp div 10000"
    using assms(1) le by (simp add: percentage_truncate_eq [OF assms(1) bp] min_def) linarith
  ultimately show ?thesis using le by (simp; linarith)
qed

theorem percentage_rounding_witness:
  "percentage 12345 2500 = 3086 \<and> percentage_truncate 12345 2500 = 3086
   \<and> percentage 12345 2500 \<le> 12345"
proof -
  have h: "(12345::nat) \<le> u64_max" by (simp add: width_eqs)
  have b: "(2500::nat) \<le> 10000" by simp
  show ?thesis using percentage_rounding [OF h b]
    by (simp add: percentage_def percentage_truncate_def as_u128_def as_u64_def width_eqs)
qed

end
