(* ===== verification/Emission.thy ===== *)
theory Emission
  imports Complex_Main Amounts
begin

text \<open>
  The emission curve of \<^verbatim>\<open>src/emission/curve.rs\<close> and
  \<^verbatim>\<open>supply.rs\<close>: the reward from a cumulative supply, the adaptive-step
  integration loop that estimates the supply at a height, and the
  consensus reward built from the two. The lemmas show that every width used is
  enough, that the reward stays between the tail emission and 50 CYNC and never
  rises with the height.
\<close>

section \<open>Constants\<close>

definition COIN :: nat where "COIN = 1000000000000"
definition TAIL_EMISSION :: nat where "TAIL_EMISSION = 600000000000"
definition TOTAL_SUPPLY_TARGET :: nat where "TOTAL_SUPPLY_TARGET = 100000000"
definition EMISSION_DIVISOR :: nat where "EMISSION_DIVISOR = 2000000"

lemmas emission_consts = COIN_def TAIL_EMISSION_def TOTAL_SUPPLY_TARGET_def EMISSION_DIVISOR_def

definition cap_atomic :: nat where
  "cap_atomic = as_u128 (TOTAL_SUPPLY_TARGET * COIN)"

lemma cap_atomic_eq: "cap_atomic = 100000000000000000000"
  by (simp add: cap_atomic_def emission_consts as_u128_def)

section \<open>The curve\<close>

datatype emission_phase = Distribution | Mature | Tail

definition base_reward_from_supply :: "nat \<Rightarrow> amount" where
  "base_reward_from_supply cumulative_supply_atomic =
     (let remaining = sat_sub cap_atomic cumulative_supply_atomic;
          reward = remaining div EMISSION_DIVISOR;
          reward = max reward TAIL_EMISSION
      in as_u64 reward)"

definition supply_step :: "nat \<Rightarrow> nat" where
  "supply_step height =
     (if 1000000 < height then 10000
      else if 100000 < height then 1000
      else if 10000 < height then 100
      else 10)"

text \<open>
  The integration loop: \<open>h\<close> blocks done, \<open>supply\<close> so far. Once the
  asymptotic reward is below the tail, the rest is added in one multiplication.
\<close>

function supply_loop :: "nat \<Rightarrow> nat \<Rightarrow> nat \<Rightarrow> nat" where
  "supply_loop height h supply =
     (if h < height then
        let remaining = sat_sub cap_atomic supply;
            asymptotic_reward = remaining div EMISSION_DIVISOR;
            reward = max asymptotic_reward TAIL_EMISSION
        in if asymptotic_reward < TAIL_EMISSION
           then sat_add128 supply (sat_mul128 TAIL_EMISSION (height - h))
           else let blocks_in_step = min (height - h) (supply_step height)
                in supply_loop height (h + as_u64 blocks_in_step)
                     (as_u128 (supply + reward * blocks_in_step))
      else supply)"
  by pat_completeness auto

lemma supply_step_bounds: "0 < supply_step height" "supply_step height \<le> 10000"
  by (simp_all add: supply_step_def)

lemma blocks_in_step_u64: "as_u64 (min n (supply_step height)) = min n (supply_step height)"
  using supply_step_bounds(2) [of height] by (intro as_u64_id) (simp add: width_eqs min_le_iff_disj)

lemma blocks_in_step_progress:
  "h < height \<Longrightarrow> height - (h + min (height - h) (supply_step height)) < height - h"
  using supply_step_bounds(1) [of height] by linarith

termination supply_loop
  by (relation "measure (\<lambda>(height, h, supply). height - h)")
    (simp_all add: blocks_in_step_u64 blocks_in_step_progress)

declare supply_loop.simps [simp del]

definition estimate_supply_at_height :: "nat \<Rightarrow> nat" where
  "estimate_supply_at_height height =
     (if height = 0 then 0 else min (supply_loop height 0 0) cap_atomic)"

definition base_reward :: "nat \<Rightarrow> amount" where
  "base_reward height = base_reward_from_supply (estimate_supply_at_height height)"

definition estimate_reward_at_height :: "nat \<Rightarrow> nat" where
  "estimate_reward_at_height height =
     (let supply = estimate_supply_at_height height;
          remaining = sat_sub cap_atomic supply;
          reward = remaining div EMISSION_DIVISOR
      in as_u64 (max reward TAIL_EMISSION))"

definition emission_phase_at :: "nat \<Rightarrow> emission_phase" where
  "emission_phase_at height =
     (let estimated_reward = estimate_reward_at_height height
      in if estimated_reward \<le> TAIL_EMISSION then Tail
         else if estimated_reward \<le> 10 * COIN then Mature
         else Distribution)"

definition calculate_block_reward :: "nat \<Rightarrow> amount" where
  "calculate_block_reward height = base_reward height"

record supply_stats =
  total_emitted :: amount
  total_burned :: amount
  circulating :: amount
  emission_remaining :: amount
  in_tail :: bool

definition supply_stats_new :: "amount \<Rightarrow> amount \<Rightarrow> amount \<Rightarrow> bool \<Rightarrow> supply_stats" where
  "supply_stats_new emitted burned remaining tail =
     \<lparr>total_emitted = emitted, total_burned = burned,
      circulating = sat_sub emitted burned,
      emission_remaining = remaining, in_tail = tail\<rparr>"

section \<open>The reward from a supply\<close>

lemma base_reward_from_supply_eq:
  "base_reward_from_supply s = max ((cap_atomic - s) div EMISSION_DIVISOR) TAIL_EMISSION"
proof -
  have "(cap_atomic - s) div EMISSION_DIVISOR \<le> cap_atomic div EMISSION_DIVISOR"
    by (rule div_le_mono) simp
  then show ?thesis
    by (simp add: base_reward_from_supply_def Let_def sat_sub_def emission_consts cap_atomic_eq
        width_eqs)
qed

lemma base_reward_from_supply_antimono:
  "s \<le> t \<Longrightarrow> base_reward_from_supply t \<le> base_reward_from_supply s"
  unfolding base_reward_from_supply_eq
  by (intro max.mono div_le_mono diff_le_mono2) simp_all

lemma base_reward_from_supply_bounds:
  "TAIL_EMISSION \<le> base_reward_from_supply s"
  "base_reward_from_supply s \<le> 50 * COIN"
proof -
  show "TAIL_EMISSION \<le> base_reward_from_supply s"
    by (simp add: base_reward_from_supply_eq)
  have "base_reward_from_supply s \<le> base_reward_from_supply 0"
    by (rule base_reward_from_supply_antimono) simp
  also have "\<dots> = 50 * COIN"
    by (simp add: base_reward_from_supply_eq cap_atomic_eq emission_consts)
  finally show "base_reward_from_supply s \<le> 50 * COIN" .
qed

lemma estimate_reward_eq: "estimate_reward_at_height h = base_reward h"
  by (simp add: estimate_reward_at_height_def base_reward_def base_reward_from_supply_def Let_def)

section \<open>The integration loop\<close>

text \<open>
  Below the cap no step overshoots it: a step adds at most \<open>10000\<close> rewards,
  and a reward is a two-millionth of what is left. So the \<open>u128\<close> sum never
  wraps.
\<close>

lemma step_within_cap:
  assumes "s \<le> cap_atomic" "b \<le> 10000"
  shows "s + (cap_atomic - s) div EMISSION_DIVISOR * b \<le> cap_atomic"
proof -
  have "(cap_atomic - s) div EMISSION_DIVISOR * b \<le> (cap_atomic - s) div EMISSION_DIVISOR * EMISSION_DIVISOR"
    using assms(2) by (intro mult_le_mono2) (simp add: EMISSION_DIVISOR_def)
  also have "\<dots> \<le> cap_atomic - s" by (rule div_times_less_eq_dividend)
  finally show ?thesis using assms(1) by linarith
qed

lemma supply_loop_done: "height \<le> h \<Longrightarrow> supply_loop height h s = s"
  by (simp add: supply_loop.simps)

lemma supply_loop_tail:
  assumes "h < height" "(cap_atomic - s) div EMISSION_DIVISOR < TAIL_EMISSION"
  shows "supply_loop height h s = sat_add128 s (sat_mul128 TAIL_EMISSION (height - h))"
  using assms by (simp add: supply_loop.simps sat_sub_def Let_def)

lemma supply_loop_step:
  assumes "h < height" "TAIL_EMISSION \<le> (cap_atomic - s) div EMISSION_DIVISOR" "s \<le> cap_atomic"
  shows "supply_loop height h s =
     supply_loop height (h + min (height - h) (supply_step height))
       (s + (cap_atomic - s) div EMISSION_DIVISOR * min (height - h) (supply_step height))"
proof -
  let ?b = "min (height - h) (supply_step height)"
  have "s + (cap_atomic - s) div EMISSION_DIVISOR * ?b \<le> cap_atomic"
    using assms(3) supply_step_bounds(2) [of height] by (intro step_within_cap) simp_all
  then have "as_u128 (s + (cap_atomic - s) div EMISSION_DIVISOR * ?b)
      = s + (cap_atomic - s) div EMISSION_DIVISOR * ?b"
    by (intro as_u128_id) (simp add: cap_atomic_eq width_eqs)
  then show ?thesis
    using assms by (subst supply_loop.simps) (simp add: sat_sub_def Let_def blocks_in_step_u64 max_def)
qed

text \<open>The loop never falls below where it started, so a supply once reached is kept.\<close>

lemma supply_loop_ge: "s \<le> cap_atomic \<Longrightarrow> s \<le> supply_loop height h s"
proof (induction height h s rule: supply_loop.induct)
  case (1 height h s)
  let ?r = "(cap_atomic - s) div EMISSION_DIVISOR" and ?b = "min (height - h) (supply_step height)"
  consider "height \<le> h" | "h < height" "?r < TAIL_EMISSION" | "h < height" "TAIL_EMISSION \<le> ?r"
    by linarith
  then show ?case
  proof cases
    case 1
    then show ?thesis by (simp add: supply_loop_done)
  next
    case 2
    then show ?thesis using "1.prems" by (simp add: supply_loop_tail sat_add128_def cap_atomic_eq width_eqs)
  next
    case 3
    have next_le: "s + ?r * ?b \<le> cap_atomic"
      using "1.prems" supply_step_bounds(2) [of height] by (intro step_within_cap) simp_all
    then have "as_u128 (s + max ?r TAIL_EMISSION * ?b) = s + ?r * ?b"
      using 3 by (simp add: max_def cap_atomic_eq width_eqs)
    then have "s + ?r * ?b \<le> supply_loop height (h + ?b) (s + ?r * ?b)"
      using "1.IH" [OF _ refl refl refl _ refl] 3 next_le
      by (simp add: sat_sub_def blocks_in_step_u64)
    then show ?thesis using 3 "1.prems" by (simp add: supply_loop_step)
  qed
qed

text \<open>With the same step, one more block never lowers the estimate.\<close>

lemma supply_loop_mono_Suc:
  assumes "supply_step (Suc height) = supply_step height" "s \<le> cap_atomic"
  shows "supply_loop height h s \<le> supply_loop (Suc height) h s"
  using assms(2)
proof (induction "Suc height" h s rule: supply_loop.induct)
  case (1 h s)
  let ?r = "(cap_atomic - s) div EMISSION_DIVISOR" and ?k = "supply_step height"
  consider "height \<le> h" | "h < height" "?r < TAIL_EMISSION"
    | "h < height" "TAIL_EMISSION \<le> ?r" "?k \<le> height - h"
    | "h < height" "TAIL_EMISSION \<le> ?r" "height - h < ?k"
    by linarith
  then show ?case
  proof cases
    case 1
    then show ?thesis using supply_loop_ge "1.prems" by (simp add: supply_loop_done)
  next
    case 2
    have "sat_mul128 TAIL_EMISSION (height - h) \<le> sat_mul128 TAIL_EMISSION (Suc height - h)"
      unfolding sat_mul128_def by (intro min.mono mult_le_mono) simp_all
    then show ?thesis using 2 by (simp add: supply_loop_tail sat_add128_def min_le_iff_disj)
  next
    case 3
    have "s + ?r * ?k \<le> cap_atomic"
      using "1.prems" supply_step_bounds(2) [of height] by (intro step_within_cap) simp_all
    moreover have b: "min (height - h) ?k = ?k" "min (Suc height - h) ?k = ?k" using 3 by linarith+
    moreover have "as_u128 (s + max ?r TAIL_EMISSION * ?k) = s + ?r * ?k"
      using calculation(1) 3 by (simp add: max_def cap_atomic_eq width_eqs)
    moreover have "as_u64 ?k = ?k" using supply_step_bounds(2) [of height] by (simp add: width_eqs)
    ultimately have "supply_loop height (h + ?k) (s + ?r * ?k)
        \<le> supply_loop (Suc height) (h + ?k) (s + ?r * ?k)"
      using "1.hyps" [OF _ refl refl refl _ refl] 3 assms(1) by (simp add: sat_sub_def)
    then show ?thesis using 3 b "1.prems" assms(1) by (simp add: supply_loop_step)
  next
    case 4
    then have b: "min (height - h) ?k = height - h" "min (Suc height - h) ?k = Suc height - h"
      by linarith+
    have "s + ?r * (height - h) \<le> s + ?r * (Suc height - h)"
      by (intro add_left_mono mult_le_mono2) simp
    then show ?thesis using 4 b "1.prems" assms(1)
      by (simp add: supply_loop_step supply_loop_done)
  qed
qed

text \<open>
  The step length changes at three heights only. Across them the loop is compared
  with its closed form: each full step scales what is left by \<open>1 - k / D\<close>,
  up to the rounding of one division.
\<close>

definition decay :: "nat \<Rightarrow> real" where
  "decay k = 1 - real k / real EMISSION_DIVISOR"

lemma decay_bounds: "k \<le> 10000 \<Longrightarrow> 0 \<le> decay k" "decay k \<le> 1"
  by (simp_all add: decay_def EMISSION_DIVISOR_def)

lemma one_step_decay:
  fixes r k :: nat
  shows "real r * decay k \<le> real r - real (r div EMISSION_DIVISOR * k)"
    and "real r - real (r div EMISSION_DIVISOR * k) \<le> real r * decay k + real k"
proof -
  have lo: "real (r div EMISSION_DIVISOR) \<le> real r / real EMISSION_DIVISOR"
    by (rule of_nat_div_le_of_nat)
  have "real r = real (r div EMISSION_DIVISOR) * EMISSION_DIVISOR + real (r mod EMISSION_DIVISOR)"
    by (metis div_mult_mod_eq of_nat_add of_nat_mult)
  moreover have "r mod EMISSION_DIVISOR < EMISSION_DIVISOR" by (simp add: EMISSION_DIVISOR_def)
  ultimately have hi: "real r / real EMISSION_DIVISOR \<le> real (r div EMISSION_DIVISOR) + 1"
    by (simp add: EMISSION_DIVISOR_def)
  have "real (r div EMISSION_DIVISOR) * k \<le> real r / real EMISSION_DIVISOR * k"
    using lo by (intro mult_right_mono) simp_all
  then show "real r * decay k \<le> real r - real (r div EMISSION_DIVISOR * k)"
    by (simp add: decay_def algebra_simps)
  have "real r / real EMISSION_DIVISOR * k \<le> (real (r div EMISSION_DIVISOR) + 1) * k"
    using hi by (intro mult_right_mono) simp_all
  then show "real r - real (r div EMISSION_DIVISOR * k) \<le> real r * decay k + real k"
    by (simp add: decay_def algebra_simps)
qed

lemma supply_loop_full_steps:
  assumes "n * supply_step height \<le> height"
    and "TAIL_EMISSION * EMISSION_DIVISOR \<le> real cap_atomic * decay (supply_step height) ^ n"
  shows "\<exists>s. supply_loop height 0 0 = supply_loop height (n * supply_step height) s \<and> s \<le> cap_atomic \<and>
     real cap_atomic * decay (supply_step height) ^ n \<le> real (cap_atomic - s) \<and>
     real (cap_atomic - s) \<le> real cap_atomic * decay (supply_step height) ^ n + real (n * supply_step height)"
  using assms
proof (induction n)
  case 0
  then show ?case by (intro exI [of _ 0]) simp
next
  case (Suc n)
  let ?k = "supply_step height"
  let ?q = "decay ?k"
  have q: "0 \<le> ?q" "?q \<le> 1" using decay_bounds supply_step_bounds(2) by blast+
  have "cap_atomic * ?q ^ Suc n \<le> cap_atomic * ?q ^ n"
    using q by (intro mult_left_mono power_decreasing) simp_all
  then have tail: "TAIL_EMISSION * EMISSION_DIVISOR \<le> cap_atomic * ?q ^ n" using Suc.prems(2) by linarith
  have fits: "n * ?k \<le> height" using Suc.prems(1) by simp
  obtain s where s: "supply_loop height 0 0 = supply_loop height (n * ?k) s" "s \<le> cap_atomic"
    "cap_atomic * ?q ^ n \<le> real (cap_atomic - s)"
    "real (cap_atomic - s) \<le> cap_atomic * ?q ^ n + real (n * ?k)"
    using Suc.IH [OF fits tail] by blast
  let ?r = "(cap_atomic - s) div EMISSION_DIVISOR"
  let ?s' = "s + ?r * ?k"
  have "TAIL_EMISSION * EMISSION_DIVISOR \<le> real (cap_atomic - s)" using tail s(3) by linarith
  then have "TAIL_EMISSION * EMISSION_DIVISOR \<le> cap_atomic - s" by linarith
  then have "TAIL_EMISSION \<le> ?r" by (simp add: less_eq_div_iff_mult_less_eq EMISSION_DIVISOR_def)
  moreover have "n * ?k < height" "min (height - n * ?k) ?k = ?k"
    using Suc.prems(1) supply_step_bounds(1) [of height] by simp_all
  ultimately have "supply_loop height 0 0 = supply_loop height (Suc n * ?k) ?s'"
    using s(1,2) by (simp add: supply_loop_step add.commute)
  moreover have le: "?s' \<le> cap_atomic"
    using s(2) supply_step_bounds(2) by (rule step_within_cap)
  moreover have eq: "real (cap_atomic - ?s') = real (cap_atomic - s) - real (?r * ?k)" using le by simp
  moreover have "cap_atomic * ?q ^ Suc n \<le> real (cap_atomic - s) * ?q"
    using mult_right_mono [OF s(3) q(1)] by (simp add: mult.commute mult.left_commute)
  moreover have "real (cap_atomic - s) * ?q \<le> cap_atomic * ?q ^ Suc n + real (n * ?k)"
    using mult_right_mono [OF s(4) q(1)] mult_left_le [OF q(2), of "real (n * ?k)"]
    by (simp add: algebra_simps)
  ultimately show ?case using one_step_decay [of "cap_atomic - s" ?k]
    by (intro exI [of _ ?s']) (simp add: algebra_simps)
qed

lemma decay_power_ge: "k \<le> 10000 \<Longrightarrow> 1 - real (n * k) / real EMISSION_DIVISOR \<le> decay k ^ n"
  using Bernoulli_inequality [of "- (real k / real EMISSION_DIVISOR)" n]
  by (simp add: decay_def EMISSION_DIVISOR_def)

lemma supply_loop_boundary:
  assumes steps: "supply_step (Suc height) = 10 * k" "supply_step height = k"
    and height: "height = n * (10 * k)" "height \<le> 1000000"
  shows "supply_loop height 0 0 \<le> supply_loop (Suc height) 0 0"
proof -
  define c where "c = real cap_atomic"
  have k: "10 * k \<le> 10000" using supply_step_bounds(2) [of "Suc height"] steps(1) by simp
  have "1 - real height / EMISSION_DIVISOR \<le> decay (10 * k) ^ n"
    using decay_power_ge [OF k, of n] height(1) by simp
  then have half: "1 / 2 \<le> decay (10 * k) ^ n" using height(2) by (simp add: EMISSION_DIVISOR_def)
  have "decay (10 * k) \<le> decay k ^ 10" using decay_power_ge [of k 10] k by (simp add: decay_def)
  then have finer: "decay (10 * k) ^ n \<le> decay k ^ (10 * n)"
    using decay_bounds(1) [OF k] by (simp add: power_mult power_mono)
  have tail: "TAIL_EMISSION * EMISSION_DIVISOR \<le> c * decay (10 * k) ^ n"
    using half by (simp add: c_def cap_atomic_eq emission_consts)
  have tail': "TAIL_EMISSION * EMISSION_DIVISOR \<le> c * decay k ^ (10 * n)"
    using tail finer by (simp add: c_def cap_atomic_eq)
  obtain s where s: "supply_loop height 0 0 = s" "s \<le> cap_atomic" "c * decay k ^ (10 * n) \<le> real (cap_atomic - s)"
    using supply_loop_full_steps [of "10 * n" height] tail' steps height(1)
    by (auto simp: c_def supply_loop_done mult.commute mult.left_commute)
  obtain t where t: "supply_loop (Suc height) 0 0 = supply_loop (Suc height) height t" "t \<le> cap_atomic"
    "c * decay (10 * k) ^ n \<le> real (cap_atomic - t)" "real (cap_atomic - t) \<le> c * decay (10 * k) ^ n + real height"
    using supply_loop_full_steps [of n "Suc height"] tail steps(1) height(1) by (auto simp: c_def)
  let ?r = "(cap_atomic - t) div EMISSION_DIVISOR"
  have lo: "25000000000000 \<le> ?r"
    using t(3) half by (simp add: less_eq_div_iff_mult_less_eq EMISSION_DIVISOR_def c_def cap_atomic_eq)
  then have "supply_loop (Suc height) height t = t + ?r"
    using t(2) steps(1) supply_step_bounds(1) [of "Suc height"]
    by (simp add: supply_loop_step supply_loop_done TAIL_EMISSION_def)
  moreover have "c * decay (10 * k) ^ n \<le> c * decay k ^ (10 * n)"
    using finer by (intro mult_left_mono) (simp_all add: c_def)
  then have "real (cap_atomic - t) \<le> real (cap_atomic - s) + real height" using s(3) t(4) by linarith
  then have "cap_atomic - t \<le> cap_atomic - s + height" by linarith
  ultimately show ?thesis using s(1,2) t(1,2) lo height(2) by linarith
qed

lemma supply_loop_height_mono_Suc: "supply_loop height 0 0 \<le> supply_loop (Suc height) 0 0"
proof -
  consider "height = 10000" | "height = 100000" | "height = 1000000"
    | "supply_step (Suc height) = supply_step height"
    by (cases "height \<in> {10000, 100000, 1000000}") (auto simp: supply_step_def)
  then show ?thesis
  proof cases
    case 1
    then show ?thesis using supply_loop_boundary [of height 10 100] by (simp add: supply_step_def)
  next
    case 2
    then show ?thesis using supply_loop_boundary [of height 100 100] by (simp add: supply_step_def)
  next
    case 3
    then show ?thesis using supply_loop_boundary [of height 1000 100] by (simp add: supply_step_def)
  qed (simp add: supply_loop_mono_Suc)
qed

lemma supply_loop_height_mono: "mono (\<lambda>height. supply_loop height 0 0)"
  by (simp add: mono_iff_le_Suc supply_loop_height_mono_Suc)

section \<open>Reaching the tail\<close>

lemma supply_loop_tail_ge:
  assumes "h < height" "(cap_atomic - s) div EMISSION_DIVISOR < TAIL_EMISSION"
  shows "cap_atomic - TAIL_EMISSION * EMISSION_DIVISOR \<le> supply_loop height h s"
proof -
  have "cap_atomic - s < TAIL_EMISSION * EMISSION_DIVISOR"
    using assms(2) by (simp add: div_less_iff_less_mult EMISSION_DIVISOR_def)
  then have "cap_atomic - TAIL_EMISSION * EMISSION_DIVISOR \<le> s" by linarith
  moreover have "cap_atomic \<le> u128_max" by (simp add: cap_atomic_eq width_eqs)
  ultimately show ?thesis unfolding supply_loop_tail [OF assms] sat_add128_def by linarith
qed

lemma supply_loop_tail_or_decay:
  assumes "n * supply_step height \<le> height"
  shows "cap_atomic - TAIL_EMISSION * EMISSION_DIVISOR \<le> supply_loop height 0 0 \<or>
    (\<exists>s. supply_loop height 0 0 = supply_loop height (n * supply_step height) s \<and> s \<le> cap_atomic \<and>
     real (cap_atomic - s) \<le> real cap_atomic * decay (supply_step height) ^ n + real (n * supply_step height))"
  using assms
proof (induction n)
  case 0
  then show ?case by (intro disjI2 exI [of _ 0]) simp
next
  case (Suc n)
  let ?k = "supply_step height"
  let ?q = "decay ?k"
  have q: "0 \<le> ?q" "?q \<le> 1" using decay_bounds supply_step_bounds(2) by blast+
  have fits: "n * ?k \<le> height" "n * ?k < height" "min (height - n * ?k) ?k = ?k"
    using Suc.prems supply_step_bounds(1) [of height] by simp_all
  show ?case
  proof (rule disjE [OF Suc.IH [OF fits(1)]], goal_cases)
    case 2
    then obtain s where s: "supply_loop height 0 0 = supply_loop height (n * ?k) s" "s \<le> cap_atomic"
      "real (cap_atomic - s) \<le> cap_atomic * ?q ^ n + real (n * ?k)" by blast
    let ?r = "(cap_atomic - s) div EMISSION_DIVISOR"
    let ?s' = "s + ?r * ?k"
    have le: "?s' \<le> cap_atomic" using s(2) supply_step_bounds(2) by (rule step_within_cap)
    have "real (cap_atomic - s) * ?q \<le> cap_atomic * ?q ^ Suc n + real (n * ?k)"
      using mult_right_mono [OF s(3) q(1)] mult_left_le [OF q(2), of "real (n * ?k)"]
      by (simp add: algebra_simps)
    then have "real (cap_atomic - ?s') \<le> cap_atomic * ?q ^ Suc n + real (Suc n * ?k)"
      using le one_step_decay(2) [of "cap_atomic - s" ?k] by (simp add: algebra_simps)
    then have decayed: "?r < TAIL_EMISSION \<or> ?thesis"
      using supply_loop_step [OF fits(2) _ s(2)] s(1) le
      unfolding fits(3) not_less [symmetric] mult_Suc add.commute [of "n * ?k"] by auto
    show ?thesis
      using decayed supply_loop_tail_ge [OF fits(2), of s] unfolding s(1) by blast
  qed simp
qed

lemma decay_halves:
  assumes "n = (200 :: nat)"
  shows "decay 10000 ^ n \<le> 1 / 2"
proof -
  have "real n * (1 / 200) = 1" using assms by simp
  then have "2 \<le> (1 + 1 / 200 :: real) ^ n"
    using Bernoulli_inequality [of "1 / 200 :: real" n] by linarith
  moreover have "decay 10000 ^ n * (1 + 1 / 200) ^ n \<le> 1"
    unfolding power_mult_distrib [symmetric]
    by (rule power_le_one) (simp_all add: decay_def EMISSION_DIVISOR_def)
  moreover have "0 \<le> decay 10000 ^ n" using decay_bounds(1) by simp
  ultimately have "decay 10000 ^ n * 2 \<le> 1" by (meson mult_left_mono order_trans)
  then show ?thesis by linarith
qed

lemma decay_small:
  assumes "n = (200 :: nat)"
  shows "decay 10000 ^ (n * 8) \<le> 1 / 256"
proof -
  have "0 \<le> decay 10000 ^ n" using decay_bounds(1) by simp
  then have "(decay 10000 ^ n) ^ 8 \<le> (1 / 2) ^ 8"
    using decay_halves [OF assms] by (intro power_mono)
  also have "(1 / 2 :: real) ^ 8 = 1 / 256" by (simp add: power_one_over)
  finally show ?thesis by (simp only: power_mult)
qed

lemma supply_loop_reaches_tail:
  "cap_atomic - TAIL_EMISSION * EMISSION_DIVISOR \<le> supply_loop 16000000 0 0"
proof -
  define n where "n = (200 :: nat) * 8"
  define x where "x = decay 10000 ^ n"
  have k: "supply_step 16000000 = 10000" "n * 10000 = 16000000"
    by (simp_all add: supply_step_def n_def)
  have x: "x \<le> 1 / 256" unfolding x_def n_def by (rule decay_small [OF refl])
  have "cap_atomic - TAIL_EMISSION * EMISSION_DIVISOR \<le> s"
    if "real (cap_atomic - s) \<le> cap_atomic * x + 16000000" for s
  proof -
    have "real (cap_atomic - s) < 1200000000000000000" using that x by (simp add: cap_atomic_eq)
    then have "cap_atomic - s < 1200000000000000000" by linarith
    then show ?thesis by (simp add: cap_atomic_eq emission_consts)
  qed
  then show ?thesis
    using supply_loop_tail_or_decay [of n 16000000] unfolding k x_def [symmetric]
    by (auto simp: supply_loop_done)
qed

section \<open>The reward curve as an interface\<close>

text \<open>
  What block validation relies on: a reward that never leaves
  \<open>[reward_floor, reward_ceiling]\<close> and never rises.
\<close>

locale reward_curve =
  fixes reward :: "nat \<Rightarrow> nat" and reward_floor reward_ceiling :: nat
  assumes reward_floor_le: "reward_floor \<le> reward h"
    and reward_le_ceiling: "reward h \<le> reward_ceiling"
    and reward_antimono: "g \<le> h \<Longrightarrow> reward h \<le> reward g"
begin

lemma tail_is_final:
  assumes "reward g = reward_floor" "g \<le> h"
  shows "reward h = reward_floor"
  using assms reward_antimono [of g h] reward_floor_le [of h] by simp

lemma total_issue_bounds:
  "n * reward_floor \<le> (\<Sum>h < n. reward h)" "(\<Sum>h < n. reward h) \<le> n * reward_ceiling"
  using sum_mono [of "{..< n}" "\<lambda>_. reward_floor" reward] sum_mono [of "{..< n}" reward "\<lambda>_. reward_ceiling"]
  by (simp_all add: reward_floor_le reward_le_ceiling)

end

lemma estimate_supply_mono: "g \<le> h \<Longrightarrow> estimate_supply_at_height g \<le> estimate_supply_at_height h"
  using monoD [OF supply_loop_height_mono, of g h]
  by (auto simp: estimate_supply_at_height_def min_le_iff_disj)

interpretation base_curve: reward_curve base_reward TAIL_EMISSION "50 * COIN"
  by unfold_locales
    (simp_all add: base_reward_def base_reward_from_supply_bounds base_reward_from_supply_antimono
      estimate_supply_mono)

lemma base_reward_tail_reached: "base_reward 16000000 = TAIL_EMISSION"
proof -
  have "cap_atomic - TAIL_EMISSION * EMISSION_DIVISOR \<le> estimate_supply_at_height 16000000"
    using supply_loop_reaches_tail by (simp add: estimate_supply_at_height_def)
  then have "base_reward 16000000 \<le> base_reward_from_supply (cap_atomic - TAIL_EMISSION * EMISSION_DIVISOR)"
    unfolding base_reward_def by (rule base_reward_from_supply_antimono)
  also have "\<dots> = TAIL_EMISSION" by (simp add: base_reward_from_supply_eq cap_atomic_eq emission_consts)
  finally show ?thesis using base_curve.reward_floor_le [of 16000000] by simp
qed

section \<open>Properties\<close>

text \<open>
  C1 (the reward schedule). The consensus block reward never rises from one height to a
  later one, although the estimate behind it integrates with a step that changes at heights
  10000, 100000 and 1000000; it starts at 50 CYNC and is always between the tail emission and
  50 CYNC.
\<close>

theorem block_reward_schedule:
  "antimono base_reward \<and> base_reward 0 = 50 * COIN \<and>
   (\<forall>h. TAIL_EMISSION \<le> base_reward h \<and> base_reward h \<le> 50 * COIN)"
proof -
  have "base_reward 0 = 50 * COIN"
    by (simp add: base_reward_def estimate_supply_at_height_def base_reward_from_supply_eq
        cap_atomic_eq emission_consts)
  then show ?thesis
    by (simp add: antimono_def base_curve.reward_antimono base_curve.reward_floor_le
        base_curve.reward_le_ceiling)
qed



end
