(* ===== verification/Hashes.thy ===== *)
theory Hashes
  imports Amounts
begin

text \<open>
  Hashes and Merkle roots of \<^verbatim>\<open>src/primitives/hash.rs\<close>. A hash is a list of
  32 bytes, and the BLAKE3 function is a parameter \<open>H\<close> of every
  definition that hashes. The lemmas show that the comparison with a target is the
  comparison of the big-endian numbers, that the leading-zero targets invert, and what
  the Merkle root commits to.
\<close>

section \<open>Hashes as numbers and as difficulties\<close>

type_synonym hash = bytes

definition hash_zero :: hash where "hash_zero = replicate 32 0"

definition from_slice :: "bytes \<Rightarrow> hash option" where
  "from_slice bs = (if length bs \<noteq> 32 then None else Some bs)"

fun meets_bytes :: "bytes \<Rightarrow> bytes \<Rightarrow> bool" where
  "meets_bytes (a # as) (b # bs) =
     (if a < b then True else if b < a then False else meets_bytes as bs)"
| "meets_bytes _ _ = True"

definition meets_difficulty :: "hash \<Rightarrow> hash \<Rightarrow> bool" where
  "meets_difficulty h target = meets_bytes (take 32 h) (take 32 target)"

text \<open>\<open>63 - leading_zeros\<close> of a non-zero \<open>u64\<close> is its binary logarithm.\<close>

fun ilog2 :: "nat \<Rightarrow> nat" where
  "ilog2 n = (if n < 2 then 0 else Suc (ilog2 (n div 2)))"

declare ilog2.simps [simp del]

definition leading_zeros8 :: "u8 \<Rightarrow> nat" where
  "leading_zeros8 b = (if b = 0 then 8 else 7 - ilog2 (unat b))"

definition from_difficulty :: "nat \<Rightarrow> hash" where
  "from_difficulty difficulty =
     (if difficulty = 0 then replicate 32 0xFF
      else let leading_zero_bits = ilog2 difficulty;
               full_zero_bytes = leading_zero_bits div 8;
               partial_bits = leading_zero_bits mod 8;
               zeroed = map (\<lambda>i. if i < min full_zero_bytes 32 then 0 else 0xFF) [0 ..< 32]
           in if full_zero_bytes < 32 \<and> 0 < partial_bits
              then zeroed [full_zero_bytes := drop_bit partial_bits 0xFF] else zeroed)"

fun zero_bits :: "bytes \<Rightarrow> nat" where
  "zero_bits [] = 0"
| "zero_bits (b # bs) = (if b = 0 then 8 + zero_bits bs else leading_zeros8 b)"

definition to_difficulty :: "hash \<Rightarrow> nat" where
  "to_difficulty h = (let z = zero_bits h in if z < 64 then as_u64 (2 ^ z) else u64_max)"

section \<open>Hashing and Merkle roots\<close>

definition hash_concat :: "(bytes \<Rightarrow> hash) \<Rightarrow> bytes list \<Rightarrow> hash" where
  "hash_concat H parts = H (concat parts)"

definition hash_domain :: "(bytes \<Rightarrow> hash) \<Rightarrow> bytes \<Rightarrow> bytes \<Rightarrow> hash" where
  "hash_domain H domain data = H (domain @ [0] @ data)"

fun merkle_pairs :: "(bytes \<Rightarrow> hash) \<Rightarrow> hash list \<Rightarrow> hash list" where
  "merkle_pairs H (a # b # rest) = hash_concat H [[1], a, b] # merkle_pairs H rest"
| "merkle_pairs H [a] = [hash_concat H [[1], a, a]]"
| "merkle_pairs H [] = []"

lemma length_merkle_pairs [simp]: "length (merkle_pairs H xs) = (length xs + 1) div 2"
  by (induction H xs rule: merkle_pairs.induct) auto

lemma merkle_pairs_Nil_iff [simp]: "merkle_pairs H xs = [] \<longleftrightarrow> xs = []"
  by (cases "(H, xs)" rule: merkle_pairs.cases) auto

function merkle_levels :: "(bytes \<Rightarrow> hash) \<Rightarrow> hash list \<Rightarrow> hash list" where
  "merkle_levels H level =
     (if 1 < length level then merkle_levels H (merkle_pairs H level) else level)"
  by pat_completeness auto
termination
  by (relation "measure (\<lambda>(H, level). length level)") auto

declare merkle_levels.simps [simp del]

lemma merkle_levels_single [simp]: "merkle_levels H [a] = [a]"
  by (simp add: merkle_levels.simps)

lemma merkle_levels_step: "1 < length level \<Longrightarrow> merkle_levels H level = merkle_levels H (merkle_pairs H level)"
  by (simp add: merkle_levels.simps [of H level])

definition merkle_root :: "(bytes \<Rightarrow> hash) \<Rightarrow> hash list \<Rightarrow> hash" where
  "merkle_root H hashes =
     (if hashes = [] then hash_zero
      else if length hashes = 1 then hash_concat H [[0], hd hashes]
      else let level = merkle_levels H (map (\<lambda>h. hash_concat H [[0], h]) hashes)
           in case level of [] \<Rightarrow> hash_zero | r # _ \<Rightarrow> r)"

section \<open>The target comparison\<close>

lemma from_be_bytes_Cons: "from_be_bytes (b # bs) = unat b * 256 ^ length bs + from_be_bytes bs"
proof -
  have "from_le_bytes (xs @ [b]) = from_le_bytes xs + 256 ^ length xs * unat b" for xs
    by (induction xs) (auto simp: algebra_simps)
  then show ?thesis by (simp add: from_be_bytes_def)
qed

lemma meets_bytes_iff:
  "length xs = length ys \<Longrightarrow> meets_bytes xs ys \<longleftrightarrow> from_be_bytes xs \<le> from_be_bytes ys"
proof (induction xs ys rule: meets_bytes.induct)
  case (1 a as b bs)
  let ?p = "256 ^ length as :: nat"
  have len: "length bs = length as" using "1.prems" by simp
  have bounds: "from_be_bytes as < ?p" "from_be_bytes bs < ?p"
    using from_be_bytes_less [of as] from_be_bytes_less [of bs] len by simp_all
  have step: "unat c * ?p + ?p \<le> unat d * ?p" if "c < d" for c d :: u8
  proof -
    have "Suc (unat c) * ?p \<le> unat d * ?p" using that by (intro mult_le_mono1) (simp add: word_less_nat_alt)
    then show ?thesis by simp
  qed
  consider "a < b" | "b < a" | "a = b" by (rule linorder_cases)
  then show ?case
  proof cases
    case 1
    then show ?thesis using step [OF 1] bounds len by (simp add: from_be_bytes_Cons)
  next
    case 2
    then show ?thesis using step [OF 2] bounds len by (simp add: from_be_bytes_Cons)
  next
    case 3
    then show ?thesis using "1.IH" len by (simp add: from_be_bytes_Cons)
  qed
qed (auto simp: from_be_bytes_def)

lemma meets_difficulty_iff:
  "length h = 32 \<Longrightarrow> length t = 32 \<Longrightarrow> meets_difficulty h t \<longleftrightarrow> from_be_bytes h \<le> from_be_bytes t"
  by (simp add: meets_difficulty_def meets_bytes_iff)

section \<open>Leading-zero targets\<close>

lemma ilog2_bounds: "0 < n \<Longrightarrow> 2 ^ ilog2 n \<le> n \<and> n < 2 ^ Suc (ilog2 n)"
proof (induction n rule: ilog2.induct)
  case (1 n)
  show ?case
  proof (cases "n < 2")
    case True
    then show ?thesis using "1.prems" by (simp add: ilog2.simps [of n])
  next
    case False
    then have "2 ^ ilog2 (n div 2) \<le> n div 2" "n div 2 < 2 ^ Suc (ilog2 (n div 2))" using "1.IH" by auto
    then show ?thesis using False by (simp add: ilog2.simps [of n]; linarith)
  qed
qed

lemma ilog2_less: "0 < n \<Longrightarrow> n < 2 ^ k \<Longrightarrow> ilog2 n < k"
  using ilog2_bounds [of n] by (meson le_less_trans nat_power_less_imp_less not_less zero_less_numeral)

lemma zero_bits_replicate: "b \<noteq> 0 \<Longrightarrow> zero_bits (replicate n 0 @ b # bs) = 8 * n + leading_zeros8 b"
  by (induction n) auto

lemma leading_zeros8_shifted:
  "p < 8 \<Longrightarrow> drop_bit p (0xFF :: u8) \<noteq> 0 \<and> leading_zeros8 (drop_bit p 0xFF) = p"
proof -
  assume "p < 8"
  then have "p \<in> {0, 1, 2, 3, 4, 5, 6, 7}" by auto
  then show ?thesis
    by (elim insertE emptyE) (simp_all add: leading_zeros8_def ilog2.simps drop_bit_eq_div)
qed

lemma from_difficulty_eq:
  assumes "0 < d" "d < 2 ^ 64"
  shows "from_difficulty d = replicate (ilog2 d div 8) 0 @ drop_bit (ilog2 d mod 8) 0xFF
      # replicate (31 - ilog2 d div 8) 0xFF"
proof -
  have "ilog2 d < 64" using assms by (rule ilog2_less)
  then have "ilog2 d div 8 < 8" by linarith
  then show ?thesis using assms(1)
    by (intro nth_equalityI)
      (auto simp: from_difficulty_def Let_def nth_append nth_Cons nth_list_update split: nat.splits)
qed

section \<open>What a Merkle root commits to\<close>

text \<open>
  The strings that building a tree hashes. Collision resistance can only be asked for on
  these: a function to 32 bytes is not injective.
\<close>

fun pair_inputs :: "hash list \<Rightarrow> bytes set" where
  "pair_inputs (a # b # rest) = insert (1 # a @ b) (pair_inputs rest)"
| "pair_inputs [a] = {1 # a @ a}"
| "pair_inputs [] = {}"

function level_inputs :: "(bytes \<Rightarrow> hash) \<Rightarrow> hash list \<Rightarrow> bytes set" where
  "level_inputs H level =
     (if 1 < length level then pair_inputs level \<union> level_inputs H (merkle_pairs H level) else {})"
  by pat_completeness auto
termination
  by (relation "measure (\<lambda>(H, level). length level)") auto

declare level_inputs.simps [simp del]

definition leaf :: "(bytes \<Rightarrow> hash) \<Rightarrow> hash \<Rightarrow> hash" where
  "leaf H h = H (0 # h)"

definition merkle_inputs :: "(bytes \<Rightarrow> hash) \<Rightarrow> hash list \<Rightarrow> bytes set" where
  "merkle_inputs H hashes = (\<lambda>h. 0 # h) ` set hashes \<union> level_inputs H (map (leaf H) hashes)"

text \<open>A node of depth \<open>k\<close>: a tagged leaf, or a tagged pair of nodes of depth \<open>k - 1\<close>.\<close>

fun node :: "(bytes \<Rightarrow> hash) \<Rightarrow> bytes set \<Rightarrow> nat \<Rightarrow> hash \<Rightarrow> bool" where
  "node H S 0 h \<longleftrightarrow> (\<exists>l. 0 # l \<in> S \<and> h = H (0 # l))"
| "node H S (Suc k) h \<longleftrightarrow>
     (\<exists>a b. 1 # a @ b \<in> S \<and> h = H (1 # a @ b) \<and> node H S k a \<and> node H S k b)"

lemma pair_hash_inject:
  fixes H :: "bytes \<Rightarrow> hash"
  assumes "inj_on H S" "1 # a @ b \<in> S" "1 # c @ d \<in> S" "length a = 32" "length c = 32"
  shows "H (1 # a @ b) = H (1 # c @ d) \<longleftrightarrow> a = c \<and> b = d"
  using inj_on_eq_iff [OF assms(1-3)] assms(4,5) by simp

lemma leaf_hash_neq_pair:
  fixes H :: "bytes \<Rightarrow> hash"
  assumes "inj_on H S" "0 # l \<in> S" "1 # x \<in> S"
  shows "H (0 # l) \<noteq> H (1 # x)"
  using inj_on_eq_iff [OF assms] by simp

lemma node_length: "(\<forall>x. length (H x) = 32) \<Longrightarrow> node H S k a \<Longrightarrow> length a = 32"
  by (cases k) auto

lemma node_depth_unique:
  assumes inj: "inj_on H S" and len: "\<forall>x. length (H x) = 32"
  shows "node H S i h \<Longrightarrow> node H S j h \<Longrightarrow> i = j"
proof (induction i arbitrary: h j)
  case 0
  then show ?case using leaf_hash_neq_pair [OF inj] by (cases j) auto
next
  case (Suc i)
  obtain a b where ab: "1 # a @ b \<in> S" "h = H (1 # a @ b)" "node H S i a"
    using Suc.prems(1) by auto
  show ?case
  proof (cases j)
    case 0
    then obtain l where "0 # l \<in> S" "h = H (0 # l)" using Suc.prems(2) by auto
    then show ?thesis using leaf_hash_neq_pair [OF inj _ ab(1)] ab(2) by metis
  next
    case (Suc j')
    then obtain c d where cd: "1 # c @ d \<in> S" "h = H (1 # c @ d)" "node H S j' c"
      using Suc.prems(2) by auto
    have "length a = 32" "length c = 32" using node_length len ab(3) cd(3) by blast+
    then have "a = c" using pair_hash_inject [OF inj ab(1) cd(1)] ab(2) cd(2) by simp
    then show ?thesis using Suc.IH ab(3) cd(3) Suc by simp
  qed
qed

lemma merkle_pairs_node:
  "list_all (node H S k) xs \<Longrightarrow> pair_inputs xs \<subseteq> S \<Longrightarrow> list_all (node H S (Suc k)) (merkle_pairs H xs)"
proof (induction xs rule: pair_inputs.induct)
  case (1 a b rest)
  then show ?case by (simp add: hash_concat_def) blast
qed (auto simp: hash_concat_def)

lemma merkle_pairs_mem:
  assumes "inj_on H S" "length a = 32" "1 # a @ b \<in> S"
  shows "list_all (\<lambda>h. length h = 32) xs \<Longrightarrow> pair_inputs xs \<subseteq> S \<Longrightarrow>
    H (1 # a @ b) \<in> set (merkle_pairs H xs) \<Longrightarrow> a \<in> set xs"
proof (induction xs rule: pair_inputs.induct)
  case (1 c d rest)
  then show ?case using pair_hash_inject [OF assms(1,3), of c d] assms(2)
    by (auto simp: hash_concat_def)
next
  case (2 c)
  then show ?case using pair_hash_inject [OF assms(1,3), of c c] assms(2)
    by (simp add: hash_concat_def)
qed simp

lemma merkle_pairs_distinct:
  assumes "inj_on H S"
  shows "list_all (\<lambda>h. length h = 32) xs \<Longrightarrow> pair_inputs xs \<subseteq> S \<Longrightarrow> distinct xs \<Longrightarrow> distinct (merkle_pairs H xs)"
proof (induction xs rule: pair_inputs.induct)
  case (1 a b rest)
  then show ?case using merkle_pairs_mem [OF assms, of a b rest] by (auto simp: hash_concat_def)
qed auto

lemma merkle_pairs_inject:
  assumes "inj_on H S"
  shows "list_all (\<lambda>h. length h = 32) xs \<Longrightarrow> list_all (\<lambda>h. length h = 32) ys \<Longrightarrow>
    pair_inputs xs \<subseteq> S \<Longrightarrow> pair_inputs ys \<subseteq> S \<Longrightarrow>
    distinct xs \<Longrightarrow> distinct ys \<Longrightarrow> merkle_pairs H xs = merkle_pairs H ys \<Longrightarrow> xs = ys"
proof (induction xs arbitrary: ys rule: pair_inputs.induct)
  case (1 a b rest)
  show ?case
  proof (cases ys rule: pair_inputs.cases)
    case (1 c d rest')
    then show ?thesis using "1.prems" "1.IH" [of rest'] pair_hash_inject [OF assms, of a b c d]
      by (simp add: hash_concat_def)
  next
    case (2 c)
    then show ?thesis using "1.prems" pair_hash_inject [OF assms, of a b c c] by (simp add: hash_concat_def)
  qed (use "1.prems" in simp)
next
  case (2 a)
  show ?case
  proof (cases ys rule: pair_inputs.cases)
    case (1 c d rest')
    then show ?thesis using "2.prems" pair_hash_inject [OF assms, of a a c d] by (auto simp: hash_concat_def)
  next
    case (2 c)
    then show ?thesis using "2.prems" pair_hash_inject [OF assms, of a a c c] by (simp add: hash_concat_def)
  qed (use "2.prems" in simp)
next
  case 3
  then show ?case by (metis merkle_pairs.simps(3) merkle_pairs_Nil_iff)
qed

lemma merkle_levels_node:
  assumes "list_all (node H S k) xs" "level_inputs H xs \<subseteq> S" "xs \<noteq> []"
  shows "\<exists>r j. merkle_levels H xs = [r] \<and> k \<le> j \<and> (1 < length xs \<longrightarrow> k < j) \<and> node H S j r"
  using assms
proof (induction H xs arbitrary: k rule: merkle_levels.induct)
  case (1 H xs)
  show ?case
  proof (cases "1 < length xs")
    case True
    have ins: "pair_inputs xs \<subseteq> S" "level_inputs H (merkle_pairs H xs) \<subseteq> S"
      using "1.prems"(2) True by (simp_all add: level_inputs.simps [of H xs])
    have "merkle_pairs H xs \<noteq> []" using "1.prems"(3) by simp
    then obtain r j where "merkle_levels H (merkle_pairs H xs) = [r]" "Suc k \<le> j" "node H S j r"
      using "1.IH" [OF True merkle_pairs_node [OF "1.prems"(1) ins(1)] ins(2)] by blast
    then show ?thesis using True
      by (intro exI [of _ r] exI [of _ j]) (simp add: merkle_levels.simps [of H xs])
  next
    case False
    then obtain r where "xs = [r]" using "1.prems"(3) by (cases xs) auto
    then show ?thesis using "1.prems"(1) by (auto simp: merkle_levels.simps)
  qed
qed

lemma merkle_levels_inject:
  assumes inj: "inj_on H S" and len: "\<forall>x. length (H x) = 32"
  shows "list_all (node H S k) xs \<Longrightarrow> list_all (node H S k) ys \<Longrightarrow> level_inputs H xs \<subseteq> S \<Longrightarrow>
    level_inputs H ys \<subseteq> S \<Longrightarrow> xs \<noteq> [] \<Longrightarrow> ys \<noteq> [] \<Longrightarrow> distinct xs \<Longrightarrow> distinct ys \<Longrightarrow>
    merkle_levels H xs = merkle_levels H ys \<Longrightarrow> xs = ys"
proof (induction "length xs" arbitrary: xs ys k rule: less_induct)
  case less
  obtain r i where r: "merkle_levels H xs = [r]" "k \<le> i" "1 < length xs \<longrightarrow> k < i" "node H S i r"
    using merkle_levels_node [OF less.prems(1,3,5)] by blast
  obtain r' j where r': "merkle_levels H ys = [r']" "k \<le> j" "1 < length ys \<longrightarrow> k < j" "node H S j r'"
    using merkle_levels_node [OF less.prems(2,4,6)] by blast
  have ij: "i = j" using node_depth_unique [OF inj len r(4)] r'(4) r(1) r'(1) less.prems(9) by simp
  have bytes: "list_all (\<lambda>h. length h = 32) xs" "list_all (\<lambda>h. length h = 32) ys"
    using less.prems(1,2) node_length [OF len] by (auto simp: list_all_iff)
  have single: "node H S k r" if "length xs \<le> 1"
    using that less.prems(1,5) r(1) by (cases xs) auto
  have single': "node H S k r'" if "length ys \<le> 1"
    using that less.prems(2,6) r'(1) by (cases ys) auto
  show ?case
  proof (cases "1 < length xs \<and> 1 < length ys")
    case True
    have ins: "pair_inputs xs \<subseteq> S" "level_inputs H (merkle_pairs H xs) \<subseteq> S"
      "pair_inputs ys \<subseteq> S" "level_inputs H (merkle_pairs H ys) \<subseteq> S"
      using less.prems(3,4) True by (simp_all add: level_inputs.simps [of H xs] level_inputs.simps [of H ys])
    have "merkle_pairs H xs = merkle_pairs H ys"
      using less.prems True ins bytes
      by (intro less.hyps [of "merkle_pairs H xs" "Suc k"] merkle_pairs_node
          merkle_pairs_distinct [OF inj])
        (auto simp: merkle_levels_step [of xs] merkle_levels_step [of ys])
    then show ?thesis by (intro merkle_pairs_inject [OF inj bytes ins(1,3) less.prems(7,8)])
  next
    case False
    then have "length xs \<le> 1 \<and> length ys \<le> 1"
      using single single' r r' ij node_depth_unique [OF inj len] by (metis leI less_irrefl)
    then show ?thesis using less.prems(5,6,9) by (cases xs; cases ys) auto
  qed
qed

lemma merkle_root_eq: "hashes \<noteq> [] \<Longrightarrow> merkle_root H hashes = hd (merkle_levels H (map (leaf H) hashes))"
proof -
  assume ne: "hashes \<noteq> []"
  have leaf: "(\<lambda>h. hash_concat H [[0], h]) = leaf H" by (simp add: leaf_def hash_concat_def fun_eq_iff)
  obtain r where "merkle_levels H (map (leaf H) hashes) = [r]"
    using merkle_levels_node [of H UNIV 0 "map (leaf H) hashes"] ne
    by (auto simp: list_all_iff leaf_def)
  moreover have "hash_concat H [[0], hd hashes] = leaf H (hd hashes)"
    by (simp add: leaf_def hash_concat_def)
  ultimately show ?thesis using ne
    by (cases hashes) (auto simp: merkle_root_def leaf)
qed

lemma merkle_pairs_duplicate:
  "even (length xs) \<Longrightarrow> merkle_pairs H (xs @ [a]) = merkle_pairs H (xs @ [a, a])"
  by (induction xs rule: pair_inputs.induct) (auto simp: hash_concat_def)

lemma merkle_root_inject:
  assumes "inj_on H (merkle_inputs H xs \<union> merkle_inputs H ys)" "\<forall>x. length (H x) = 32"
    and "xs \<noteq> []" "ys \<noteq> []" "distinct xs" "distinct ys" and eq: "merkle_root H xs = merkle_root H ys"
  shows "xs = ys"
proof -
  let ?S = "merkle_inputs H xs \<union> merkle_inputs H ys"
  have nodes: "list_all (node H ?S 0) (map (leaf H) xs)" "list_all (node H ?S 0) (map (leaf H) ys)"
    by (auto simp: list_all_iff leaf_def merkle_inputs_def)
  have ins: "level_inputs H (map (leaf H) xs) \<subseteq> ?S" "level_inputs H (map (leaf H) ys) \<subseteq> ?S"
    by (auto simp: merkle_inputs_def)
  have inj: "inj_on (leaf H) (set xs \<union> set ys)"
  proof (rule inj_onI)
    fix x y
    assume "x \<in> set xs \<union> set ys" "y \<in> set xs \<union> set ys" "leaf H x = leaf H y"
    moreover from this(1,2) have "0 # x \<in> ?S" "0 # y \<in> ?S" by (auto simp: merkle_inputs_def)
    ultimately show "x = y" using inj_onD [OF assms(1), of "0 # x" "0 # y"] by (simp add: leaf_def)
  qed
  obtain r where r: "merkle_levels H (map (leaf H) xs) = [r]"
    using merkle_levels_node [OF nodes(1) ins(1)] assms(3) by blast
  obtain r' where r': "merkle_levels H (map (leaf H) ys) = [r']"
    using merkle_levels_node [OF nodes(2) ins(2)] assms(4) by blast
  have "merkle_levels H (map (leaf H) xs) = merkle_levels H (map (leaf H) ys)"
    using eq r r' merkle_root_eq [OF assms(3), of H] merkle_root_eq [OF assms(4), of H] by simp
  moreover have "distinct (map (leaf H) xs)" "distinct (map (leaf H) ys)"
    using assms(5,6) inj by (simp_all add: distinct_map inj_on_subset)
  ultimately have "map (leaf H) xs = map (leaf H) ys"
    using merkle_levels_inject [OF assms(1,2) nodes ins] assms(3,4) by simp
  then show "xs = ys" using inj by (simp add: inj_on_map_eq_map)
qed

section \<open>Properties\<close>

text \<open>
  C21 (the transaction root is binding). If BLAKE3 has no collision among the strings hashed
  for two trees, then two non-empty lists without repetition have the same root only if they
  are the same list, whatever their lengths: the leaf and node tags rule out second preimages
  across depths.
\<close>

theorem merkle_root_binding:
  assumes "inj_on H (merkle_inputs H xs \<union> merkle_inputs H ys)" "\<forall>x. length (H x) = 32"
    and "xs \<noteq> []" "ys \<noteq> []" "distinct xs" "distinct ys"
  shows "merkle_root H xs = merkle_root H ys \<longleftrightarrow> xs = ys"
  using merkle_root_inject [OF assms] by blast

definition sample_hash :: "bytes \<Rightarrow> hash" where
  "sample_hash x = take 32 (rev x @ replicate 32 0)"

theorem merkle_root_binding_witness:
  "merkle_root sample_hash [replicate 32 1] \<noteq>
   merkle_root sample_hash [replicate 32 2, 4 # replicate 31 3]"
proof -
  let ?a = "replicate 32 1 :: hash" and ?b = "replicate 32 2 :: hash" and ?c = "4 # replicate 31 3 :: hash"
  have H: "sample_hash (0 # ?a) = ?a" "sample_hash (0 # ?b) = ?b"
    "sample_hash (0 # ?c) = replicate 31 3 @ [4]" "sample_hash (1 # ?b @ replicate 31 3 @ [4]) = ?c"
    by (simp_all add: sample_hash_def)
  have ins: "merkle_inputs sample_hash [?a] \<union> merkle_inputs sample_hash [?b, ?c]
      = {0 # ?a, 0 # ?b, 0 # ?c, 1 # ?b @ replicate 31 3 @ [4]}"
    using H by (auto simp: merkle_inputs_def leaf_def level_inputs.simps hash_concat_def)
  have "?c \<noteq> replicate 31 3 @ [4]" by (simp add: numeral_eq_Suc)
  moreover have "?a \<noteq> ?b" "?a \<noteq> ?c" "?b \<noteq> ?c" "?a \<noteq> replicate 31 3 @ [4]" "?b \<noteq> replicate 31 3 @ [4]"
    by (simp_all add: numeral_eq_Suc)
  ultimately have inj: "inj_on sample_hash (merkle_inputs sample_hash [?a] \<union> merkle_inputs sample_hash [?b, ?c])"
    unfolding ins using H by (simp add: inj_on_def)
  have "\<forall>x. length (sample_hash x) = 32" by (simp add: sample_hash_def min_def)
  then show ?thesis
    using merkle_root_binding [OF inj] \<open>?b \<noteq> ?c\<close> by simp
qed

text \<open>
  C38 (the duplication malleability of the root). Repeating the last transaction of a list of
  odd length at least three leaves the root unchanged, for every hash function: the root alone
  does not fix the transaction list.
\<close>

theorem merkle_root_duplicate_last:
  assumes "even (length xs)" "xs \<noteq> []"
  shows "merkle_root H (xs @ [a]) = merkle_root H (xs @ [a, a])"
  using merkle_pairs_duplicate [of "map (leaf H) xs" H "leaf H a"] assms
  by (simp add: merkle_root_eq merkle_levels_step [of "map (leaf H) xs @ [leaf H a]"]
      merkle_levels_step [of "map (leaf H) xs @ [leaf H a, leaf H a]"])

theorem merkle_root_duplicate_last_witness:
  "merkle_root id [[1], [2], [3]] = merkle_root id [[1], [2], [3], [3]]"
  using merkle_root_duplicate_last [of "[[1], [2]]" id "[3]"] by simp

text \<open>
  Proof of work is a numeric comparison. The byte-wise loop accepts exactly the hashes
  whose big-endian number is at most the target's; and the leading-zero target built for a
  difficulty reads back as the greatest power of two not above it.
\<close>

theorem target_comparison:
  assumes "length h = 32" "length t = 32" "0 < d" "d \<le> u64_max"
  shows "(meets_difficulty h t \<longleftrightarrow> from_be_bytes h \<le> from_be_bytes t) \<and>
    to_difficulty (from_difficulty d) \<le> d \<and> d < 2 * to_difficulty (from_difficulty d) \<and>
    to_difficulty (from_difficulty d) = 2 ^ ilog2 d"
proof -
  have lt: "d < 2 ^ 64" using assms(4) by (simp add: u64_max_def)
  then have k: "ilog2 d < 64" using assms(3) by (rule ilog2_less [rotated])
  have "zero_bits (from_difficulty d) = 8 * (ilog2 d div 8) + ilog2 d mod 8"
    using assms(3) lt leading_zeros8_shifted [of "ilog2 d mod 8"]
    by (simp add: from_difficulty_eq zero_bits_replicate)
  then have "zero_bits (from_difficulty d) = ilog2 d" by simp
  moreover have "(2 :: nat) ^ ilog2 d < 2 ^ 64" using k by (intro power_strict_increasing) simp_all
  ultimately have "to_difficulty (from_difficulty d) = 2 ^ ilog2 d"
    using k by (simp add: to_difficulty_def as_u64_def)
  then show ?thesis using meets_difficulty_iff [OF assms(1,2)] ilog2_bounds [OF assms(3)] by simp
qed

theorem target_comparison_witness:
  "(meets_difficulty (replicate 32 1) (replicate 32 2) \<longleftrightarrow>
      from_be_bytes (replicate 32 1) \<le> from_be_bytes (replicate 32 2)) \<and>
   to_difficulty (from_difficulty 1000) = 512"
proof -
  have "ilog2 1000 = 9" by (simp add: ilog2.simps)
  then show ?thesis
    using target_comparison [of "replicate 32 1" "replicate 32 2" 1000]
    by (simp add: width_eqs)
qed

end
