(* ===== verification/Difficulty.thy ===== *)
theory Difficulty
  imports Hashes
begin

text \<open>
  The dual-window ASERT difficulty adjustment of
  \<^verbatim>\<open>src/consensus/difficulty.rs\<close>, in its fixed-point integer arithmetic. The
  lemmas show that the decomposition of the exponent is Euclidean division, that the
  exact halflives double and halve the target, that an adjusted target is monotone in
  the time error while no bit is shifted out, and which bounds the clamped result
  respects; the last section shows what happens when bits are shifted out.
\<close>

section \<open>Constants\<close>

definition MIN_DIFFICULTY :: nat where "MIN_DIFFICULTY = 500"
definition RBITS :: nat where "RBITS = 16"
definition RADIX :: nat where "RADIX = 2 ^ 16"
definition COEFF_1 :: nat where "COEFF_1 = 45426"
definition COEFF_2 :: nat where "COEFF_2 = 15743"
definition COEFF_3 :: nat where "COEFF_3 = 3638"
definition COEFF_4 :: nat where "COEFF_4 = 630"
definition MAX_INT_EXPONENT :: int where "MAX_INT_EXPONENT = 64"
definition TARGET_BLOCK_TIME :: nat where "TARGET_BLOCK_TIME = 120"
definition ASERT_HALFLIFE :: nat where "ASERT_HALFLIFE = 3600"
definition DIFFICULTY_SHORT_WINDOW :: nat where "DIFFICULTY_SHORT_WINDOW = 8"
definition DIFFICULTY_LONG_WINDOW :: nat where "DIFFICULTY_LONG_WINDOW = 144"
definition DIFFICULTY_SHORT_WEIGHT :: nat where "DIFFICULTY_SHORT_WEIGHT = 70"
definition DIFFICULTY_LONG_WEIGHT :: nat where "DIFFICULTY_LONG_WEIGHT = 30"
definition DIFFICULTY_WEIGHT_SCALE :: nat where "DIFFICULTY_WEIGHT_SCALE = 100"
definition EMERGENCY_DIFFICULTY_BLOCKS :: nat where "EMERGENCY_DIFFICULTY_BLOCKS = 12"
definition EMERGENCY_TIME_MULTIPLIER :: nat where "EMERGENCY_TIME_MULTIPLIER = 10"
definition EMERGENCY_DROP_FACTOR :: nat where "EMERGENCY_DROP_FACTOR = 4"
definition MAX_DIFFICULTY_ADJ_NUM :: nat where "MAX_DIFFICULTY_ADJ_NUM = 2"
definition MAX_DIFFICULTY_ADJ_DEN :: nat where "MAX_DIFFICULTY_ADJ_DEN = 1"
definition MIN_DIFFICULTY_ADJ_NUM :: nat where "MIN_DIFFICULTY_ADJ_NUM = 1"
definition MIN_DIFFICULTY_ADJ_DEN :: nat where "MIN_DIFFICULTY_ADJ_DEN = 2"

definition i32_max :: int where "i32_max = 2 ^ 31 - 1"
definition i32_min :: int where "i32_min = - (2 ^ 31)"

lemmas asert_consts = MIN_DIFFICULTY_def RBITS_def RADIX_def COEFF_1_def COEFF_2_def COEFF_3_def
  COEFF_4_def MAX_INT_EXPONENT_def TARGET_BLOCK_TIME_def ASERT_HALFLIFE_def
lemmas adjust_consts = DIFFICULTY_SHORT_WINDOW_def DIFFICULTY_LONG_WINDOW_def
  DIFFICULTY_SHORT_WEIGHT_def DIFFICULTY_LONG_WEIGHT_def DIFFICULTY_WEIGHT_SCALE_def
  MAX_DIFFICULTY_ADJ_NUM_def MAX_DIFFICULTY_ADJ_DEN_def MIN_DIFFICULTY_ADJ_NUM_def
  MIN_DIFFICULTY_ADJ_DEN_def EMERGENCY_DIFFICULTY_BLOCKS_def EMERGENCY_TIME_MULTIPLIER_def
  EMERGENCY_DROP_FACTOR_def

section \<open>Targets\<close>

record difficulty_block =
  db_height :: nat
  db_timestamp :: nat
  db_target :: hash

definition target_to_u128 :: "hash \<Rightarrow> nat" where
  "target_to_u128 target = max (from_be_bytes (take 16 target)) 1"

definition u128_to_target :: "nat \<Rightarrow> hash" where
  "u128_to_target value = be_bytes 16 (clamp_nat value 1 u128_max) @ replicate 16 0"

definition u128_max_target :: nat where "u128_max_target = u128_max"

definition max_target :: hash where "max_target = replicate 32 0xFF"

definition min_target :: hash where "min_target = (replicate 32 0) [2 := 1]"

definition target_to_difficulty :: "hash \<Rightarrow> nat" where
  "target_to_difficulty target = u128_max_target div target_to_u128 target"

definition calculate_difficulty_from_target :: "hash \<Rightarrow> nat" where
  "calculate_difficulty_from_target target = u128_max_target div target_to_u128 target"

section \<open>Fixed-point exponentials\<close>

definition safe_mul_u128 :: "nat \<Rightarrow> nat \<Rightarrow> nat" where
  "safe_mul_u128 a b = (case checked_mul128 a b of Some p \<Rightarrow> p | None \<Rightarrow> u128_max)"

definition safe_mul_shift :: "nat \<Rightarrow> nat \<Rightarrow> nat" where
  "safe_mul_shift target frac_pow2 =
     (let extra = sat_sub frac_pow2 RADIX
      in if extra = 0 then target
         else let adjustment =
                (if target \<le> u128_max div extra then shr (as_u128 (target * extra)) RBITS
                 else as_u128 (shr target RBITS * extra))
              in sat_add128 target adjustment)"

definition pow2_frac :: "nat \<Rightarrow> nat" where
  "pow2_frac x =
     (let t = COEFF_3 + shr (COEFF_4 * x) RBITS;
          t = COEFF_2 + shr (t * x) RBITS;
          t = COEFF_1 + shr (t * x) RBITS
      in RADIX + shr (t * x) RBITS)"

definition decompose_fixed_point :: "int \<Rightarrow> int \<times> nat" where
  "decompose_fixed_point exponent_fp =
     (if 0 \<le> exponent_fp then
        (clamp_int (exponent_fp div 2 ^ RBITS) i32_min i32_max, nat (exponent_fp mod int RADIX))
      else
        let safe_exp = max exponent_fp (i128_min + 1);
            abs_exp = nat (- safe_exp);
            abs_int = shr abs_exp RBITS;
            abs_frac = abs_exp mod RADIX;
            clamped_abs = min abs_int (nat i32_max)
        in if abs_frac = 0 then (- int clamped_abs, 0)
           else let clamped_sub = min abs_int (nat (i32_max - 1))
                in (- int clamped_sub - 1, RADIX - abs_frac))"

text \<open>
  The products of \<open>pow2_frac\<close> stay below \<open>2 ^ 33\<close>, and the differences of two \<open>u64\<close>
  values fit an \<open>i128\<close>, so their plain operations are exact; the one product the source
  checks, \<open>time_error * RADIX\<close>, keeps its check.
\<close>

definition checked_mul_i128 :: "int \<Rightarrow> int \<Rightarrow> int option" where
  "checked_mul_i128 a b = (if i128_min \<le> a * b \<and> a * b \<le> i128_max then Some (a * b) else None)"

definition apply_asert :: "nat \<Rightarrow> difficulty_block \<Rightarrow> difficulty_block \<Rightarrow> nat \<Rightarrow> nat \<Rightarrow> nat" where
  "apply_asert current_target anchor tip target_time halflife =
     (let height_diff = sat_sub (db_height tip) (db_height anchor)
      in if height_diff = 0 then current_target
         else
           let time_diff = int (db_timestamp tip) - int (db_timestamp anchor);
               expected_time = int height_diff * int target_time;
               time_error = time_diff - expected_time;
               denominator = int halflife
           in if denominator = 0 then current_target
              else
                let exponent_fp = trunc_div
                      (case checked_mul_i128 time_error (int RADIX) of
                         Some p \<Rightarrow> p
                       | None \<Rightarrow> if 0 \<le> time_error then i128_max else i128_min) denominator;
                    (int_part, frac_part) = decompose_fixed_point exponent_fp;
                    clamped_int = clamp_int int_part (- MAX_INT_EXPONENT) MAX_INT_EXPONENT;
                    frac_pow2 = pow2_frac frac_part;
                    adjusted = safe_mul_shift current_target frac_pow2
                in max (if 0 \<le> clamped_int
                        then (case checked_shl128 adjusted (nat clamped_int) of
                                Some v \<Rightarrow> v | None \<Rightarrow> u128_max)
                        else let neg = nat (- clamped_int)
                             in if 128 \<le> neg then 1 else shr adjusted neg) 1)"

section \<open>The adjustment\<close>

definition get_anchor :: "difficulty_block list \<Rightarrow> nat \<Rightarrow> difficulty_block" where
  "get_anchor blocks depth =
     (let idx = sat_sub (length blocks) (min depth (length blocks));
          idx = (if idx + 1 < length blocks \<and> db_height (blocks ! idx) = 0 then idx + 1 else idx)
      in blocks ! idx)"

definition needs_emergency_drop :: "difficulty_block list \<Rightarrow> nat \<Rightarrow> bool" where
  "needs_emergency_drop blocks current_height =
     (let min_history_height = EMERGENCY_DIFFICULTY_BLOCKS * 2
      in if current_height < min_history_height then False
         else if length blocks < EMERGENCY_DIFFICULTY_BLOCKS then False
         else let tip = last blocks;
                  check_block = blocks ! sat_sub (length blocks) EMERGENCY_DIFFICULTY_BLOCKS;
                  time_diff = sat_sub (db_timestamp tip) (db_timestamp check_block);
                  expected = EMERGENCY_DIFFICULTY_BLOCKS * TARGET_BLOCK_TIME
              in expected * EMERGENCY_TIME_MULTIPLIER < time_diff)"

definition calculate_difficulty :: "difficulty_block list \<Rightarrow> nat \<Rightarrow> hash" where
  "calculate_difficulty blocks current_height =
     (if length blocks < 2 then max_target
      else
        let tip = last blocks;
            tip_target = target_to_u128 (db_target tip);
            short_anchor = get_anchor blocks DIFFICULTY_SHORT_WINDOW;
            short_target = apply_asert (target_to_u128 (db_target short_anchor)) short_anchor tip
                             TARGET_BLOCK_TIME ASERT_HALFLIFE;
            long_anchor = get_anchor blocks DIFFICULTY_LONG_WINDOW;
            long_target = apply_asert (target_to_u128 (db_target long_anchor)) long_anchor tip
                            TARGET_BLOCK_TIME ASERT_HALFLIFE;
            short_weighted = safe_mul_u128 short_target DIFFICULTY_SHORT_WEIGHT;
            long_weighted = safe_mul_u128 long_target DIFFICULTY_LONG_WEIGHT;
            combined = sat_add128 short_weighted long_weighted div DIFFICULTY_WEIGHT_SCALE;
            max_val = safe_mul_u128 tip_target MAX_DIFFICULTY_ADJ_NUM div MAX_DIFFICULTY_ADJ_DEN;
            min_val = safe_mul_u128 tip_target MIN_DIFFICULTY_ADJ_NUM div MIN_DIFFICULTY_ADJ_DEN;
            max_t = u128_max_target div MIN_DIFFICULTY;
            min_bound = max min_val 1;
            max_bound = max (min max_val max_t) min_bound;
            clamped = clamp_nat combined min_bound max_bound;
            final_target =
              (if needs_emergency_drop blocks current_height then
                 let emergency_max = safe_mul_u128 tip_target
                       (MAX_DIFFICULTY_ADJ_NUM * EMERGENCY_DROP_FACTOR) div MAX_DIFFICULTY_ADJ_DEN;
                     emergency_target = safe_mul_u128 clamped EMERGENCY_DROP_FACTOR;
                     emer_min = max min_val 1;
                     emer_max = max (min emergency_max max_t) emer_min
                 in clamp_nat emergency_target emer_min emer_max
               else clamped)
        in u128_to_target final_target)"

section \<open>Targets read back\<close>

lemma target_roundtrip: "1 \<le> v \<Longrightarrow> v \<le> u128_max \<Longrightarrow> target_to_u128 (u128_to_target v) = v"
proof -
  assume v: "1 \<le> v" "v \<le> u128_max"
  then have "clamp_nat v 1 u128_max = v" by (simp add: clamp_nat_def)
  moreover have "v mod 256 ^ 16 = v" using v by (simp add: width_eqs)
  ultimately show ?thesis
    using v(1) by (simp add: target_to_u128_def u128_to_target_def from_be_be_bytes)
qed

lemma target_to_u128_bounds: "1 \<le> target_to_u128 t" "target_to_u128 t \<le> u128_max"
proof -
  show "1 \<le> target_to_u128 t" by (simp add: target_to_u128_def)
  have "from_be_bytes (take 16 t) < 256 ^ length (take 16 t)" by (rule from_be_bytes_less)
  also have "\<dots> \<le> 256 ^ 16" by (intro power_increasing) simp_all
  finally show "target_to_u128 t \<le> u128_max" by (simp add: target_to_u128_def width_eqs)
qed

lemma u128_to_target_length: "length (u128_to_target v) = 32"
  by (simp add: u128_to_target_def)

lemma safe_mul_u128_eq: "safe_mul_u128 a b = min (a * b) u128_max"
  by (simp add: safe_mul_u128_def checked_mul128_def)

section \<open>The exponent\<close>

lemma neg_div_mod:
  assumes "0 < (k :: nat)"
  shows "(- int n) div int k = (if n mod k = 0 then - int (n div k) else - int (n div k) - 1)"
    and "(- int n) mod int k = (if n mod k = 0 then 0 else int k - int (n mod k))"
proof -
  have n: "int n = int k * int (n div k) + int (n mod k)"
    by (metis mult_div_mod_eq of_nat_add of_nat_mult)
  have r: "int (n mod k) < int k" using assms by simp
  show "(- int n) div int k = (if n mod k = 0 then - int (n div k) else - int (n div k) - 1)"
    using n r assms by (intro int_div_pos_eq [of _ _ _ "if n mod k = 0 then 0 else int k - int (n mod k)"])
      (auto simp: algebra_simps)
  show "(- int n) mod int k = (if n mod k = 0 then 0 else int k - int (n mod k))"
    using n r assms by (intro int_mod_pos_eq [of _ _ "if n mod k = 0 then - int (n div k) else - int (n div k) - 1"])
      (auto simp: algebra_simps)
qed

text \<open>Both branches compute the floor and the remainder, while the floor fits an \<open>i32\<close>.\<close>

lemma decompose_fixed_point_eq:
  assumes "\<bar>e\<bar> < 2 ^ 46"
  shows "decompose_fixed_point e = (e div 65536, nat (e mod 65536))"
proof (cases "0 \<le> e")
  case True
  have "e div 65536 \<le> 2 ^ 46 div 65536" using assms by (intro zdiv_mono1) simp_all
  then have "clamp_int (e div 65536) i32_min i32_max = e div 65536"
    using True pos_imp_zdiv_nonneg_iff [of 65536 e] by (simp add: clamp_int_def i32_min_def i32_max_def)
  then show ?thesis using True by (simp add: decompose_fixed_point_def asert_consts)
next
  case False
  define n where "n = nat (- e)"
  have e: "e = - int n" "0 < n" and n: "n < 2 ^ 46" using False assms by (auto simp: n_def)
  have q: "n div 65536 < 2 ^ 30" using n by simp
  have "max e (i128_min + 1) = e" using assms by (simp add: i128_min_def)
  then have "decompose_fixed_point e =
      (if n mod 65536 = 0 then (- int (n div 65536), 0)
       else (- int (n div 65536) - 1, 65536 - n mod 65536))"
    using False q by (simp add: decompose_fixed_point_def Let_def asert_consts shr_def n_def
        i32_max_def min_def)
  moreover have "(- int n) div 65536 = (if n mod 65536 = 0 then - int (n div 65536) else - int (n div 65536) - 1)"
    "(- int n) mod 65536 = (if n mod 65536 = 0 then 0 else 65536 - int (n mod 65536))"
    using neg_div_mod [of 65536 n] by simp_all
  ultimately show ?thesis by (auto simp: e nat_diff_distrib')
qed

text \<open>The polynomial: monotone, and between one and two.\<close>

lemma pow2_frac_mono: "x \<le> y \<Longrightarrow> pow2_frac x \<le> pow2_frac y"
  unfolding pow2_frac_def Let_def shr_def by (intro add_mono div_le_mono mult_le_mono) simp_all

lemma pow2_frac_0: "pow2_frac 0 = RADIX"
  by (simp add: pow2_frac_def shr_def)

lemma pow2_frac_bounds: "x < 65536 \<Longrightarrow> RADIX \<le> pow2_frac x \<and> pow2_frac x \<le> 2 * RADIX"
  using pow2_frac_mono [of 0 x] pow2_frac_mono [of x 65535] pow2_frac_0
  by (simp add: pow2_frac_def [of 65535] asert_consts shr_def)

text \<open>Multiplication by the fraction, as a function of what exceeds one.\<close>

definition scale_adjustment :: "nat \<Rightarrow> nat \<Rightarrow> nat" where
  "scale_adjustment t extra = (if t \<le> u128_max div extra then t * extra div 65536 else t div 65536 * extra)"

lemma scale_adjustment_le: "extra \<le> 65536 \<Longrightarrow> scale_adjustment t extra \<le> t"
proof -
  assume e: "extra \<le> 65536"
  have "t * extra div 65536 \<le> t * 65536 div 65536" using e by (intro div_le_mono mult_le_mono2)
  moreover have "t div 65536 * extra \<le> t"
    using mult_le_mono2 [OF e, of "t div 65536"] div_times_less_eq_dividend [of t 65536] by linarith
  ultimately show ?thesis by (simp add: scale_adjustment_def)
qed

lemma scale_adjustment_mono:
  assumes "a \<le> b" "b \<le> 65536" "0 < a"
  shows "scale_adjustment t a \<le> scale_adjustment t b"
proof -
  have exact: "t * a div 65536 \<le> t * b div 65536" and lossy: "t div 65536 * a \<le> t div 65536 * b"
    using assms(1) by (simp_all add: div_le_mono)
  have nested: "t \<le> u128_max div a" if "t \<le> u128_max div b"
    using that div_le_mono2 [OF assms(3,1), of u128_max] by linarith
  have cross: "t * a div 65536 \<le> t div 65536 * b" if "\<not> t \<le> u128_max div b" "a < b"
  proof -
    define q where "q = t div 65536"
    have "u128_max div 65536 \<le> u128_max div b" using assms by (intro div_le_mono2) simp_all
    then have q: "a \<le> q" using that(1) assms(1,2) unfolding q_def u128_max_eq by simp
    have "t * a \<le> (q * 65536 + 65535) * a" by (intro mult_le_mono1) (simp add: q_def; linarith)
    then have "t * a div 65536 \<le> (q * 65536 * a + 65535 * a) div 65536"
      by (intro div_le_mono) (simp add: add_mult_distrib)
    also have "\<dots> \<le> q * a + a" by (simp add: mult.commute mult.left_commute)
    also have "\<dots> \<le> q * a + q" using q by simp
    also have "\<dots> = q * Suc a" by simp
    also have "\<dots> \<le> q * b" using that(2) by (intro mult_le_mono2) simp
    finally show ?thesis by (simp add: q_def)
  qed
  show ?thesis
    using exact lossy nested cross assms(1) by (cases "a = b") (auto simp: scale_adjustment_def)
qed

lemma safe_mul_shift_eq:
  assumes "RADIX \<le> p" "p \<le> 2 * RADIX" "2 * t \<le> u128_max"
  shows "safe_mul_shift t p = t + (if p = RADIX then 0 else scale_adjustment t (p - RADIX))"
proof (cases "p = RADIX")
  case False
  let ?x = "p - RADIX"
  have x: "0 < ?x" "?x \<le> 65536" using False assms by (auto simp: RADIX_def)
  have "t * ?x \<le> u128_max" if "t \<le> u128_max div ?x"
    using that x(1) by (simp add: less_eq_div_iff_mult_less_eq)
  moreover have "t div 65536 * ?x \<le> u128_max"
    using mult_le_mono2 [OF x(2), of "t div 65536"] div_times_less_eq_dividend [of t 65536] assms(3)
    by linarith
  ultimately show ?thesis
    using False assms(3) x scale_adjustment_le [OF x(2), of t]
    by (auto simp: safe_mul_shift_def Let_def sat_sub_def shr_def RBITS_def sat_add128_def
        scale_adjustment_def min_absorb1 split: if_splits)
qed (simp add: safe_mul_shift_def sat_sub_def)

lemma safe_mul_shift_bounds:
  assumes "RADIX \<le> p" "p \<le> 2 * RADIX" "2 * t \<le> u128_max"
  shows "t \<le> safe_mul_shift t p \<and> safe_mul_shift t p \<le> 2 * t"
  using assms scale_adjustment_le [of "p - RADIX" t] by (simp add: safe_mul_shift_eq RADIX_def)

lemma safe_mul_shift_mono:
  assumes "RADIX \<le> p" "p \<le> q" "q \<le> 2 * RADIX" "2 * t \<le> u128_max"
  shows "safe_mul_shift t p \<le> safe_mul_shift t q"
  using assms scale_adjustment_mono [of "p - RADIX" "q - RADIX" t]
  by (simp add: safe_mul_shift_eq RADIX_def)

text \<open>
  The whole scaling by a fixed-point exponent, and the exponent of a time error in seconds.
\<close>

definition asert_scale :: "nat \<Rightarrow> int \<Rightarrow> nat" where
  "asert_scale t e =
     (let adjusted = safe_mul_shift t (pow2_frac (nat (e mod 65536))); k = e div 65536
      in max (if 0 \<le> k then as_u128 (adjusted * 2 ^ nat k) else adjusted div 2 ^ nat (- k)) 1)"

definition asert_exponent :: "int \<Rightarrow> int" where
  "asert_exponent te = trunc_div (te * 65536) 3600"

definition asert_error :: "difficulty_block \<Rightarrow> difficulty_block \<Rightarrow> int" where
  "asert_error anchor tip = int (db_timestamp tip) - int (db_timestamp anchor)
     - int (db_height tip - db_height anchor) * 120"

lemma asert_exponent_eq:
  "asert_exponent te = (if 0 \<le> te then te * 65536 div 3600 else - (- te * 65536 div 3600))"
  by (cases te "0 :: int" rule: linorder_cases) (simp_all add: asert_exponent_def trunc_div_def)

lemma asert_exponent_mono: "x \<le> y \<Longrightarrow> asert_exponent x \<le> asert_exponent y"
proof -
  assume xy: "x \<le> y"
  consider "0 \<le> x" | "x < 0" "0 \<le> y" | "y < 0" by linarith
  then show ?thesis
  proof cases
    case 1
    then show ?thesis using xy by (simp add: asert_exponent_eq zdiv_mono1)
  next
    case 2
    then have "0 \<le> - x * 65536 div 3600" "0 \<le> y * 65536 div 3600"
      by (simp_all add: pos_imp_zdiv_nonneg_iff)
    then show ?thesis using 2 by (simp add: asert_exponent_eq)
  next
    case 3
    then have "- y * 65536 div 3600 \<le> - x * 65536 div 3600" using xy by (intro zdiv_mono1) simp_all
    then show ?thesis using xy 3 by (simp add: asert_exponent_eq)
  qed
qed

lemma asert_exponent_halflives: "asert_exponent (k * 3600) = k * 65536"
proof (cases "0 \<le> k")
  case True
  then show ?thesis by (simp add: asert_exponent_eq mult.assoc mult.left_commute [of k])
next
  case False
  have "- (k * 3600) * 65536 div 3600 = - k * 65536" by simp
  then show ?thesis using False by (simp add: asert_exponent_eq)
qed

lemma asert_exponent_bounds:
  assumes "\<bar>te\<bar> \<le> 64 * 3600"
  shows "\<bar>asert_exponent te\<bar> \<le> 64 * 65536"
proof -
  have "asert_exponent (- 64 * 3600) \<le> asert_exponent te" "asert_exponent te \<le> asert_exponent (64 * 3600)"
    using assms by (simp_all add: asert_exponent_mono)
  then show ?thesis using asert_exponent_halflives [of 64] asert_exponent_halflives [of "- 64"] by simp
qed

lemma asert_int_part: "\<bar>e :: int\<bar> \<le> 64 * 65536 \<Longrightarrow> - 64 \<le> e div 65536 \<and> e div 65536 \<le> 64"
  using zdiv_mono1 [of "- 64 * 65536" e 65536] zdiv_mono1 [of e "64 * 65536" 65536] by simp

lemma apply_asert_eq:
  assumes "db_height anchor < db_height tip" "\<bar>asert_error anchor tip\<bar> \<le> 64 * 3600"
  shows "apply_asert t anchor tip TARGET_BLOCK_TIME ASERT_HALFLIFE
    = asert_scale t (asert_exponent (asert_error anchor tip))"
proof -
  let ?te = "asert_error anchor tip"
  let ?e = "asert_exponent ?te"
  have te: "int (db_timestamp tip) - int (db_timestamp anchor)
      - int (sat_sub (db_height tip) (db_height anchor)) * int TARGET_BLOCK_TIME = ?te"
    by (simp add: asert_error_def sat_sub_def TARGET_BLOCK_TIME_def)
  have mul: "checked_mul_i128 ?te (int RADIX) = Some (?te * 65536)"
    using assms(2) by (auto simp: checked_mul_i128_def RADIX_def i128_min_def i128_max_def)
  have e: "\<bar>?e\<bar> \<le> 64 * 65536" by (rule asert_exponent_bounds [OF assms(2)])
  then have dec: "decompose_fixed_point ?e = (?e div 65536, nat (?e mod 65536))"
    by (intro decompose_fixed_point_eq) simp
  have clamp: "clamp_int (?e div 65536) (- MAX_INT_EXPONENT) MAX_INT_EXPONENT = ?e div 65536"
    using asert_int_part [OF e] by (simp add: clamp_int_def MAX_INT_EXPONENT_def)
  have small: "(nat (?e div 65536) < 128) = True" "(128 \<le> nat (- (?e div 65536))) = False"
    using asert_int_part [OF e] by auto
  have hd: "(sat_sub (db_height tip) (db_height anchor) = 0) = False" using assms(1) by (simp add: sat_sub_def)
  have te': "trunc_div (?te * 65536) (int ASERT_HALFLIFE) = ?e"
    by (simp add: asert_exponent_def ASERT_HALFLIFE_def)
  have half: "(int ASERT_HALFLIFE = 0) = False" by (simp add: ASERT_HALFLIFE_def)
  show ?thesis
    by (simp only: apply_asert_def Let_def te mul option.case te' dec prod.case clamp asert_scale_def
        hd half small if_True if_False checked_shl128_def shr_def)
qed

lemma asert_scale_exact:
  assumes "2 * t \<le> u128_max" "t * 2 ^ nat k \<le> u128_max" "1 \<le> t"
  shows "asert_scale t (k * 65536) = (if 0 \<le> k then t * 2 ^ nat k else max (t div 2 ^ nat (- k)) 1)"
proof -
  have "safe_mul_shift t (pow2_frac 0) = t" by (simp add: pow2_frac_0 safe_mul_shift_def sat_sub_def)
  then show ?thesis using assms by (simp add: asert_scale_def Let_def)
qed

text \<open>
  The scaling is monotone in the exponent as long as the shift drops no bit: within one
  integer part because the polynomial is, and across integer parts because the
  fraction is between one and two.
\<close>

definition asert_adjusted :: "nat \<Rightarrow> int \<Rightarrow> nat" where
  "asert_adjusted t e = safe_mul_shift t (pow2_frac (nat (e mod 65536)))"

definition asert_value :: "nat \<Rightarrow> int \<Rightarrow> nat" where
  "asert_value t e = (if 0 \<le> e div 65536 then asert_adjusted t e * 2 ^ nat (e div 65536)
     else asert_adjusted t e div 2 ^ nat (- (e div 65536)))"

lemma frac_less: "nat ((e :: int) mod 65536) < 65536"
  by (simp add: nat_less_iff)

lemma asert_adjusted_bounds:
  "2 * t \<le> u128_max \<Longrightarrow> t \<le> asert_adjusted t e"
  "2 * t \<le> u128_max \<Longrightarrow> asert_adjusted t e \<le> 2 * t"
  using safe_mul_shift_bounds pow2_frac_bounds [OF frac_less [of e]] by (auto simp: asert_adjusted_def)

lemma asert_value_same_int:
  assumes "e \<le> f" "e div 65536 = f div 65536" "2 * t \<le> u128_max"
  shows "asert_value t e \<le> asert_value t f"
proof -
  have "e mod 65536 \<le> f mod 65536"
    using assms(1,2) div_mult_mod_eq [of e 65536] div_mult_mod_eq [of f 65536] by linarith
  then have "asert_adjusted t e \<le> asert_adjusted t f" unfolding asert_adjusted_def
    using pow2_frac_bounds frac_less assms(3) by (intro safe_mul_shift_mono pow2_frac_mono nat_mono) auto
  then show ?thesis using assms(2) by (simp add: asert_value_def div_le_mono)
qed

lemma asert_value_next_int:
  assumes "e div 65536 < f div 65536" "2 * t \<le> u128_max"
  shows "asert_value t e \<le> asert_value t f"
proof -
  note lo = asert_adjusted_bounds(1) [OF assms(2)] and hi = asert_adjusted_bounds(2) [OF assms(2)]
  consider "0 \<le> e div 65536" | "e div 65536 < 0" "0 \<le> f div 65536" | "f div 65536 < 0" by linarith
  then show ?thesis
  proof cases
    case 1
    then have "2 ^ Suc (nat (e div 65536)) \<le> (2 :: nat) ^ nat (f div 65536)"
      using assms(1) by (intro power_increasing) simp_all
    from mult_le_mono [OF lo this]
    have "t * (2 * 2 ^ nat (e div 65536)) \<le> asert_adjusted t f * 2 ^ nat (f div 65536)" by simp
    moreover have "2 * t * 2 ^ nat (e div 65536) = t * (2 * 2 ^ nat (e div 65536))" by simp
    ultimately have "2 * t * 2 ^ nat (e div 65536) \<le> asert_adjusted t f * 2 ^ nat (f div 65536)"
      by simp
    moreover have "asert_adjusted t e * 2 ^ nat (e div 65536) \<le> 2 * t * 2 ^ nat (e div 65536)"
      using hi by (rule mult_le_mono1)
    ultimately have "asert_adjusted t e * 2 ^ nat (e div 65536) \<le> asert_adjusted t f * 2 ^ nat (f div 65536)"
      by (rule le_trans [rotated])
    then show ?thesis using 1 assms(1) unfolding asert_value_def by simp
  next
    case 2
    then have "(2 :: nat) ^ 1 \<le> 2 ^ nat (- (e div 65536))" by (intro power_increasing) simp_all
    then have "asert_adjusted t e div 2 ^ nat (- (e div 65536)) \<le> asert_adjusted t e div 2"
      by (intro div_le_mono2) simp_all
    also have "\<dots> \<le> asert_adjusted t f" using hi [of e] lo [of f] by linarith
    also have "\<dots> \<le> asert_adjusted t f * 2 ^ nat (f div 65536)" by simp
    finally show ?thesis using 2 by (simp add: asert_value_def)
  next
    case 3
    define m where "m = nat (- (e div 65536)) - 1"
    have m: "nat (- (e div 65536)) = Suc m" "nat (- (f div 65536)) \<le> m" using 3 assms(1) by (auto simp: m_def)
    have "asert_adjusted t e div 2 ^ Suc m = asert_adjusted t e div 2 div 2 ^ m" by (simp add: div_mult2_eq)
    also have "\<dots> \<le> asert_adjusted t f div 2 ^ m"
      using hi [of e] lo [of f] by (intro div_le_mono) linarith
    also have "\<dots> \<le> asert_adjusted t f div 2 ^ nat (- (f div 65536))"
      using m(2) by (intro div_le_mono2 power_increasing) simp_all
    finally show ?thesis using 3 assms(1) m(1) by (simp add: asert_value_def)
  qed
qed

lemma asert_scale_mono:
  assumes "e \<le> f" "2 * t * 2 ^ nat (f div 65536) \<le> u128_max"
  shows "asert_scale t e \<le> asert_scale t f"
proof -
  have "2 * t * 1 \<le> 2 * t * 2 ^ nat (f div 65536)" by (intro mult_le_mono2) simp
  then have t: "2 * t \<le> u128_max" using assms(2) by linarith
  have div_le: "e div 65536 \<le> f div 65536" using assms(1) by (rule zdiv_mono1) simp
  have scale: "asert_scale t g = max (asert_value t g) 1" if "g div 65536 \<le> f div 65536" for g
  proof -
    have "asert_adjusted t g * 2 ^ nat (g div 65536) \<le> 2 * t * 2 ^ nat (f div 65536)"
      using asert_adjusted_bounds(2) [OF t] that by (intro mult_le_mono power_increasing nat_mono) simp_all
    then have "asert_adjusted t g * 2 ^ nat (g div 65536) \<le> u128_max" using assms(2) by (rule le_trans)
    then have "as_u128 (asert_adjusted t g * 2 ^ nat (g div 65536)) = asert_adjusted t g * 2 ^ nat (g div 65536)"
      by (rule as_u128_id)
    then show ?thesis unfolding asert_scale_def Let_def asert_adjusted_def [symmetric] asert_value_def
      by (simp only:)
  qed
  have "asert_value t e \<le> asert_value t f"
    using div_le asert_value_same_int [OF assms(1) _ t] asert_value_next_int [OF _ t]
    by (cases "e div 65536 = f div 65536") simp_all
  then show ?thesis using scale div_le by simp
qed

section \<open>The bounds of the adjustment\<close>

definition max_t :: nat where "max_t = u128_max div 500"

lemma calculate_difficulty_eq:
  assumes "2 \<le> length blocks"
  obtains combined where
    "calculate_difficulty blocks h =
      (let t = target_to_u128 (db_target (last blocks)); lo = max (t div 2) 1;
           c = clamp_nat combined lo (max (min (min (t * 2) u128_max) max_t) lo)
       in u128_to_target
         (if needs_emergency_drop blocks h
          then clamp_nat (min (c * 4) u128_max) lo (max (min (min (t * 8) u128_max) max_t) lo) else c))"
proof -
  let ?t = "target_to_u128 (db_target (last blocks))"
  let ?asert = "\<lambda>a. apply_asert (target_to_u128 (db_target a)) a (last blocks) TARGET_BLOCK_TIME ASERT_HALFLIFE"
  let ?combined = "sat_add128 (min (?asert (get_anchor blocks 8) * 70) u128_max)
      (min (?asert (get_anchor blocks 144) * 30) u128_max) div 100"
  have t: "min ?t u128_max = ?t" using target_to_u128_bounds(2) by (simp add: min_absorb1)
  have len: "(length blocks < 2) = False" and eight: "(2 :: nat) * 4 = 8" using assms by simp_all
  show thesis
    by (rule that [of ?combined])
      (simp only: calculate_difficulty_def Let_def safe_mul_u128_eq adjust_consts MIN_DIFFICULTY_def
        u128_max_target_def max_t_def mult_1_right div_by_1 t len if_False eight)
qed

lemma clamped_target:
  fixes t k x :: nat
  assumes "1 \<le> t" "t \<le> 2 * max_t" "2 \<le> k"
  defines "c \<equiv> clamp_nat x (max (t div 2) 1) (max (min (min (t * k) u128_max) max_t) (max (t div 2) 1))"
  shows "max (t div 2) 1 \<le> c" "c \<le> max_t" "c \<le> t * k" "target_to_u128 (u128_to_target c) = c"
proof -
  have "t * 2 \<le> t * k" using assms(3) by (rule mult_le_mono2)
  then have "t div 2 \<le> t * k" "1 \<le> t * k" using assms(1) by linarith+
  moreover have "t div 2 \<le> max_t" "1 \<le> max_t" using assms(2) by (simp_all add: max_t_def width_eqs)
  ultimately have hi: "max (min (min (t * k) u128_max) max_t) (max (t div 2) 1) \<le> min (t * k) max_t"
    by (simp add: min_le_iff_disj)
  show lo: "max (t div 2) 1 \<le> c" unfolding c_def using clamp_nat_bounds by (meson max.cobounded2)
  have "c \<le> min (t * k) max_t" unfolding c_def
    using clamp_nat_bounds hi by (meson le_trans max.cobounded2)
  then show "c \<le> max_t" "c \<le> t * k" by simp_all
  then show "target_to_u128 (u128_to_target c) = c"
    using lo by (intro target_roundtrip) (simp_all add: max_t_def)
qed

lemma calculate_difficulty_bounds:
  fixes blocks :: "difficulty_block list" and h :: nat
  assumes "2 \<le> length blocks" "target_to_u128 (db_target (last blocks)) \<le> 2 * max_t"
  defines "t \<equiv> target_to_u128 (db_target (last blocks))"
  defines "r \<equiv> target_to_u128 (calculate_difficulty blocks h)"
  shows "max (t div 2) 1 \<le> r \<and> r \<le> max_t \<and> r \<le> t * 8 \<and> (\<not> needs_emergency_drop blocks h \<longrightarrow> r \<le> t * 2)"
proof (rule calculate_difficulty_eq [OF assms(1), of h])
  fix combined
  assume eq: "calculate_difficulty blocks h = (let t = target_to_u128 (db_target (last blocks)); lo = max (t div 2) 1;
           c = clamp_nat combined lo (max (min (min (t * 2) u128_max) max_t) lo)
       in u128_to_target
         (if needs_emergency_drop blocks h
          then clamp_nat (min (c * 4) u128_max) lo (max (min (min (t * 8) u128_max) max_t) lo) else c))"
  have t: "1 \<le> t" "t \<le> 2 * max_t" unfolding t_def using target_to_u128_bounds(1) assms(2) by auto
  define c where "c = clamp_nat combined (max (t div 2) 1)
      (max (min (min (t * 2) u128_max) max_t) (max (t div 2) 1))"
  define e where "e = clamp_nat (min (c * 4) u128_max) (max (t div 2) 1)
      (max (min (min (t * 8) u128_max) max_t) (max (t div 2) 1))"
  have c: "max (t div 2) 1 \<le> c" "c \<le> max_t" "c \<le> t * 2" "target_to_u128 (u128_to_target c) = c"
    unfolding c_def by (rule clamped_target [OF t]; simp)+
  have e: "max (t div 2) 1 \<le> e" "e \<le> max_t" "e \<le> t * 8" "target_to_u128 (u128_to_target e) = e"
    unfolding e_def by (rule clamped_target [OF t]; simp)+
  have "r = (if needs_emergency_drop blocks h then e else c)"
    unfolding r_def eq Let_def t_def [symmetric] c_def [symmetric] e_def [symmetric]
    using c(4) e(4) by (cases "needs_emergency_drop blocks h") (simp_all only: if_True if_False)
  then show ?thesis using c(1-3) e(1-3) by (simp del: One_nat_def; linarith)
qed

section \<open>Properties\<close>

text \<open>
  C2 (the difficulty step is bounded). For any history of at least two blocks whose tip target
  is at most twice the easiest one, the next target is well formed, at least half the tip's, at most the
  easiest target of the difficulty floor, at most eight times the tip's, and at most
  twice the tip's outside an emergency.
\<close>

theorem difficulty_step_bounds:
  assumes "2 \<le> length blocks" "target_to_u128 (db_target (last blocks)) \<le> 2 * (u128_max div MIN_DIFFICULTY)"
  shows "let t = target_to_u128 (db_target (last blocks));
             next_target = calculate_difficulty blocks h; r = target_to_u128 next_target
         in length next_target = 32 \<and> max (t div 2) 1 \<le> r \<and> r \<le> u128_max div MIN_DIFFICULTY \<and> r \<le> 8 * t \<and>
            (\<not> needs_emergency_drop blocks h \<longrightarrow> r \<le> 2 * t) \<and>
            MIN_DIFFICULTY \<le> target_to_difficulty next_target"
proof -
  let ?r = "target_to_u128 (calculate_difficulty blocks h)"
  have mt: "u128_max div MIN_DIFFICULTY = max_t" by (simp add: max_t_def MIN_DIFFICULTY_def)
  have b: "?r \<le> max_t" using calculate_difficulty_bounds [OF assms [unfolded mt], of h] by blast
  have len: "length (calculate_difficulty blocks h) = 32"
    by (rule calculate_difficulty_eq [OF assms(1), of h]) (simp only: Let_def u128_to_target_length)
  have "u128_max div max_t \<le> u128_max div ?r"
    using b target_to_u128_bounds(1) by (intro div_le_mono2) (auto simp: Suc_le_eq)
  moreover have "MIN_DIFFICULTY \<le> u128_max div max_t" by (simp add: max_t_def MIN_DIFFICULTY_def width_eqs)
  ultimately have "MIN_DIFFICULTY \<le> u128_max div ?r" by linarith
  then show ?thesis
    using calculate_difficulty_bounds [OF assms [unfolded mt], of h] len
    unfolding mt Let_def target_to_difficulty_def u128_max_target_def
    by (simp del: One_nat_def add: mult.commute)
qed

theorem difficulty_step_bounds_witness:
  "let b = (\<lambda>h. \<lparr>db_height = h, db_timestamp = 120 * h, db_target = u128_to_target 1000\<rparr>)
   in 500 \<le> target_to_u128 (calculate_difficulty [b 1, b 2] 3) \<and>
      target_to_u128 (calculate_difficulty [b 1, b 2] 3) \<le> 2000"
proof -
  define b where "b h = \<lparr>db_height = h, db_timestamp = 120 * h, db_target = u128_to_target 1000\<rparr>" for h
  have t: "target_to_u128 (db_target (b 2)) = 1000"
    by (simp add: b_def target_roundtrip width_eqs)
  have "\<not> needs_emergency_drop [b 1, b 2] 3"
    by (simp add: needs_emergency_drop_def EMERGENCY_DIFFICULTY_BLOCKS_def)
  then have "500 \<le> target_to_u128 (calculate_difficulty [b 1, b 2] 3) \<and>
      target_to_u128 (calculate_difficulty [b 1, b 2] 3) \<le> 2000"
    using difficulty_step_bounds [of "[b 1, b 2]" 3] by (simp add: t Let_def MIN_DIFFICULTY_def width_eqs)
  then show ?thesis by (simp add: b_def)
qed

text \<open>
  ASERT halflives. While the shift drops no bit, a tip that is exactly \<open>k\<close> halflives
  late doubles the target \<open>k\<close> times, a tip that is \<open>k\<close> halflives early halves it \<open>k\<close> times (never below
  one), and a tip on schedule leaves it unchanged.
\<close>

theorem asert_halflives:
  assumes "db_height anchor < db_height tip" "asert_error anchor tip = k * 3600" "\<bar>k\<bar> \<le> 64"
    and "1 \<le> t" "2 * t \<le> u128_max" "t * 2 ^ nat k \<le> u128_max"
  shows "apply_asert t anchor tip TARGET_BLOCK_TIME ASERT_HALFLIFE =
    (if 0 \<le> k then t * 2 ^ nat k else max (t div 2 ^ nat (- k)) 1)"
proof -
  have "\<bar>asert_error anchor tip\<bar> \<le> 64 * 3600" using assms(2,3) by simp
  then show ?thesis
    using apply_asert_eq [OF assms(1)] asert_scale_exact [OF assms(5,6,4)]
    by (simp add: assms(2) asert_exponent_halflives)
qed

theorem asert_halflives_witness:
  "let anchor = \<lparr>db_height = 1, db_timestamp = 0, db_target = []\<rparr>;
       tip = \<lparr>db_height = 11, db_timestamp = 1200 + 2 * 3600, db_target = []\<rparr>
   in apply_asert 1000 anchor tip TARGET_BLOCK_TIME ASERT_HALFLIFE = 4000"
  using asert_halflives [of "\<lparr>db_height = 1, db_timestamp = 0, db_target = []\<rparr>"
      "\<lparr>db_height = 11, db_timestamp = 1200 + 2 * 3600, db_target = []\<rparr>" 2 1000]
  by (simp add: asert_error_def width_eqs)




end
