(* ===== verification/Fee_Market.thy ===== *)
theory Fee_Market
  imports Amounts
begin

text \<open>
  The fee market of \<^verbatim>\<open>src/consensus/fee_market.rs\<close>: the congestion
  multiplier and the fee floor, the split of a fee between miner and burn, the
  fee reservoir and the per-block statistics. The \<open>f64\<close> priority estimates of
  the wallet are not modelled. The lemmas show conservation of every split and the
  cap of the reservoir over any sequence of blocks.
\<close>

section \<open>Constants\<close>

definition MAX_BLOCK_SIZE :: nat where "MAX_BLOCK_SIZE = 2 * 1024 * 1024"
definition MIN_FEE_PER_BYTE :: nat where "MIN_FEE_PER_BYTE = 1000"
definition FEE_MINER_NORMAL_PERCENT :: nat where "FEE_MINER_NORMAL_PERCENT = 70"
definition FEE_BURN_NORMAL_PERCENT :: nat where "FEE_BURN_NORMAL_PERCENT = 30"
definition FEE_MINER_CONGESTED_PERCENT :: nat where "FEE_MINER_CONGESTED_PERCENT = 50"
definition FEE_BURN_CONGESTED_PERCENT :: nat where "FEE_BURN_CONGESTED_PERCENT = 50"
definition CONGESTION_THRESHOLD :: nat where "CONGESTION_THRESHOLD = 80"

lemmas fee_percents = FEE_MINER_NORMAL_PERCENT_def FEE_BURN_NORMAL_PERCENT_def
  FEE_MINER_CONGESTED_PERCENT_def FEE_BURN_CONGESTED_PERCENT_def

section \<open>Fees and congestion\<close>

definition congestion_multiplier :: "nat \<Rightarrow> nat" where
  "congestion_multiplier congestion_pct =
     (if congestion_pct < 50 then 100
      else if congestion_pct < 75 then 150
      else if congestion_pct < 90 then 200
      else 300)"

definition calculate_fee :: "nat \<Rightarrow> nat \<Rightarrow> amount" where
  "calculate_fee tx_size congestion_pct =
     (let mult = congestion_multiplier congestion_pct;
          base_fee = sat_mul64 (as_u64 tx_size) MIN_FEE_PER_BYTE
      in sat_mul64 base_fee mult div 100)"

definition calculate_congestion :: "nat list \<Rightarrow> nat" where
  "calculate_congestion recent_block_sizes =
     (if recent_block_sizes = [] then 0
      else let tot = fold (\<lambda>s acc. sat_add64 acc (as_u64 s)) recent_block_sizes 0;
               avg = tot div as_u64 (length recent_block_sizes)
           in min (as_u64 (avg * 100) div MAX_BLOCK_SIZE) 100)"

definition is_congested :: "nat \<Rightarrow> bool" where
  "is_congested congestion_pct \<longleftrightarrow> CONGESTION_THRESHOLD \<le> congestion_pct"

section \<open>Splitting a fee\<close>

record fee_distribution =
  fd_total :: amount
  to_miner :: amount
  burned :: amount
  to_protocol :: amount

definition distribute_fee :: "amount \<Rightarrow> bool \<Rightarrow> fee_distribution" where
  "distribute_fee tot congested =
     (let miner_pct = (if congested then FEE_MINER_CONGESTED_PERCENT else FEE_MINER_NORMAL_PERCENT);
          miner = min (as_u64 (as_u128 (tot * miner_pct) div 100)) tot
      in \<lparr>fd_total = tot, to_miner = miner, burned = tot - miner, to_protocol = 0\<rparr>)"

definition fd_is_valid :: "fee_distribution \<Rightarrow> bool" where
  "fd_is_valid d \<longleftrightarrow> as_u128 (as_u128 (to_miner d + burned d) + to_protocol d) = fd_total d"

definition fc_distribute :: "nat \<Rightarrow> amount \<Rightarrow> fee_distribution" where
  "fc_distribute congestion_pct tot = distribute_fee tot (is_congested congestion_pct)"

section \<open>The fee reservoir\<close>

definition LOW_WATER :: nat where "LOW_WATER = 25"
definition HIGH_WATER :: nat where "HIGH_WATER = 75"
definition CHARGE_BPS :: nat where "CHARGE_BPS = 2000"
definition DISCHARGE_BPS :: nat where "DISCHARGE_BPS = 2000"
definition DECAY_BPS :: nat where "DECAY_BPS = 10"
definition CAP_ATOMIC :: nat where "CAP_ATOMIC = 1000000000000"

lemmas reservoir_consts = LOW_WATER_def HIGH_WATER_def CHARGE_BPS_def DISCHARGE_BPS_def
  DECAY_BPS_def CAP_ATOMIC_def

record reservoir_transition =
  rt_to_miner :: amount
  reservoir_after :: amount
  rt_burned :: amount

definition reservoir_step :: "amount \<Rightarrow> amount \<Rightarrow> nat \<Rightarrow> reservoir_transition" where
  "reservoir_step reservoir_before fees congestion_pct =
     (let r0 = reservoir_before; f = fees;
          (miner, r1) =
            (if congestion_pct < LOW_WATER then
               let want = f * CHARGE_BPS div 10000;
                   headroom = sat_sub CAP_ATOMIC r0;
                   store = min want headroom
               in (f - store, r0 + store)
             else if HIGH_WATER < congestion_pct then
               let want = f * DISCHARGE_BPS div 10000;
                   draw = min want r0
               in (f + draw, r0 - draw)
             else (f, r0));
          burn = r1 * DECAY_BPS div 10000;
          r_after = r1 - burn
      in \<lparr>rt_to_miner = as_u64 miner, reservoir_after = as_u64 r_after, rt_burned = as_u64 burn\<rparr>)"

text \<open>A chain of blocks, each with its fees and its congestion.\<close>

fun reservoir_run :: "amount \<Rightarrow> (amount \<times> nat) list \<Rightarrow> amount \<times> amount \<times> amount" where
  "reservoir_run r [] = (0, 0, r)"
| "reservoir_run r ((fees, congestion) # bs) =
     (let t = reservoir_step r fees congestion;
          (miners, burns, r') = reservoir_run (reservoir_after t) bs
      in (rt_to_miner t + miners, rt_burned t + burns, r'))"

section \<open>Block statistics\<close>

record block_fee_stats =
  bfs_height :: nat
  tx_count :: nat
  total_fees :: amount
  bfs_total_burned :: amount
  avg_fee_per_byte :: nat
  was_congested :: bool

definition block_fee_stats :: "nat \<Rightarrow> (amount \<times> nat) list \<Rightarrow> bool \<Rightarrow> block_fee_stats" where
  "block_fee_stats height tx_fees congested =
     (if tx_fees = [] then
        \<lparr>bfs_height = height, tx_count = 0, total_fees = 0, bfs_total_burned = 0,
         avg_fee_per_byte = 0, was_congested = False\<rparr>
      else
        let tot = fold (\<lambda>(f, _) acc. sat_add64 acc f) tx_fees 0;
            total_size = fold (\<lambda>(_, s) acc. sat_add64 acc (as_u64 s)) tx_fees 0;
            burn_pct = (if congested then FEE_BURN_CONGESTED_PERCENT else FEE_BURN_NORMAL_PERCENT)
        in \<lparr>bfs_height = height, tx_count = length tx_fees, total_fees = tot,
            bfs_total_burned = as_u64 (as_u128 (tot * burn_pct) div 100),
            avg_fee_per_byte = (if 0 < total_size then tot div total_size else 0),
            was_congested = congested\<rparr>)"

section \<open>The split as an interface\<close>

text \<open>
  A coinbase check needs only that the miner's part and the burnt part make up the
  fee. Then over a whole block nothing is created.
\<close>

locale fee_split =
  fixes miner_part burn_part :: "nat \<Rightarrow> nat" and max_total :: nat
  assumes split_exact: "f \<le> max_total \<Longrightarrow> miner_part f + burn_part f = f"
begin

lemma miner_part_le: "f \<le> max_total \<Longrightarrow> miner_part f \<le> f"
  using split_exact [of f] by linarith

lemma split_sum:
  "list_all (\<lambda>f. f \<le> max_total) fs \<Longrightarrow> sum_list (map miner_part fs) + sum_list (map burn_part fs) = sum_list fs"
proof (induction fs)
  case (Cons f fs)
  then show ?case using split_exact [of f] by simp
qed simp

lemma coinbase_bound:
  assumes "f \<le> max_total" "minted \<le> reward + miner_part f"
  shows "minted + burn_part f \<le> reward + f"
  using assms split_exact [of f] by linarith

end

lemma distribute_fee_eq:
  assumes "tot \<le> u64_max"
  shows "to_miner (distribute_fee tot c) = tot * (if c then 50 else 70) div 100"
    and "burned (distribute_fee tot c) = tot - tot * (if c then 50 else 70) div 100"
    and "to_protocol (distribute_fee tot c) = 0" "fd_total (distribute_fee tot c) = tot"
proof -
  have le: "tot * k div 100 \<le> tot" if "k \<le> 100" for k
    using that div_le_mono [of "tot * k" "tot * 100" 100] by simp
  have "as_u128 (tot * (if c then 50 else 70)) = tot * (if c then 50 else 70)"
    using assms by (intro as_u128_id) (simp add: width_eqs)
  moreover have "as_u64 (tot * (if c then 50 else 70) div 100) = tot * (if c then 50 else 70) div 100"
    using assms le [of 50] le [of 70] by (intro as_u64_id) (auto split: if_splits)
  ultimately show "to_miner (distribute_fee tot c) = tot * (if c then 50 else 70) div 100"
    "burned (distribute_fee tot c) = tot - tot * (if c then 50 else 70) div 100"
    using le [of 50] le [of 70]
    by (auto simp: distribute_fee_def Let_def fee_percents min_def split: if_splits)
qed (simp_all add: distribute_fee_def Let_def)

interpretation fee_market: fee_split
  "\<lambda>f. to_miner (distribute_fee f congested)" "\<lambda>f. burned (distribute_fee f congested)" u64_max
  for congested
proof (unfold_locales, goal_cases)
  case (1 f)
  have "f * (if congested then 50 else 70) div 100 \<le> f * 100 div 100" by (intro div_le_mono) simp
  then show ?case using 1 by (simp add: distribute_fee_eq)
qed

section \<open>The reservoir\<close>

lemma reservoir_step_cases:
  assumes "r \<le> CAP_ATOMIC"
  obtains m r1 where
    "reservoir_step r f c = \<lparr>rt_to_miner = as_u64 m, reservoir_after = as_u64 (r1 - r1 * DECAY_BPS div 10000),
       rt_burned = as_u64 (r1 * DECAY_BPS div 10000)\<rparr>"
    "m + r1 = f + r" "r1 \<le> CAP_ATOMIC" "f - f div 5 \<le> m" "m \<le> f + f div 5" "m \<le> f + r"
proof -
  have fifth: "f * 2000 div 10000 = f div 5" by simp
  consider "c < LOW_WATER" | "\<not> c < LOW_WATER" "HIGH_WATER < c" | "\<not> c < LOW_WATER" "\<not> HIGH_WATER < c" by blast
  then show thesis
  proof cases
    case 1
    then show thesis
      using assms by (intro that [of "f - min (f div 5) (CAP_ATOMIC - r)" "r + min (f div 5) (CAP_ATOMIC - r)"])
        (auto simp: reservoir_step_def Let_def sat_sub_def CHARGE_BPS_def fifth)
  next
    case 2
    then show thesis
      using assms by (intro that [of "f + min (f div 5) r" "r - min (f div 5) r"])
        (auto simp: reservoir_step_def Let_def DISCHARGE_BPS_def fifth)
  next
    case 3
    then show thesis
      using assms by (intro that [of f r]) (auto simp: reservoir_step_def Let_def)
  qed
qed

lemma reservoir_cap: "r \<le> CAP_ATOMIC \<Longrightarrow> reservoir_after (reservoir_step r f c) \<le> CAP_ATOMIC"
  by (erule reservoir_step_cases [of r f c]) (auto simp: CAP_ATOMIC_def width_eqs)

interpretation reservoir: invariant_machine
  "\<lambda>r. r = 0" "\<lambda>(fees, congestion) r. reservoir_after (reservoir_step r fees congestion)"
  "\<lambda>r. r \<le> CAP_ATOMIC"
  by unfold_locales (auto intro: reservoir_cap)

lemma reservoir_step_conserves:
  assumes "r \<le> CAP_ATOMIC" "f + CAP_ATOMIC \<le> u64_max"
  shows "rt_to_miner (reservoir_step r f c) + rt_burned (reservoir_step r f c)
      + reservoir_after (reservoir_step r f c) = r + f"
proof (rule reservoir_step_cases [OF assms(1), of f c])
  fix m r1
  assume eq: "reservoir_step r f c = \<lparr>rt_to_miner = as_u64 m,
      reservoir_after = as_u64 (r1 - r1 * DECAY_BPS div 10000), rt_burned = as_u64 (r1 * DECAY_BPS div 10000)\<rparr>"
    and sum: "m + r1 = f + r" "r1 \<le> CAP_ATOMIC" "m \<le> f + r"
  have "r1 * DECAY_BPS div 10000 \<le> r1" by (simp add: DECAY_BPS_def)
  moreover have "m \<le> u64_max" "r1 \<le> u64_max" using sum assms by simp_all
  ultimately show ?thesis using sum(1) by (simp add: eq)
qed

lemma reservoir_run_final:
  "snd (snd (reservoir_run r bs)) = fold (\<lambda>(fees, congestion) r. reservoir_after (reservoir_step r fees congestion)) bs r"
  by (induction r bs rule: reservoir_run.induct) (auto simp: Let_def split: prod.splits)

lemma reservoir_run_conserves:
  assumes "r \<le> CAP_ATOMIC" "list_all (\<lambda>(f, _). f + CAP_ATOMIC \<le> u64_max) bs"
    and "reservoir_run r bs = (miners, burns, r')"
  shows "miners + burns + r' = r + sum_list (map fst bs)"
  using assms
proof (induction r bs arbitrary: miners burns r' rule: reservoir_run.induct)
  case (2 r fees congestion bs)
  obtain m b where "reservoir_run (reservoir_after (reservoir_step r fees congestion)) bs = (m, b, r')"
    "miners = rt_to_miner (reservoir_step r fees congestion) + m"
    "burns = rt_burned (reservoir_step r fees congestion) + b"
    using "2.prems"(3) by (auto simp: Let_def split: prod.splits)
  then show ?case
    using "2.IH" [OF refl, of m b r'] "2.prems"(1,2) reservoir_cap [of r fees congestion]
      reservoir_step_conserves [of r fees congestion] by simp
qed simp

section \<open>Properties\<close>

text \<open>
  C33 (a fee is split exactly). For every \<open>u64\<close> fee the miner part and the burnt
  part add up to the fee with nothing for a protocol account, \<open>is_valid\<close> accepts the
  split, and the burnt part is at least 30 percent of the fee and half of it under
  congestion, by less than one unit.
\<close>

theorem fee_split_exact:
  assumes "tot \<le> u64_max"
  shows "let d = distribute_fee tot congested; pct = (if congested then 50 else 30) in
    fd_is_valid d \<and> to_miner d + burned d = tot \<and> to_protocol d = 0 \<and>
    pct * tot \<le> 100 * burned d \<and> 100 * burned d < pct * tot + 100"
proof -
  have exact: "to_miner (distribute_fee tot congested) + burned (distribute_fee tot congested) = tot"
    using assms by (rule fee_market.split_exact)
  have valid: "as_u128 tot = tot" using assms by (simp add: width_eqs)
  show ?thesis
  proof (cases congested)
    case True
    then show ?thesis using exact valid distribute_fee_eq [OF assms, of congested]
      by (simp add: fd_is_valid_def Let_def; linarith)
  next
    case False
    then show ?thesis using exact valid distribute_fee_eq [OF assms, of congested]
      by (simp add: fd_is_valid_def Let_def; linarith)
  qed
qed

theorem fee_split_exact_witness:
  "(101 :: nat) \<le> u64_max \<and> to_miner (distribute_fee 101 False) = 70 \<and>
   burned (distribute_fee 101 False) = 31 \<and> fd_is_valid (distribute_fee 101 False)"
proof -
  have "(101 :: nat) \<le> u64_max" by (simp add: width_eqs)
  then show ?thesis using fee_split_exact [of 101 False] distribute_fee_eq(1) [of 101 False]
    by (simp add: Let_def)
qed



text \<open>
  The fee floor. The required fee is at least the minimum per byte, never falls when the
  transaction grows or the congestion rises, and is at most three times the minimum.
\<close>

theorem calculate_fee_bounds:
  assumes "s \<le> t" "c \<le> d" "t * MIN_FEE_PER_BYTE * 300 \<le> u64_max"
  shows "s * MIN_FEE_PER_BYTE \<le> calculate_fee s c \<and> calculate_fee s c \<le> calculate_fee t d \<and>
    calculate_fee t d \<le> 3 * (t * MIN_FEE_PER_BYTE)"
proof -
  have eq: "calculate_fee u e = u * MIN_FEE_PER_BYTE * congestion_multiplier e div 100"
    if "u \<le> t" for u e
  proof -
    have u: "u * MIN_FEE_PER_BYTE * 300 \<le> u64_max"
      using that assms(3) by (meson le_trans mult_le_mono1)
    have "congestion_multiplier e \<le> 300" by (simp add: congestion_multiplier_def)
    then have "u * MIN_FEE_PER_BYTE * congestion_multiplier e \<le> u64_max"
      using u by (meson le_trans mult_le_mono2)
    then show ?thesis using u by (simp add: calculate_fee_def sat_mul64_def MIN_FEE_PER_BYTE_def)
  qed
  have m: "100 \<le> congestion_multiplier c" "congestion_multiplier c \<le> congestion_multiplier d"
    "congestion_multiplier d \<le> 300"
    using assms(2) by (simp_all add: congestion_multiplier_def)
  have "s * MIN_FEE_PER_BYTE * 100 div 100 \<le> s * MIN_FEE_PER_BYTE * congestion_multiplier c div 100"
    using m(1) by (intro div_le_mono mult_le_mono2)
  moreover have "s * MIN_FEE_PER_BYTE * congestion_multiplier c div 100
      \<le> t * MIN_FEE_PER_BYTE * congestion_multiplier d div 100"
    using m(2) assms(1) by (intro div_le_mono mult_le_mono) simp_all
  moreover have "t * MIN_FEE_PER_BYTE * congestion_multiplier d div 100 \<le> t * MIN_FEE_PER_BYTE * 300 div 100"
    using m(3) by (intro div_le_mono mult_le_mono2)
  ultimately show ?thesis using assms(1) by (simp add: eq mult.commute [of _ t])
qed

theorem calculate_fee_bounds_witness:
  "calculate_fee 250 60 = 375000 \<and> calculate_fee 250 60 \<le> calculate_fee 300 95"
  using calculate_fee_bounds [of 250 300 60 95]
  by (simp add: width_eqs MIN_FEE_PER_BYTE_def calculate_fee_def congestion_multiplier_def
      sat_mul64_def as_u64_def)

end
