(* ===== verification/Network_Params.thy ===== *)
theory Network_Params
  imports Emission Difficulty Fee_Market
begin

text \<open>
  The networks and their height-dependent parameters:
  \<^verbatim>\<open>src/config.rs\<close> (\<open>NetworkType\<close>, \<open>ChainParams\<close>) and the functions of
  \<^verbatim>\<open>src/constants.rs\<close>. The build is the default one (neither the \<open>testnet\<close> nor the
  \<open>sketch-gk-proof\<close> feature); where \<open>sketch-gk-proof\<close> changes a function it is an
  argument.
\<close>

section \<open>Constants\<close>

definition MAX_TXS_PER_BLOCK :: nat where "MAX_TXS_PER_BLOCK = 5000"
definition MIN_TX_SIZE :: nat where "MIN_TX_SIZE = 100"
definition MAX_TX_SIZE :: nat where "MAX_TX_SIZE = 500000"
definition MAX_TX_INPUTS :: nat where "MAX_TX_INPUTS = 256"
definition MAX_TX_OUTPUTS :: nat where "MAX_TX_OUTPUTS = 16"
definition MIN_OUTPUT_AMOUNT :: nat where "MIN_OUTPUT_AMOUNT = 1000000"
definition MTP_WINDOW :: nat where "MTP_WINDOW = 11"
definition MAX_TIMESTAMP_DRIFT :: nat where "MAX_TIMESTAMP_DRIFT = 600"
definition MIN_TIMESTAMP :: nat where "MIN_TIMESTAMP = 1704067200"
definition MAX_BLOCK_VERSION :: nat where "MAX_BLOCK_VERSION = 2"
definition V2_TX_ACTIVATION_HEIGHT :: nat where "V2_TX_ACTIVATION_HEIGHT = 50000"
definition MIN_OUTPUT_AGE :: nat where "MIN_OUTPUT_AGE = 10"
definition MIN_OUTPUT_AGE_POST_FORK :: nat where "MIN_OUTPUT_AGE_POST_FORK = 100"
definition BOOTSTRAP_MIN_RING_SIZE :: nat where "BOOTSTRAP_MIN_RING_SIZE = 11"
definition MAX_RING_SIZE :: nat where "MAX_RING_SIZE = 32"
definition DEFAULT_RING_SIZE :: nat where "DEFAULT_RING_SIZE = 16"
definition STANDARD_INPUT_COUNT :: nat where "STANDARD_INPUT_COUNT = 2"
definition STANDARD_OUTPUT_COUNT :: nat where "STANDARD_OUTPUT_COUNT = 2"
definition BULLETPROOFS_PLUS_HEIGHT :: nat where "BULLETPROOFS_PLUS_HEIGHT = 0"
definition UNIFORM_TX_SHAPE_HEIGHT :: nat where "UNIFORM_TX_SHAPE_HEIGHT = BULLETPROOFS_PLUS_HEIGHT"
definition RANGE_PROOF_VERSION_BP_PLUS :: nat where "RANGE_PROOF_VERSION_BP_PLUS = 3"
definition MAX_OUTPUT_MEMO_SIZE :: nat where "MAX_OUTPUT_MEMO_SIZE = 256"
definition STRICT_RING_MEMBER_HEIGHT :: nat where "STRICT_RING_MEMBER_HEIGHT = 100"
definition SHIELDED_TX_ACTIVATION_HEIGHT :: nat where "SHIELDED_TX_ACTIVATION_HEIGHT = u64_max"
definition SHIELDED_TESTNET_ACTIVATION_HEIGHT :: nat where "SHIELDED_TESTNET_ACTIVATION_HEIGHT = 29000"
definition SHIELDED_REGTEST_ACTIVATION_HEIGHT :: nat where "SHIELDED_REGTEST_ACTIVATION_HEIGHT = 100"
definition SHIELDED_BETA_ACTIVATION_HEIGHT :: nat where "SHIELDED_BETA_ACTIVATION_HEIGHT = 5"
definition BLOCKS_PER_YEAR :: nat where "BLOCKS_PER_YEAR = 365 * 24 * 60 * 60 div TARGET_BLOCK_TIME"
definition MAX_BURN_RATE :: nat where "MAX_BURN_RATE = 5000"

section \<open>Networks\<close>

datatype network_type = Mainnet | Testnet | Regtest | Beta

record chain_params =
  network :: network_type
  magic :: bytes
  p2p_port :: nat
  rpc_port :: nat
  data_dir_name :: string
  cp_name :: string
  address_hrp :: string
  address_prefix :: string

definition MAINNET_MAGIC :: bytes where "MAINNET_MAGIC = [0x43, 0x59, 0x4E, 0x43]"
definition TESTNET_MAGIC :: bytes where "TESTNET_MAGIC = [0x74, 0x43, 0x59, 0x4E]"
definition REGTEST_MAGIC :: bytes where "REGTEST_MAGIC = [0x72, 0x43, 0x59, 0x4E]"
definition BETA_MAGIC :: bytes where "BETA_MAGIC = [0x62, 0x43, 0x59, 0x4E]"

fun params :: "network_type \<Rightarrow> chain_params" where
  "params Mainnet = \<lparr>network = Mainnet, magic = MAINNET_MAGIC, p2p_port = 19080, rpc_port = 19081,
     data_dir_name = ''mainnet'', cp_name = ''mainnet'', address_hrp = ''cync'', address_prefix = ''CYNC''\<rparr>"
| "params Testnet = \<lparr>network = Testnet, magic = TESTNET_MAGIC, p2p_port = 28080, rpc_port = 28081,
     data_dir_name = ''testnet'', cp_name = ''testnet'', address_hrp = ''tcync'', address_prefix = ''tCYNC''\<rparr>"
| "params Regtest = \<lparr>network = Regtest, magic = REGTEST_MAGIC, p2p_port = 18080, rpc_port = 18081,
     data_dir_name = ''regtest'', cp_name = ''regtest'', address_hrp = ''rcync'', address_prefix = ''tCYNC''\<rparr>"
| "params Beta = \<lparr>network = Beta, magic = BETA_MAGIC, p2p_port = 38080, rpc_port = 38081,
     data_dir_name = ''beta'', cp_name = ''beta'', address_hrp = ''tcync'', address_prefix = ''tCYNC''\<rparr>"

definition magic_bytes :: "network_type \<Rightarrow> bytes" where
  "magic_bytes n = magic (params n)"

definition from_magic_bytes :: "bytes \<Rightarrow> network_type option" where
  "from_magic_bytes bs =
     (if bs = MAINNET_MAGIC then Some Mainnet
      else if bs = TESTNET_MAGIC then Some Testnet
      else if bs = REGTEST_MAGIC then Some Regtest
      else if bs = BETA_MAGIC then Some Beta
      else None)"

definition is_test_network :: "network_type \<Rightarrow> bool" where
  "is_test_network n \<longleftrightarrow> n \<noteq> Mainnet"

section \<open>Heights\<close>

fun fee_distribution_height :: "network_type \<Rightarrow> nat" where
  "fee_distribution_height Mainnet = 0"
| "fee_distribution_height _ = 525"

fun min_output_age_hardfork_height :: "network_type \<Rightarrow> nat" where
  "min_output_age_hardfork_height Mainnet = 0"
| "min_output_age_hardfork_height _ = u64_max"

fun rolling_finality_enable_height :: "network_type \<Rightarrow> nat" where
  "rolling_finality_enable_height Mainnet = 25000"
| "rolling_finality_enable_height _ = 50000"

fun rolling_finality_enforce_height :: "network_type \<Rightarrow> nat" where
  "rolling_finality_enforce_height Mainnet = 50000"
| "rolling_finality_enforce_height _ = 75000"

fun supply_commitment_enforce_height :: "network_type \<Rightarrow> nat" where
  "supply_commitment_enforce_height _ = u64_max"

definition min_output_age :: "network_type \<Rightarrow> nat \<Rightarrow> nat" where
  "min_output_age n height =
     (if height < min_output_age_hardfork_height n then MIN_OUTPUT_AGE else MIN_OUTPUT_AGE_POST_FORK)"

definition shielded_activation_height :: "bool \<Rightarrow> network_type \<Rightarrow> nat" where
  "shielded_activation_height sketch_gk_proof n =
     (case n of
        Regtest \<Rightarrow> if sketch_gk_proof then SHIELDED_REGTEST_ACTIVATION_HEIGHT else SHIELDED_TX_ACTIVATION_HEIGHT
      | Beta \<Rightarrow> if sketch_gk_proof then SHIELDED_BETA_ACTIVATION_HEIGHT else SHIELDED_TX_ACTIVATION_HEIGHT
      | Testnet \<Rightarrow> SHIELDED_TESTNET_ACTIVATION_HEIGHT
      | Mainnet \<Rightarrow> SHIELDED_TX_ACTIVATION_HEIGHT)"

definition shielded_tx_active_at_height :: "bool \<Rightarrow> network_type \<Rightarrow> nat \<Rightarrow> bool" where
  "shielded_tx_active_at_height sketch_gk_proof n height \<longleftrightarrow> shielded_activation_height sketch_gk_proof n \<le> height"

definition block_version_at_height :: "nat \<Rightarrow> nat" where
  "block_version_at_height height = (if V2_TX_ACTIVATION_HEIGHT \<le> height then 2 else 1)"

definition ring_size_at_height :: "nat \<Rightarrow> nat" where
  "ring_size_at_height height = (if height < 10000 then BOOTSTRAP_MIN_RING_SIZE else DEFAULT_RING_SIZE)"

definition effective_ring_size :: "nat \<Rightarrow> nat \<Rightarrow> nat" where
  "effective_ring_size height available_outputs =
     (let target = ring_size_at_height height
      in if target \<le> available_outputs then target
         else if 10000 \<le> height then target
         else min (max available_outputs 2) target)"

definition expected_checkpoint_hash :: "(nat \<times> hash) list \<Rightarrow> nat \<Rightarrow> hash option" where
  "expected_checkpoint_hash consensus_checkpoints height =
     map_option snd (find (\<lambda>(h, _). h = height) consensus_checkpoints)"

definition PHASE_BURN_RATES :: "(nat \<times> nat) list" where
  "PHASE_BURN_RATES = [(BLOCKS_PER_YEAR, 0), (BLOCKS_PER_YEAR * 2, 500), (BLOCKS_PER_YEAR * 5, 1000), (u64_max, 2000)]"

definition burn_rate_at_height :: "nat \<Rightarrow> nat" where
  "burn_rate_at_height height =
     (case find (\<lambda>(end_height, _). height < end_height) PHASE_BURN_RATES of
        Some (_, rate) \<Rightarrow> rate
      | None \<Rightarrow> snd (PHASE_BURN_RATES ! (length PHASE_BURN_RATES - 1)))"

definition supply_cap_burn_rate :: "nat \<Rightarrow> nat" where
  "supply_cap_burn_rate current_supply =
     (let cap = TOTAL_SUPPLY_TARGET
      in if current_supply < cap * 40 div 100 then 0
         else if current_supply < cap * 60 div 100 then 200
         else if current_supply < cap * 80 div 100 then 500
         else if current_supply < cap * 95 div 100 then 1000
         else 2000)"

section \<open>Lemmas\<close>

lemma effective_ring_size_bounds: "2 \<le> effective_ring_size h n" "effective_ring_size h n \<le> ring_size_at_height h"
  by (auto simp: effective_ring_size_def ring_size_at_height_def BOOTSTRAP_MIN_RING_SIZE_def
      DEFAULT_RING_SIZE_def Let_def)

lemma effective_ring_size_available:
  "h < 10000 \<Longrightarrow> 2 \<le> n \<Longrightarrow> effective_ring_size h n \<le> n"
  by (auto simp: effective_ring_size_def Let_def)

lemma burn_rate_at_height_mono: "g \<le> h \<Longrightarrow> burn_rate_at_height g \<le> burn_rate_at_height h"
  by (auto simp: burn_rate_at_height_def PHASE_BURN_RATES_def BLOCKS_PER_YEAR_def TARGET_BLOCK_TIME_def)

lemma magic_bytes_roundtrip: "from_magic_bytes (magic_bytes n) = Some n"
  by (cases n) (simp_all add: from_magic_bytes_def magic_bytes_def MAINNET_MAGIC_def TESTNET_MAGIC_def
      REGTEST_MAGIC_def BETA_MAGIC_def)

section \<open>Properties\<close>

text \<open>
  Network separation. The magic bytes of a network identify it and no other, whatever
  is recognised is the magic of the network returned, and on the main network no shielded transaction is ever
  active below the maximal height, in either build.
\<close>

theorem network_separation:
  "(from_magic_bytes bs = Some n \<longleftrightarrow> bs = magic_bytes n) \<and>
   (shielded_tx_active_at_height sketch Mainnet h \<longleftrightarrow> u64_max \<le> h)"
proof -
  have "bs = magic_bytes n" if "from_magic_bytes bs = Some n"
    using that by (auto simp: from_magic_bytes_def magic_bytes_def split: if_splits)
  then show ?thesis
    using magic_bytes_roundtrip [of n]
    by (auto simp: shielded_tx_active_at_height_def shielded_activation_height_def
        SHIELDED_TX_ACTIVATION_HEIGHT_def)
qed

end
