(* ===== verification/Transactions.thy ===== *)
theory Transactions
  imports Network_Params
begin

text \<open>
  Transactions, headers and blocks: \<^verbatim>\<open>src/transaction/types.rs\<close>,
  \<^verbatim>\<open>src/consensus/header.rs\<close> and \<^verbatim>\<open>src/consensus/block.rs\<close>. The
  Borsh serialisation of a transaction is the parameter \<open>ser\<close>, the hash function
  the parameter \<open>H\<close>. The lemmas show that the signed message and the header preimage
  are unambiguous encodings.
\<close>

section \<open>Transactions\<close>

datatype tx_type = Coinbase | Transfer | Churn | Shielded

fun tx_type_byte :: "tx_type \<Rightarrow> u8" where
  "tx_type_byte Coinbase = 0"
| "tx_type_byte Transfer = 1"
| "tx_type_byte Churn = 2"
| "tx_type_byte Shielded = 3"

type_synonym key_image = bytes
type_synonym public_key = bytes

record ring_member_ref =
  rm_public_key :: public_key
  rm_commitment :: bytes

record clsag_signature =
  sig_key_image :: key_image
  commitment_image :: bytes
  sig_c1 :: bytes
  responses :: "bytes list"

record tx_input =
  key_image :: key_image
  ring_members :: "ring_member_ref list"
  signature :: clsag_signature
  pseudo_output_commitment :: bytes

record tx_output =
  stealth_address :: public_key
  tx_public_key :: public_key
  commitment :: bytes
  encrypted_amount :: bytes
  view_tag :: u8
  lock_height :: "nat option"
  encrypted_memo :: bytes

record transaction =
  version :: u8
  tx_type :: tx_type
  inputs :: "tx_input list"
  outputs :: "tx_output list"
  fee :: amount
  range_proof :: bytes
  extra :: bytes

type_synonym tx_codec = "transaction \<Rightarrow> bytes"

definition tx_hash :: "(bytes \<Rightarrow> hash) \<Rightarrow> tx_codec \<Rightarrow> transaction \<Rightarrow> hash" where
  "tx_hash H ser tx = hash_concat H [ser tx]"

definition tx_size :: "tx_codec \<Rightarrow> transaction \<Rightarrow> nat" where
  "tx_size ser tx = length (ser tx)"

definition is_coinbase :: "transaction \<Rightarrow> bool" where
  "is_coinbase tx \<longleftrightarrow> tx_type tx = Coinbase"

definition is_shielded :: "transaction \<Rightarrow> bool" where
  "is_shielded tx \<longleftrightarrow> tx_type tx = Shielded"

definition key_images :: "transaction \<Rightarrow> key_image list" where
  "key_images tx = map key_image (inputs tx)"

section \<open>The signed message\<close>

definition ascii :: "string \<Rightarrow> bytes" where
  "ascii s = map of_char s"

definition TX_SIGN_DOMAIN_TAG :: bytes where "TX_SIGN_DOMAIN_TAG = ascii ''coincync/tx-sign/v1''"

definition len32 :: "'a list \<Rightarrow> bytes" where
  "len32 xs = le_bytes 4 (as_u32 (length xs))"

record signing_input_view =
  siv_key_image :: key_image
  siv_pseudo_output_commitment :: bytes
  siv_ring_members :: "ring_member_ref list"

definition from_txinput :: "tx_input \<Rightarrow> signing_input_view" where
  "from_txinput i = \<lparr>siv_key_image = key_image i,
     siv_pseudo_output_commitment = pseudo_output_commitment i, siv_ring_members = ring_members i\<rparr>"

definition sign_member :: "ring_member_ref \<Rightarrow> bytes" where
  "sign_member m = rm_public_key m @ rm_commitment m"

definition sign_input :: "signing_input_view \<Rightarrow> bytes" where
  "sign_input i = siv_key_image i @ siv_pseudo_output_commitment i @
     len32 (siv_ring_members i) @ concat (map sign_member (siv_ring_members i))"

definition sign_lock :: "nat option \<Rightarrow> bytes" where
  "sign_lock l = (case l of Some h \<Rightarrow> 1 # le_bytes 8 h | None \<Rightarrow> [0])"

definition sign_output :: "tx_output \<Rightarrow> bytes" where
  "sign_output out = stealth_address out @ tx_public_key out @ commitment out @
     len32 (encrypted_amount out) @ encrypted_amount out @ [view_tag out] @ sign_lock (lock_height out) @
     len32 (encrypted_memo out) @ encrypted_memo out"

definition signing_data ::
  "u8 \<Rightarrow> tx_type \<Rightarrow> amount \<Rightarrow> signing_input_view list \<Rightarrow> tx_output list \<Rightarrow> bytes \<Rightarrow> bytes \<Rightarrow> bytes" where
  "signing_data ver ty f ins outs proof ext =
     TX_SIGN_DOMAIN_TAG @ [ver, tx_type_byte ty] @ le_bytes 8 f @
     len32 ins @ concat (map sign_input ins) @
     len32 outs @ concat (map sign_output outs) @
     len32 proof @ proof @ len32 ext @ ext"

definition compute_signing_hash ::
  "(bytes \<Rightarrow> hash) \<Rightarrow> u8 \<Rightarrow> tx_type \<Rightarrow> amount \<Rightarrow> signing_input_view list \<Rightarrow> tx_output list \<Rightarrow> bytes \<Rightarrow> bytes \<Rightarrow> hash" where
  "compute_signing_hash H ver ty f ins outs proof ext =
     hash_concat H [signing_data ver ty f ins outs proof ext]"

definition signing_hash :: "(bytes \<Rightarrow> hash) \<Rightarrow> transaction \<Rightarrow> hash" where
  "signing_hash H tx = compute_signing_hash H (version tx) (tx_type tx) (fee tx)
     (map from_txinput (inputs tx)) (outputs tx) (range_proof tx) (extra tx)"

section \<open>Headers and blocks\<close>

record block_header =
  network_magic :: bytes
  hdr_version :: u8
  height :: nat
  timestamp :: nat
  prev_hash :: hash
  tx_root :: hash
  anchor :: hash
  algorithm :: u8
  nonce :: nat
  target :: hash
  miner_pubkey :: public_key
  supply_commitment :: bytes
  checkpoint_vote :: "(nat \<times> hash) option"
  spark_set_root :: bytes
  mw_kernel_root :: bytes

definition HEADER_HASH_DOMAIN_TAG :: bytes where "HEADER_HASH_DOMAIN_TAG = ascii ''coincync/header/v1''"
definition POW_BINDING_DOMAIN_TAG :: bytes where "POW_BINDING_DOMAIN_TAG = ascii ''coincync/pow-binding/v1''"

definition vote_bytes :: "(nat \<times> hash) option \<Rightarrow> bytes" where
  "vote_bytes v = (case v of Some (h, hash) \<Rightarrow> 1 # le_bytes 8 h @ hash | None \<Rightarrow> [0])"

definition header_data :: "block_header \<Rightarrow> bytes" where
  "header_data h = HEADER_HASH_DOMAIN_TAG @ network_magic h @ [hdr_version h] @ le_bytes 8 (height h) @
     le_bytes 8 (timestamp h) @ prev_hash h @ tx_root h @ anchor h @ [algorithm h] @ le_bytes 8 (nonce h) @
     target h @ miner_pubkey h @ supply_commitment h @ vote_bytes (checkpoint_vote h) @
     spark_set_root h @ mw_kernel_root h"

definition header_hash :: "(bytes \<Rightarrow> hash) \<Rightarrow> block_header \<Rightarrow> hash" where
  "header_hash H h = hash_concat H [header_data h]"

definition pow_binding_data :: "block_header \<Rightarrow> bytes" where
  "pow_binding_data h = POW_BINDING_DOMAIN_TAG @ [hdr_version h] @ miner_pubkey h @ supply_commitment h @
     vote_bytes (checkpoint_vote h) @ spark_set_root h @ mw_kernel_root h"

definition pow_binding :: "(bytes \<Rightarrow> hash) \<Rightarrow> block_header \<Rightarrow> hash" where
  "pow_binding H h = hash_concat H [pow_binding_data h]"

definition meets_target :: "block_header \<Rightarrow> hash \<Rightarrow> bool" where
  "meets_target h pow_hash = meets_difficulty pow_hash (target h)"

record block =
  header :: block_header
  transactions :: "transaction list"

definition block_hash :: "(bytes \<Rightarrow> hash) \<Rightarrow> block \<Rightarrow> hash" where
  "block_hash H b = header_hash H (header b)"

definition block_height :: "block \<Rightarrow> nat" where "block_height b = height (header b)"

definition is_genesis :: "block \<Rightarrow> bool" where "is_genesis b \<longleftrightarrow> height (header b) = 0"

definition coinbase :: "block \<Rightarrow> transaction option" where
  "coinbase b = (case transactions b of [] \<Rightarrow> None | tx # _ \<Rightarrow> Some tx)"

definition non_coinbase_transactions :: "block \<Rightarrow> transaction list" where
  "non_coinbase_transactions b = drop 1 (transactions b)"

definition block_total_fees :: "block \<Rightarrow> amount" where
  "block_total_fees b = fold (\<lambda>f acc. sat_add64 acc f) (map fee (non_coinbase_transactions b)) 0"

definition all_key_images :: "block \<Rightarrow> key_image list" where
  "all_key_images b = concat (map key_images (non_coinbase_transactions b))"

definition verify_merkle_root :: "(bytes \<Rightarrow> hash) \<Rightarrow> tx_codec \<Rightarrow> block \<Rightarrow> bool" where
  "verify_merkle_root H ser b =
     (if transactions b = [] then tx_root (header b) = hash_zero
      else merkle_root H (map (tx_hash H ser) (transactions b)) = tx_root (header b))"

definition BLOCK_HEADER_SIZE_ESTIMATE :: nat where "BLOCK_HEADER_SIZE_ESTIMATE = 200"

definition block_size_from_txs :: "tx_codec \<Rightarrow> transaction list \<Rightarrow> nat" where
  "block_size_from_txs ser txs =
     fold (\<lambda>s acc. sat_add64 acc s) (map (tx_size ser) txs) BLOCK_HEADER_SIZE_ESTIMATE"

definition block_size :: "tx_codec \<Rightarrow> block \<Rightarrow> nat" where
  "block_size ser b = block_size_from_txs ser (transactions b)"

section \<open>Prefix codes\<close>

text \<open>
  An encoding from which the value can be read off the front of any continuation. The
  signed message and the header preimage are sequences of such fields.
\<close>

locale prefix_code =
  fixes enc :: "'a \<Rightarrow> bytes" and valid :: "'a \<Rightarrow> bool"
  assumes prefix_eq: "valid a \<Longrightarrow> valid b \<Longrightarrow> enc a @ r = enc b @ s \<Longrightarrow> a = b \<and> r = s"
begin

lemma list_prefix_eq:
  "length xs = length ys \<Longrightarrow> list_all valid xs \<Longrightarrow> list_all valid ys \<Longrightarrow>
   concat (map enc xs) @ r = concat (map enc ys) @ s \<Longrightarrow> xs = ys \<and> r = s"
proof (induction xs ys arbitrary: r s rule: list_induct2)
  case (Cons x xs y ys)
  have "x = y \<and> concat (map enc xs) @ r = concat (map enc ys) @ s"
    using Cons.prems by (intro prefix_eq) simp_all
  moreover have "list_all valid xs" "list_all valid ys" using Cons.prems by simp_all
  ultimately show ?case using Cons.IH by blast
qed simp

end

lemma le_bytes_prefix:
  assumes "n < 256 ^ k" "m < 256 ^ k" "le_bytes k n @ r = le_bytes k m @ s"
  shows "n = m \<and> r = s"
proof -
  have "le_bytes k n = le_bytes k m" "r = s" using assms(3) by simp_all
  then have "n mod 256 ^ k = m mod 256 ^ k" by (metis from_le_le_bytes)
  then show ?thesis using \<open>r = s\<close> assms(1,2) by simp
qed

definition len_ok :: "'a list \<Rightarrow> bool" where
  "len_ok xs \<longleftrightarrow> length xs \<le> u32_max"

lemma len32_prefix:
  assumes "len_ok xs" "len_ok ys" "len32 xs @ r = len32 ys @ s"
  shows "length xs = length ys \<and> r = s"
  using assms le_bytes_prefix [of "length xs" 4 "length ys" r s] by (simp add: len32_def len_ok_def width_eqs)

lemma sized_prefix:
  assumes "len_ok xs" "len_ok ys" "len32 xs @ xs @ r = len32 ys @ ys @ s"
  shows "xs = ys \<and> r = s"
proof -
  have "length xs = length ys" "xs @ r = ys @ s" using len32_prefix [OF assms] by blast+
  then show ?thesis by simp
qed

section \<open>Well-formed fields\<close>

definition is32 :: "bytes \<Rightarrow> bool" where
  "is32 b \<longleftrightarrow> length b = 32"

definition wf_member :: "ring_member_ref \<Rightarrow> bool" where
  "wf_member m \<longleftrightarrow> is32 (rm_public_key m) \<and> is32 (rm_commitment m)"

definition wf_siv :: "signing_input_view \<Rightarrow> bool" where
  "wf_siv i \<longleftrightarrow> is32 (siv_key_image i) \<and> is32 (siv_pseudo_output_commitment i) \<and>
     len_ok (siv_ring_members i) \<and> list_all wf_member (siv_ring_members i)"

definition wf_output :: "tx_output \<Rightarrow> bool" where
  "wf_output out \<longleftrightarrow> is32 (stealth_address out) \<and> is32 (tx_public_key out) \<and> is32 (commitment out) \<and>
     len_ok (encrypted_amount out) \<and> len_ok (encrypted_memo out) \<and>
     (case lock_height out of None \<Rightarrow> True | Some h \<Rightarrow> h \<le> u64_max)"

definition wf_tx :: "transaction \<Rightarrow> bool" where
  "wf_tx tx \<longleftrightarrow> fee tx \<le> u64_max \<and> len_ok (inputs tx) \<and> len_ok (outputs tx) \<and>
     len_ok (range_proof tx) \<and> len_ok (extra tx) \<and>
     list_all (\<lambda>i. wf_siv (from_txinput i)) (inputs tx) \<and> list_all wf_output (outputs tx)"

definition wf_header :: "block_header \<Rightarrow> bool" where
  "wf_header h \<longleftrightarrow> length (network_magic h) = 4 \<and> height h \<le> u64_max \<and> timestamp h \<le> u64_max \<and>
     nonce h \<le> u64_max \<and> is32 (prev_hash h) \<and> is32 (tx_root h) \<and> is32 (anchor h) \<and> is32 (target h) \<and>
     is32 (miner_pubkey h) \<and> is32 (supply_commitment h) \<and> is32 (spark_set_root h) \<and> is32 (mw_kernel_root h) \<and>
     (case checkpoint_vote h of None \<Rightarrow> True | Some (n, hash) \<Rightarrow> n \<le> u64_max \<and> is32 hash)"

lemma is32_prefix: "is32 a \<Longrightarrow> is32 b \<Longrightarrow> a @ r = b @ s \<longleftrightarrow> a = b \<and> r = s"
  by (simp add: is32_def)

lemma u64_prefix: "n \<le> u64_max \<Longrightarrow> m \<le> u64_max \<Longrightarrow> le_bytes 8 n @ r = le_bytes 8 m @ s \<longleftrightarrow> n = m \<and> r = s"
  using le_bytes_prefix [of n 8 m r s] by (auto simp: width_eqs)

lemma u64_bytes_eq: "n \<le> u64_max \<Longrightarrow> m \<le> u64_max \<Longrightarrow> le_bytes 8 n = le_bytes 8 m \<longleftrightarrow> n = m"
  using u64_prefix [of n m "[]" "[]"] by simp

interpretation member_code: prefix_code sign_member wf_member
proof
  fix a b :: ring_member_ref and r s :: bytes
  assume "wf_member a" "wf_member b" "sign_member a @ r = sign_member b @ s"
  then show "a = b \<and> r = s" by (simp add: wf_member_def sign_member_def is32_prefix)
qed

interpretation input_code: prefix_code sign_input wf_siv
proof
  fix a b :: signing_input_view and r s :: bytes
  assume wf: "wf_siv a" "wf_siv b" and eq: "sign_input a @ r = sign_input b @ s"
  let ?ra = "concat (map sign_member (siv_ring_members a)) @ r"
    and ?rb = "concat (map sign_member (siv_ring_members b)) @ s"
  have fields: "siv_key_image a = siv_key_image b"
    "siv_pseudo_output_commitment a = siv_pseudo_output_commitment b"
    "len32 (siv_ring_members a) @ ?ra = len32 (siv_ring_members b) @ ?rb"
    using eq wf by (simp_all add: sign_input_def wf_siv_def is32_prefix)
  have "length (siv_ring_members a) = length (siv_ring_members b) \<and> ?ra = ?rb"
    using wf fields(3) by (intro len32_prefix) (simp_all add: wf_siv_def)
  then have "siv_ring_members a = siv_ring_members b \<and> r = s"
    using wf by (intro member_code.list_prefix_eq) (simp_all add: wf_siv_def)
  then show "a = b \<and> r = s" using fields(1,2) by simp
qed

lemma sign_lock_prefix:
  assumes "case l of None \<Rightarrow> True | Some h \<Rightarrow> h \<le> u64_max" "case m of None \<Rightarrow> True | Some h \<Rightarrow> h \<le> u64_max"
    and "sign_lock l @ r = sign_lock m @ s"
  shows "l = m \<and> r = s"
  using assms by (auto simp: sign_lock_def u64_bytes_eq split: option.splits)

interpretation output_code: prefix_code sign_output wf_output
proof
  fix a b :: tx_output and r s :: bytes
  assume wf: "wf_output a" "wf_output b" and eq: "sign_output a @ r = sign_output b @ s"
  have f1: "stealth_address a = stealth_address b" "tx_public_key a = tx_public_key b" "commitment a = commitment b"
    and e1: "len32 (encrypted_amount a) @ encrypted_amount a @ (view_tag a # sign_lock (lock_height a) @
        len32 (encrypted_memo a) @ encrypted_memo a @ r) = len32 (encrypted_amount b) @ encrypted_amount b @
        (view_tag b # sign_lock (lock_height b) @ len32 (encrypted_memo b) @ encrypted_memo b @ s)"
    using eq wf by (simp_all add: sign_output_def wf_output_def is32_prefix)
  have f2: "encrypted_amount a = encrypted_amount b" "view_tag a = view_tag b"
    and e2: "sign_lock (lock_height a) @ len32 (encrypted_memo a) @ encrypted_memo a @ r =
        sign_lock (lock_height b) @ len32 (encrypted_memo b) @ encrypted_memo b @ s"
    using sized_prefix [OF _ _ e1] wf by (simp_all add: wf_output_def)
  have f3: "lock_height a = lock_height b" and e3: "len32 (encrypted_memo a) @ encrypted_memo a @ r =
        len32 (encrypted_memo b) @ encrypted_memo b @ s"
    using sign_lock_prefix [OF _ _ e2] wf by (simp_all add: wf_output_def)
  have "encrypted_memo a = encrypted_memo b \<and> r = s"
    using wf e3 by (intro sized_prefix) (simp_all add: wf_output_def)
  then show "a = b \<and> r = s" using f1 f2 f3 by simp
qed

lemma vote_bytes_prefix:
  assumes "case v of None \<Rightarrow> True | Some (n, hash) \<Rightarrow> n \<le> u64_max \<and> is32 hash"
    "case w of None \<Rightarrow> True | Some (n, hash) \<Rightarrow> n \<le> u64_max \<and> is32 hash"
    and "vote_bytes v @ r = vote_bytes w @ s"
  shows "v = w \<and> r = s"
  using assms by (auto simp: vote_bytes_def u64_bytes_eq is32_prefix split: option.splits)

lemma tx_type_byte_inject: "tx_type_byte a = tx_type_byte b \<longleftrightarrow> a = b"
  by (cases a; cases b) simp_all

definition tx_signing_data :: "transaction \<Rightarrow> bytes" where
  "tx_signing_data tx = signing_data (version tx) (tx_type tx) (fee tx)
     (map from_txinput (inputs tx)) (outputs tx) (range_proof tx) (extra tx)"

lemma signing_data_inject:
  assumes wf: "wf_tx a" "wf_tx b" and eq: "tx_signing_data a = tx_signing_data b"
  shows "version a = version b \<and> tx_type a = tx_type b \<and> fee a = fee b \<and> outputs a = outputs b \<and>
    range_proof a = range_proof b \<and> extra a = extra b \<and>
    map from_txinput (inputs a) = map from_txinput (inputs b)"
proof -
  let ?ia = "map from_txinput (inputs a)" and ?ib = "map from_txinput (inputs b)"
  define ta where "ta = len32 (range_proof a) @ range_proof a @ len32 (extra a) @ extra a"
  define tb where "tb = len32 (range_proof b) @ range_proof b @ len32 (extra b) @ extra b"
  have h: "version a = version b" "tx_type a = tx_type b"
    and e0: "le_bytes 8 (fee a) @ len32 ?ia @ concat (map sign_input ?ia) @
      len32 (outputs a) @ concat (map sign_output (outputs a)) @ ta =
      le_bytes 8 (fee b) @ len32 ?ib @ concat (map sign_input ?ib) @
      len32 (outputs b) @ concat (map sign_output (outputs b)) @ tb"
    using eq by (simp_all add: tx_signing_data_def signing_data_def tx_type_byte_inject ta_def tb_def)
  have f: "fee a = fee b" and e1: "len32 ?ia @ concat (map sign_input ?ia) @
      len32 (outputs a) @ concat (map sign_output (outputs a)) @ ta = len32 ?ib @ concat (map sign_input ?ib) @
      len32 (outputs b) @ concat (map sign_output (outputs b)) @ tb"
    using e0 wf u64_prefix by (metis wf_tx_def)+
  have lens: "len_ok ?ia" "len_ok ?ib" using wf by (simp_all add: wf_tx_def len_ok_def)
  have "?ia = ?ib \<and> len32 (outputs a) @ concat (map sign_output (outputs a)) @ ta =
      len32 (outputs b) @ concat (map sign_output (outputs b)) @ tb"
    using len32_prefix [OF lens e1] wf
    by (intro input_code.list_prefix_eq) (simp_all add: wf_tx_def list_all_iff)
  then have i: "?ia = ?ib" and e2: "len32 (outputs a) @ concat (map sign_output (outputs a)) @ ta =
      len32 (outputs b) @ concat (map sign_output (outputs b)) @ tb" by blast+
  have "outputs a = outputs b \<and> ta = tb"
    using len32_prefix [OF _ _ e2] wf by (intro output_code.list_prefix_eq) (simp_all add: wf_tx_def)
  then have out: "outputs a = outputs b"
    and e3: "len32 (range_proof a) @ range_proof a @ len32 (extra a) @ extra a =
      len32 (range_proof b) @ range_proof b @ len32 (extra b) @ extra b" by (simp_all add: ta_def tb_def)
  have p: "range_proof a = range_proof b \<and> len32 (extra a) @ extra a = len32 (extra b) @ extra b"
    using wf e3 by (intro sized_prefix) (simp_all add: wf_tx_def)
  then have "extra a = extra b" using sized_prefix [of "extra a" "extra b" "[]" "[]"] wf by (simp add: wf_tx_def)
  then show ?thesis using h f i out p by simp
qed

lemma header_data_inject:
  assumes wf: "wf_header a" "wf_header b" and eq: "header_data a = header_data b"
  shows "a = b"
proof -
  have fixed: "network_magic a = network_magic b" "hdr_version a = hdr_version b" "height a = height b"
    "timestamp a = timestamp b" "prev_hash a = prev_hash b" "tx_root a = tx_root b" "anchor a = anchor b"
    "algorithm a = algorithm b" "nonce a = nonce b" "target a = target b" "miner_pubkey a = miner_pubkey b"
    "supply_commitment a = supply_commitment b"
    and tail: "vote_bytes (checkpoint_vote a) @ spark_set_root a @ mw_kernel_root a =
      vote_bytes (checkpoint_vote b) @ spark_set_root b @ mw_kernel_root b"
    using eq wf by (simp_all add: header_data_def wf_header_def is32_def u64_bytes_eq)
  have v: "checkpoint_vote a = checkpoint_vote b \<and> spark_set_root a @ mw_kernel_root a = spark_set_root b @ mw_kernel_root b"
    using wf tail by (intro vote_bytes_prefix) (simp_all add: wf_header_def)
  then have "spark_set_root a = spark_set_root b" "mw_kernel_root a = mw_kernel_root b"
    using wf by (simp_all add: wf_header_def is32_def)
  then show ?thesis using fixed v by simp
qed

section \<open>Properties\<close>

text \<open>
  C22 (what a signature covers). For well-formed transactions whose signed messages do not collide, equal signing
  hashes mean equal version, type, fee, outputs, range proof and extra field, and for every input
  equal key image, commitment and ring: nothing but the signatures is left open, and no byte can move between
  fields.
\<close>

theorem signing_hash_commits:
  assumes "wf_tx a" "wf_tx b" "inj_on H {tx_signing_data a, tx_signing_data b}"
    and "signing_hash H a = signing_hash H b"
  shows "version a = version b \<and> tx_type a = tx_type b \<and> fee a = fee b \<and> outputs a = outputs b \<and>
    range_proof a = range_proof b \<and> extra a = extra b \<and>
    map from_txinput (inputs a) = map from_txinput (inputs b)"
proof (rule signing_data_inject [OF assms(1,2)])
  have "H (tx_signing_data a) = H (tx_signing_data b)"
    using assms(4) by (simp add: signing_hash_def compute_signing_hash_def hash_concat_def tx_signing_data_def)
  then show "tx_signing_data a = tx_signing_data b" using inj_onD [OF assms(3)] by blast
qed

definition sample_tx :: transaction where
  "sample_tx = \<lparr>version = 1, tx_type = Transfer, inputs = [], outputs = [], fee = 5, range_proof = [], extra = [9]\<rparr>"

theorem signing_hash_commits_witness:
  "signing_hash id sample_tx \<noteq> signing_hash id (sample_tx\<lparr>fee := 6\<rparr>)"
proof
  assume eq: "signing_hash id sample_tx = signing_hash id (sample_tx\<lparr>fee := 6\<rparr>)"
  have "wf_tx sample_tx" "wf_tx (sample_tx\<lparr>fee := 6\<rparr>)"
    by (simp_all add: wf_tx_def sample_tx_def len_ok_def width_eqs)
  from signing_hash_commits [OF this _ eq] show False by (simp add: sample_tx_def)
qed

text \<open>
  C23 (what a block hash covers). Headers with fields of their fixed widths and no colliding
  preimages have equal hashes only if they are equal in every field.
\<close>

theorem header_hash_commits:
  assumes "wf_header a" "wf_header b" "inj_on H {header_data a, header_data b}" "header_hash H a = header_hash H b"
  shows "a = b"
proof (rule header_data_inject [OF assms(1,2)])
  have "H (header_data a) = H (header_data b)" using assms(4) by (simp add: header_hash_def hash_concat_def)
  then show "header_data a = header_data b" using inj_onD [OF assms(3)] by blast
qed

definition sample_header :: block_header where
  "sample_header = \<lparr>network_magic = MAINNET_MAGIC, hdr_version = 1, height = 0, timestamp = 1704067200,
     prev_hash = hash_zero, tx_root = hash_zero, anchor = hash_zero, algorithm = 0, nonce = 0,
     target = max_target, miner_pubkey = hash_zero, supply_commitment = hash_zero,
     checkpoint_vote = None, spark_set_root = hash_zero, mw_kernel_root = hash_zero\<rparr>"

theorem header_hash_commits_witness:
  "header_hash id sample_header \<noteq> header_hash id (sample_header\<lparr>nonce := 1\<rparr>)"
proof
  assume eq: "header_hash id sample_header = header_hash id (sample_header\<lparr>nonce := 1\<rparr>)"
  have "wf_header sample_header" "wf_header (sample_header\<lparr>nonce := 1\<rparr>)"
    by (simp_all add: wf_header_def sample_header_def is32_def hash_zero_def max_target_def
        MAINNET_MAGIC_def width_eqs)
  from header_hash_commits [OF this _ eq] show False by (simp add: sample_header_def)
qed

end
