(* ===== verification/Utxo_Set.thy ===== *)
theory Utxo_Set
  imports Transactions "HOL-Library.List_Lexorder" "HOL-Library.Product_Lexorder"
begin

text \<open>
  The set of outputs and spent key images: \<^verbatim>\<open>src/storage/utxos.rs\<close>. A
  \<^verbatim>\<open>HashMap\<close> is a map, a \<^verbatim>\<open>BTreeSet\<close> of output keys is a set that is
  listed in the order of its keys. The on-disk index the set falls back on is the record
  \<open>database\<close>, whose two predicates say which reads and writes succeed.

  The lemmas show that the secondary indexes always agree with the primary maps, that
  disconnecting a block undoes connecting it, and that locators resolve exactly the
  outputs of the canonical index.
\<close>

named_theorems utxo_defs \<open>the state-changing operations of the output set\<close>

section \<open>State\<close>

record output_ref =
  or_tx_hash :: hash
  or_index :: u8
  or_output :: tx_output
  or_height :: nat
  or_is_coinbase :: bool

type_synonym output_key = "hash \<times> u8"

record locator_output =
  lo_public_key :: public_key
  lo_commitment :: bytes
  lo_height :: nat
  lo_is_coinbase :: bool
  lo_lock_height :: "nat option"

record output_index_entry =
  oie_commitment :: bytes
  oie_height :: nat
  oie_is_coinbase :: bool
  oie_lock_height :: "nat option"

record database =
  db_key_images :: "key_image set"
  db_output_index :: "bytes \<rightharpoonup> output_index_entry"
  db_write_ok :: "bytes \<Rightarrow> bool"
  db_read_ok :: "bytes \<Rightarrow> bool"
  db_flush_ok :: bool

type_synonym bucket_index = "nat \<rightharpoonup> output_key set"

record utxo_set =
  utxos :: "output_key \<rightharpoonup> output_ref"
  spent_images :: "key_image set"
  height_index :: bucket_index
  locator_index :: bucket_index
  locator_outputs :: "output_key \<rightharpoonup> locator_output"
  stealth_index :: "bytes \<rightharpoonup> output_key"
  output_index :: "bytes \<rightharpoonup> output_index_entry"
  utxo_db :: "database option"
  total_outputs_ever :: nat
  reorg_disconnects_total :: nat

definition utxo_new :: utxo_set where
  "utxo_new = \<lparr>utxos = Map.empty, spent_images = {}, height_index = Map.empty,
     locator_index = Map.empty, locator_outputs = Map.empty, stealth_index = Map.empty,
     output_index = Map.empty, utxo_db = None, total_outputs_ever = 0, reorg_disconnects_total = 0\<rparr>"

section \<open>Operations\<close>

definition bucket_insert :: "nat \<Rightarrow> output_key \<Rightarrow> bucket_index \<Rightarrow> bucket_index" where
  "bucket_insert h k idx = idx(h \<mapsto> insert k (case idx h of None \<Rightarrow> {} | Some S \<Rightarrow> S))"

definition bucket_remove :: "nat \<Rightarrow> output_key \<Rightarrow> bucket_index \<Rightarrow> bucket_index" where
  "bucket_remove h k idx = (case idx h of None \<Rightarrow> idx
     | Some S \<Rightarrow> if S - {k} = {} then idx(h := None) else idx(h \<mapsto> S - {k}))"

definition or_insert :: "'a \<Rightarrow> 'b \<Rightarrow> ('a \<rightharpoonup> 'b) \<Rightarrow> ('a \<rightharpoonup> 'b)" where
  "or_insert x v m = (case m x of None \<Rightarrow> m(x \<mapsto> v) | Some _ \<Rightarrow> m)"

definition locator_entry :: "tx_output \<Rightarrow> nat \<Rightarrow> bool \<Rightarrow> locator_output" where
  "locator_entry out h cb = \<lparr>lo_public_key = stealth_address out, lo_commitment = commitment out,
     lo_height = h, lo_is_coinbase = cb, lo_lock_height = lock_height out\<rparr>"

definition index_entry :: "tx_output \<Rightarrow> nat \<Rightarrow> bool \<Rightarrow> output_index_entry" where
  "index_entry out h cb = \<lparr>oie_commitment = commitment out, oie_height = h, oie_is_coinbase = cb,
     oie_lock_height = lock_height out\<rparr>"

definition add_output_ext :: "hash \<Rightarrow> u8 \<Rightarrow> tx_output \<Rightarrow> nat \<Rightarrow> bool \<Rightarrow> utxo_set \<Rightarrow> utxo_set" where [utxo_defs]:
  "add_output_ext th i out h cb s = s\<lparr>
     utxos := (utxos s)((th, i) \<mapsto> \<lparr>or_tx_hash = th, or_index = i, or_output = out,
                                     or_height = h, or_is_coinbase = cb\<rparr>),
     height_index := bucket_insert h (th, i) (height_index s),
     locator_index := bucket_insert h (th, i) (locator_index s),
     locator_outputs := (locator_outputs s)((th, i) \<mapsto> locator_entry out h cb),
     stealth_index := or_insert (stealth_address out) (th, i) (stealth_index s),
     output_index := or_insert (stealth_address out) (index_entry out h cb) (output_index s),
     total_outputs_ever := as_u64 (total_outputs_ever s + 1)\<rparr>"

definition add_output :: "hash \<Rightarrow> u8 \<Rightarrow> tx_output \<Rightarrow> nat \<Rightarrow> utxo_set \<Rightarrow> utxo_set" where [utxo_defs]:
  "add_output th i out h s = add_output_ext th i out h False s"

definition spend_output :: "hash \<Rightarrow> u8 \<Rightarrow> key_image \<Rightarrow> utxo_set \<Rightarrow> bool \<times> utxo_set" where [utxo_defs]:
  "spend_output th i ki s =
     (if ki \<in> spent_images s then (False, s)
      else let s = s\<lparr>spent_images := insert ki (spent_images s)\<rparr>; k = (th, i) in
        case utxos s k of
          None \<Rightarrow> (False, s)
        | Some r \<Rightarrow> let a = stealth_address (or_output r) in
            (True, s\<lparr>utxos := (utxos s)(k := None),
                     height_index := bucket_remove (or_height r) k (height_index s),
                     stealth_index := (if stealth_index s a = Some k then (stealth_index s)(a := None)
                                       else stealth_index s)\<rparr>))"

definition mark_key_image_spent :: "key_image \<Rightarrow> utxo_set \<Rightarrow> bool \<times> utxo_set" where [utxo_defs]:
  "mark_key_image_spent ki s =
     (if ki \<in> spent_images s then (False, s)
      else (True, s\<lparr>spent_images := insert ki (spent_images s)\<rparr>))"

definition contains_key_image :: "key_image \<Rightarrow> utxo_set \<Rightarrow> bool" where
  "contains_key_image ki s \<longleftrightarrow> ki \<in> spent_images s"

definition get_output :: "hash \<Rightarrow> u8 \<Rightarrow> utxo_set \<Rightarrow> output_ref option" where
  "get_output th i s = utxos s (th, i)"

definition get_output_by_stealth :: "bytes \<Rightarrow> utxo_set \<Rightarrow> output_ref option" where
  "get_output_by_stealth a s = (case stealth_index s a of None \<Rightarrow> None | Some k \<Rightarrow> utxos s k)"

definition get_output_index_entry :: "bytes \<Rightarrow> utxo_set \<Rightarrow> output_index_entry option" where
  "get_output_index_entry a s = (case output_index s a of
       Some e \<Rightarrow> Some e
     | None \<Rightarrow> (case utxo_db s of
           Some d \<Rightarrow> if db_read_ok d a then db_output_index d a else None
         | None \<Rightarrow> None))"

definition set_database :: "database \<Rightarrow> utxo_set \<Rightarrow> utxo_set" where [utxo_defs]:
  "set_database d s = s\<lparr>utxo_db := Some d\<rparr>"

definition evict_old_outputs :: "nat \<Rightarrow> nat \<Rightarrow> utxo_set \<Rightarrow> utxo_set" where [utxo_defs]:
  "evict_old_outputs cur keep s =
     (if cur \<le> keep then s
      else s\<lparr>output_index := (\<lambda>a. case output_index s a of
               Some e \<Rightarrow> if cur - keep \<le> oie_height e then Some e else None
             | None \<Rightarrow> None)\<rparr>)"

definition output_count :: "utxo_set \<Rightarrow> nat" where
  "output_count s = card (dom (utxos s))"

definition spent_key_image_count :: "utxo_set \<Rightarrow> nat" where
  "spent_key_image_count s = card (spent_images s)"

definition locator_address :: "output_ref option \<Rightarrow> locator_output option \<Rightarrow> bytes option" where
  "locator_address r l = (case r of
       Some r \<Rightarrow> Some (stealth_address (or_output r))
     | None \<Rightarrow> map_option lo_public_key l)"

definition db_remove_index :: "bytes \<Rightarrow> database \<Rightarrow> database" where
  "db_remove_index a d = (if db_write_ok d a then d\<lparr>db_output_index := (db_output_index d)(a := None)\<rparr> else d)"

definition remove_output :: "hash \<Rightarrow> u8 \<Rightarrow> utxo_set \<Rightarrow> output_ref option \<times> utxo_set" where [utxo_defs]:
  "remove_output th i s = (let k = (th, i); l = locator_outputs s k; r = utxos s k;
     s = s\<lparr>locator_outputs := (locator_outputs s)(k := None),
           locator_index := (case l of None \<Rightarrow> locator_index s
                             | Some l \<Rightarrow> bucket_remove (lo_height l) k (locator_index s)),
           utxos := (utxos s)(k := None),
           height_index := (case r of None \<Rightarrow> height_index s
                            | Some r \<Rightarrow> bucket_remove (or_height r) k (height_index s))\<rparr> in
     case locator_address r l of
       None \<Rightarrow> (r, s)
     | Some a \<Rightarrow>
         let s = (if stealth_index s a = Some k
                  then s\<lparr>stealth_index := (stealth_index s)(a := None),
                         output_index := (output_index s)(a := None),
                         utxo_db := map_option (db_remove_index a) (utxo_db s)\<rparr>
                  else s) in
         (r, s\<lparr>reorg_disconnects_total := sat_add64 (reorg_disconnects_total s) 1\<rparr>))"

definition remove_key_image :: "key_image \<Rightarrow> utxo_set \<Rightarrow> bool \<times> utxo_set" where [utxo_defs]:
  "remove_key_image ki s = (ki \<in> spent_images s, s\<lparr>spent_images := spent_images s - {ki}\<rparr>)"

text \<open>A \<^verbatim>\<open>BTreeMap::range\<close> visits the occupied heights in ascending order.\<close>

definition index_range :: "nat \<Rightarrow> nat \<Rightarrow> bucket_index \<Rightarrow> (nat \<times> output_key set) list" where
  "index_range lo hi idx = List.map_filter (\<lambda>h. map_option (Pair h) (idx h)) [lo ..< Suc hi]"

definition outputs_in_range :: "nat \<Rightarrow> nat \<Rightarrow> utxo_set \<Rightarrow> output_ref list" where
  "outputs_in_range lo hi s = List.map_filter (utxos s)
     (concat (map (\<lambda>(_, ks). sorted_list_of_set ks) (index_range lo hi (height_index s))))"

definition output_distribution :: "nat \<Rightarrow> utxo_set \<Rightarrow> (nat \<times> nat) list" where
  "output_distribution up_to s = map (\<lambda>(h, ks). (h, as_u32 (card ks))) (index_range 0 up_to (locator_index s))"

record output_locator =
  loc_height :: nat
  loc_ordinal :: nat

record resolved_decoy =
  rd_locator :: output_locator
  rd_public_key :: public_key
  rd_commitment :: bytes
  rd_height :: nat
  rd_is_coinbase :: bool
  rd_lock_height :: "nat option"

definition resolved_of :: "output_locator \<Rightarrow> locator_output \<Rightarrow> resolved_decoy" where
  "resolved_of l out = \<lparr>rd_locator = l, rd_public_key = lo_public_key out, rd_commitment = lo_commitment out,
     rd_height = lo_height out, rd_is_coinbase = lo_is_coinbase out, rd_lock_height = lo_lock_height out\<rparr>"

definition resolve_locator :: "utxo_set \<Rightarrow> output_locator \<Rightarrow> resolved_decoy result" where
  "resolve_locator s l = (case locator_index s (loc_height l) of
       None \<Rightarrow> Inl (InvalidState ''output locator references unknown height'')
     | Some ks \<Rightarrow>
         if loc_ordinal l < card ks then
           (case locator_outputs s (sorted_list_of_set ks ! loc_ordinal l) of
              None \<Rightarrow> Inl (InvalidState ''output locator has no canonical output'')
            | Some out \<Rightarrow> Inr (resolved_of l out))
         else Inl (InvalidState ''output locator ordinal is outside the bucket''))"

fun resolve_from :: "utxo_set \<Rightarrow> output_locator set \<Rightarrow> output_locator list \<Rightarrow> resolved_decoy list result" where
  "resolve_from s seen [] = Inr []"
| "resolve_from s seen (l # ls) =
     (if l \<in> seen then Inl (InvalidState ''duplicate output locator'')
      else case resolve_locator s l of
          Inl e \<Rightarrow> Inl e
        | Inr r \<Rightarrow> (case resolve_from s (insert l seen) ls of Inl e \<Rightarrow> Inl e | Inr rs \<Rightarrow> Inr (r # rs)))"

definition resolve_output_locators :: "utxo_set \<Rightarrow> output_locator list \<Rightarrow> resolved_decoy list result" where
  "resolve_output_locators s ls = resolve_from s {} ls"

definition height_stats :: "utxo_set \<Rightarrow> nat \<times> nat \<times> nat" where
  "height_stats s = (let D = dom (height_index s) in
     if D = {} then (0, 0, 0) else (Min D, Max D, card D))"

definition utxo_output_bytes :: "utxo_set \<Rightarrow> output_key \<Rightarrow> bytes" where
  "utxo_output_bytes s k = fst k @ [snd k] @
     (case locator_outputs s k of None \<Rightarrow> [] | Some lo \<Rightarrow> lo_public_key lo @ lo_commitment lo)"

definition commitment_hash :: "(bytes \<Rightarrow> hash) \<Rightarrow> utxo_set \<Rightarrow> hash" where
  "commitment_hash H s = (let
     keys = concat (map (\<lambda>h. sorted_list_of_set (the (locator_index s h)))
                        (sorted_list_of_set (dom (locator_index s))));
     output_digest = H (concat (map (utxo_output_bytes s) keys));
     ki_digest = H (concat (sorted_list_of_set (spent_images s)))
   in hash_domain H (ascii ''COINCYNC_UTXO_COMMITMENT_v1'') (output_digest @ ki_digest))"

definition checkpoint :: "utxo_set \<Rightarrow> unit result \<times> utxo_set" where [utxo_defs]:
  "checkpoint s = (case utxo_db s of
       None \<Rightarrow> (Inr (), s)
     | Some d \<Rightarrow>
         let d' = d\<lparr>db_key_images := db_key_images d \<union> {ki \<in> spent_images s. db_write_ok d ki},
                    db_output_index := (\<lambda>a. if output_index s a \<noteq> None \<and> db_write_ok d a
                                            then output_index s a else db_output_index d a)\<rparr>;
             failed = ((\<exists>ki\<in>spent_images s. \<not> db_write_ok d ki) \<or>
                       (\<exists>a\<in>dom (output_index s). \<not> db_write_ok d a)) in
         (if \<not> db_flush_ok d then Inl (DatabaseError ''flush'')
          else if failed then Inl (DatabaseError ''R-70: checkpoint reported persistence failures'')
          else Inr (), s\<lparr>utxo_db := Some d'\<rparr>))"

section \<open>Batches\<close>

record utxo_batch =
  adds :: "(hash \<times> u8 \<times> tx_output \<times> nat \<times> bool) list"
  batch_key_images :: "key_image list"
  removes :: "output_key list"
  key_image_removals :: "key_image list"

definition batch_new :: utxo_batch where
  "batch_new = \<lparr>adds = [], batch_key_images = [], removes = [], key_image_removals = []\<rparr>"

definition batch_is_empty :: "utxo_batch \<Rightarrow> bool" where
  "batch_is_empty b \<longleftrightarrow> adds b = [] \<and> batch_key_images b = [] \<and> removes b = [] \<and> key_image_removals b = []"

definition batch_len :: "utxo_batch \<Rightarrow> nat" where
  "batch_len b = length (adds b) + length (batch_key_images b) + length (removes b) +
     length (key_image_removals b)"

text \<open>One pass of a batch over the set, counting the operations that had an effect.\<close>

fun count_pass :: "('x \<Rightarrow> utxo_set \<Rightarrow> bool \<times> utxo_set) \<Rightarrow> 'x list \<Rightarrow> nat \<times> utxo_set \<Rightarrow> nat \<times> utxo_set" where
  "count_pass f [] (c, s) = (c, s)"
| "count_pass f (x # xs) (c, s) = (let (changed, s') = f x s in
     count_pass f xs (if changed then c + 1 else c, s'))"

definition apply_batch :: "utxo_batch \<Rightarrow> utxo_set \<Rightarrow> nat \<times> utxo_set" where
  "apply_batch b s =
     count_pass remove_key_image (key_image_removals b)
       (count_pass (\<lambda>(th, i) s. let (r, s') = remove_output th i s in (r \<noteq> None, s')) (removes b)
         (count_pass mark_key_image_spent (batch_key_images b)
           (count_pass (\<lambda>(th, i, out, h, cb) s. (True, add_output_ext th i out h cb s)) (adds b) (0, s))))"

definition tx_adds :: "(bytes \<Rightarrow> hash) \<Rightarrow> tx_codec \<Rightarrow> nat \<Rightarrow> transaction \<Rightarrow> (hash \<times> u8 \<times> tx_output \<times> nat \<times> bool) list" where
  "tx_adds H ser h tx =
     map (\<lambda>(i, out). (tx_hash H ser tx, of_nat i, out, h, is_coinbase tx)) (enumerate 0 (outputs tx))"

definition batch_from_block :: "(bytes \<Rightarrow> hash) \<Rightarrow> tx_codec \<Rightarrow> nat \<Rightarrow> transaction list \<Rightarrow> utxo_batch" where
  "batch_from_block H ser h txs = batch_new\<lparr>
     adds := concat (map (tx_adds H ser h) txs),
     batch_key_images := concat (map (\<lambda>tx. if is_coinbase tx then [] else key_images tx) txs)\<rparr>"

definition batch_disconnect_block :: "(bytes \<Rightarrow> hash) \<Rightarrow> tx_codec \<Rightarrow> transaction list \<Rightarrow> utxo_batch" where
  "batch_disconnect_block H ser txs = batch_new\<lparr>
     removes := concat (map (\<lambda>tx. map (\<lambda>i. (tx_hash H ser tx, of_nat i)) [0 ..< length (outputs tx)]) txs),
     key_image_removals := concat (map (\<lambda>tx. if is_coinbase tx then [] else key_images tx) txs)\<rparr>"

definition utxo_count_violation :: "nat \<Rightarrow> nat \<Rightarrow> string option" where
  "utxo_count_violation live ever = (if ever < live then Some ''live-exceeds-ever'' else None)"

definition utxo_spend_violation :: "nat \<Rightarrow> nat \<Rightarrow> string option" where
  "utxo_spend_violation spent ever = (if ever < spent then Some ''spent-exceeds-ever'' else None)"

section \<open>The indexes agree with the primary maps\<close>

text \<open>
  \<open>index_ok idx ht\<close> says that the bucketed index \<open>idx\<close> lists exactly the keys that
  \<open>ht\<close> places at a height and has no empty bucket, which the operations remove at once.
  Such an index is determined by \<open>ht\<close>.
\<close>

definition index_ok :: "bucket_index \<Rightarrow> (output_key \<rightharpoonup> nat) \<Rightarrow> bool" where
  "index_ok idx ht \<longleftrightarrow> (\<forall>h. case idx h of
       None \<Rightarrow> (\<forall>k. ht k \<noteq> Some h)
     | Some S \<Rightarrow> S \<noteq> {} \<and> S = {k. ht k = Some h})"

definition bucket :: "bucket_index \<Rightarrow> nat \<Rightarrow> output_key set" where
  "bucket idx h = (case idx h of None \<Rightarrow> {} | Some S \<Rightarrow> S)"

lemma index_ok_bucket: "index_ok idx ht \<longleftrightarrow>
    (\<forall>h. bucket idx h = {k. ht k = Some h} \<and> (idx h = None \<longleftrightarrow> bucket idx h = {}))"
  unfolding index_ok_def bucket_def by (rule all_cong1) (auto split: option.splits)

lemma index_ok_mem: "index_ok idx ht \<Longrightarrow> (\<exists>S. idx h = Some S \<and> k \<in> S) \<longleftrightarrow> ht k = Some h"
proof -
  assume "index_ok idx ht"
  then have "k \<in> bucket idx h \<longleftrightarrow> ht k = Some h" unfolding index_ok_bucket by blast
  then show ?thesis by (auto simp: bucket_def split: option.splits)
qed

lemma index_ok_empty: "index_ok Map.empty Map.empty"
  by (simp add: index_ok_def)

lemma index_ok_insert:
  assumes "index_ok idx ht" "ht k = None"
  shows "index_ok (bucket_insert h k idx) (ht(k \<mapsto> h))"
proof -
  have b: "bucket (bucket_insert h k idx) = (bucket idx)(h := insert k (bucket idx h))"
    "\<And>g. bucket_insert h k idx g = None \<longleftrightarrow> g \<noteq> h \<and> idx g = None"
    by (auto simp: bucket_insert_def bucket_def fun_eq_iff)
  show ?thesis using assms unfolding index_ok_bucket b by auto
qed

lemma index_ok_remove:
  assumes "index_ok idx ht" "ht k = Some h"
  shows "index_ok (bucket_remove h k idx) (ht(k := None))"
proof -
  have b: "bucket (bucket_remove h k idx) = (bucket idx)(h := bucket idx h - {k})"
    "\<And>g. bucket_remove h k idx g = None \<longleftrightarrow> (if g = h then bucket idx h - {k} = {} else idx g = None)"
    by (auto simp: bucket_remove_def bucket_def fun_eq_iff split: option.splits if_splits)
  show ?thesis using assms unfolding index_ok_bucket b by auto
qed

lemma index_ok_unique: "index_ok idx ht \<Longrightarrow> index_ok idx' ht \<Longrightarrow> idx = idx'"
proof (rule ext)
  fix h
  assume "index_ok idx ht" "index_ok idx' ht"
  then have "bucket idx h = bucket idx' h" "idx h = None \<longleftrightarrow> idx' h = None"
    unfolding index_ok_bucket by metis+
  then show "idx h = idx' h" by (auto simp: bucket_def split: option.splits)
qed

definition live_heights :: "utxo_set \<Rightarrow> output_key \<rightharpoonup> nat" where
  "live_heights s k = map_option or_height (utxos s k)"

definition locator_heights :: "utxo_set \<Rightarrow> output_key \<rightharpoonup> nat" where
  "locator_heights s k = map_option lo_height (locator_outputs s k)"

definition output_ok :: "utxo_set \<Rightarrow> output_key \<Rightarrow> output_ref \<Rightarrow> bool" where
  "output_ok s k r \<longleftrightarrow> k = (or_tx_hash r, or_index r) \<and>
     locator_outputs s k = Some (locator_entry (or_output r) (or_height r) (or_is_coinbase r))"

definition indexes_inv :: "utxo_set \<Rightarrow> bool" where
  "indexes_inv s \<longleftrightarrow> index_ok (height_index s) (live_heights s) \<and>
     index_ok (locator_index s) (locator_heights s) \<and>
     (\<forall>k r. utxos s k = Some r \<longrightarrow> output_ok s k r) \<and>
     (\<forall>a k. stealth_index s a = Some k \<longrightarrow>
        (\<exists>r. utxos s k = Some r \<and> stealth_address (or_output r) = a))"

text \<open>
  The two running totals differ by the number of outputs of the chain, whatever was
  connected and disconnected before.
\<close>

definition counts_inv :: "utxo_set \<Rightarrow> bool" where
  "counts_inv s \<longleftrightarrow> finite (dom (locator_outputs s)) \<and> total_outputs_ever s \<le> u64_max \<and>
     card (dom (locator_outputs s)) + reorg_disconnects_total s = total_outputs_ever s"

definition utxo_inv :: "utxo_set \<Rightarrow> bool" where
  "utxo_inv s \<longleftrightarrow> indexes_inv s \<and> counts_inv s"

lemma utxo_inv_new: "utxo_inv utxo_new"
  by (simp add: utxo_inv_def indexes_inv_def counts_inv_def utxo_new_def index_ok_def
      live_heights_def locator_heights_def)

lemma indexes_invD:
  assumes "indexes_inv s"
  shows "index_ok (height_index s) (live_heights s)" "index_ok (locator_index s) (locator_heights s)"
    "utxos s k = Some r \<Longrightarrow> output_ok s k r"
    "stealth_index s a = Some k \<Longrightarrow> \<exists>r. utxos s k = Some r \<and> stealth_address (or_output r) = a"
  using assms unfolding indexes_inv_def by blast+

lemma indexes_inv_cong:
  assumes "utxos t = utxos s" "height_index t = height_index s" "locator_index t = locator_index s"
    "locator_outputs t = locator_outputs s" "stealth_index t = stealth_index s"
  shows "indexes_inv t = indexes_inv s"
proof -
  have "live_heights t = live_heights s" "locator_heights t = locator_heights s"
    "output_ok t = output_ok s"
    using assms by (auto simp: live_heights_def locator_heights_def output_ok_def fun_eq_iff)
  then show ?thesis using assms by (simp add: indexes_inv_def)
qed

lemma add_output_inv:
  assumes "indexes_inv s" "locator_outputs s (th, i) = None"
  shows "indexes_inv (add_output_ext th i out h cb s)"
proof -
  let ?s = "add_output_ext th i out h cb s"
  have new: "utxos s (th, i) = None"
    using assms by (cases "utxos s (th, i)") (auto simp: indexes_inv_def output_ok_def)
  have hts: "live_heights ?s = (live_heights s)((th, i) \<mapsto> h)"
    "locator_heights ?s = (locator_heights s)((th, i) \<mapsto> h)"
    by (auto simp: live_heights_def locator_heights_def add_output_ext_def locator_entry_def)
  have "index_ok (height_index ?s) (live_heights ?s)" "index_ok (locator_index ?s) (locator_heights ?s)"
    unfolding hts using assms new
    by (auto simp: add_output_ext_def indexes_inv_def live_heights_def locator_heights_def intro!: index_ok_insert)
  moreover have "\<forall>k r. utxos ?s k = Some r \<longrightarrow> output_ok ?s k r"
    using assms(1) by (auto simp: add_output_ext_def indexes_inv_def output_ok_def)
  moreover have "\<forall>a k. stealth_index ?s a = Some k \<longrightarrow>
      (\<exists>r. utxos ?s k = Some r \<and> stealth_address (or_output r) = a)"
  proof (intro allI impI)
    fix a k
    assume k: "stealth_index ?s a = Some k"
    show "\<exists>r. utxos ?s k = Some r \<and> stealth_address (or_output r) = a"
    proof (cases "stealth_index s a = Some k")
      case True
      then have "\<exists>r. utxos s k = Some r \<and> stealth_address (or_output r) = a"
        by (rule indexes_invD(4) [OF assms(1)])
      moreover from this have "k \<noteq> (th, i)" using new by auto
      ultimately show ?thesis by (simp add: add_output_ext_def)
    next
      case False
      then have "a = stealth_address out \<and> k = (th, i)"
        using k by (auto simp: add_output_ext_def or_insert_def split: option.splits if_splits)
      then show ?thesis by (simp add: add_output_ext_def)
    qed
  qed
  ultimately show ?thesis by (simp add: indexes_inv_def)
qed

text \<open>Taking a live output out of the maps and its index entries with it.\<close>

lemma unlink_output_inv:
  assumes inv: "indexes_inv s" and r: "utxos s k = Some r"
    and t: "utxos t = (utxos s)(k := None)" "height_index t = bucket_remove (or_height r) k (height_index s)"
    and st: "stealth_index t = (if stealth_index s a = Some k then (stealth_index s)(a := None) else stealth_index s)"
    and a: "a = stealth_address (or_output r)"
    and loc: "index_ok (locator_index t) (locator_heights t)"
      "\<And>j. j \<noteq> k \<Longrightarrow> locator_outputs t j = locator_outputs s j"
  shows "indexes_inv t"
proof -
  have "live_heights t = (live_heights s)(k := None)"
    using t by (auto simp: live_heights_def)
  then have "index_ok (height_index t) (live_heights t)"
    using t indexes_invD(1) [OF inv] r by (simp add: index_ok_remove live_heights_def)
  moreover have "\<forall>j r. utxos t j = Some r \<longrightarrow> output_ok t j r"
    using indexes_invD(3) [OF inv] t loc(2) by (auto simp: output_ok_def)
  moreover have "\<exists>r. utxos t j = Some r \<and> stealth_address (or_output r) = b"
    if "stealth_index t b = Some j" for b j
  proof -
    have j: "stealth_index s b = Some j" using that st by (auto split: if_splits)
    from indexes_invD(4) [OF inv j] obtain q where q: "utxos s j = Some q" "stealth_address (or_output q) = b"
      by blast
    have "j \<noteq> k" using that st j q r a by (auto split: if_splits)
    then show ?thesis using q t by simp
  qed
  ultimately show ?thesis using loc(1) by (simp add: indexes_inv_def)
qed

lemma spend_output_inv:
  assumes "indexes_inv s"
  shows "indexes_inv (snd (spend_output th i ki s))"
proof (cases "ki \<in> spent_images s \<or> utxos s (th, i) = None")
  case True
  then have "indexes_inv (snd (spend_output th i ki s)) = indexes_inv s"
    by (intro indexes_inv_cong) (auto simp: spend_output_def)
  then show ?thesis using assms by simp
next
  case False
  then obtain r where r: "utxos s (th, i) = Some r" by auto
  show ?thesis
    by (rule unlink_output_inv [OF assms r])
      (use False r indexes_invD(2) [OF assms] in
        \<open>simp_all add: spend_output_def Let_def locator_heights_def [abs_def]\<close>)
qed

lemma remove_output_inv:
  assumes inv: "indexes_inv s"
  shows "indexes_inv (snd (remove_output th i s))"
proof -
  let ?k = "(th, i)" and ?t = "snd (remove_output th i s)"
  have f: "utxos ?t = (utxos s)(?k := None)" "locator_outputs ?t = (locator_outputs s)(?k := None)"
    "locator_index ?t = (case locator_outputs s ?k of None \<Rightarrow> locator_index s
       | Some l \<Rightarrow> bucket_remove (lo_height l) ?k (locator_index s))"
    "height_index ?t = (case utxos s ?k of None \<Rightarrow> height_index s
       | Some r \<Rightarrow> bucket_remove (or_height r) ?k (height_index s))"
    by (simp_all add: remove_output_def Let_def split: option.splits)
  have "locator_heights ?t = (locator_heights s)(?k := None)"
    using f(2) by (auto simp: locator_heights_def)
  then have loc: "index_ok (locator_index ?t) (locator_heights ?t)"
    using f(3) indexes_invD(2) [OF inv]
    by (cases "locator_outputs s ?k") (simp_all add: index_ok_remove locator_heights_def fun_upd_idem)
  show ?thesis
  proof (cases "utxos s ?k")
    case None
    then have no: "stealth_index s a \<noteq> Some ?k" for a using indexes_invD(4) [OF inv] by fastforce
    then have "stealth_index ?t = stealth_index s"
      by (simp add: remove_output_def Let_def split: option.splits)
    then show ?thesis using None no f loc inv
      by (auto simp: indexes_inv_def output_ok_def live_heights_def [abs_def] fun_upd_idem)
  next
    case (Some r)
    show ?thesis
      by (rule unlink_output_inv [OF inv Some _ _ _ refl loc])
        (use f Some in \<open>simp_all add: remove_output_def Let_def locator_address_def\<close>)
  qed
qed

section \<open>Runs of the output set\<close>

datatype utxo_op =
    AddOutput hash u8 tx_output nat bool
  | SpendOutput hash u8 key_image
  | MarkSpent key_image
  | EvictOld nat nat
  | RemoveOutput hash u8
  | RemoveKeyImage key_image
  | SetDatabase database
  | Checkpoint

fun utxo_step :: "utxo_op \<Rightarrow> utxo_set \<Rightarrow> utxo_set" where
  "utxo_step (AddOutput th i out h cb) s = add_output_ext th i out h cb s"
| "utxo_step (SpendOutput th i ki) s = snd (spend_output th i ki s)"
| "utxo_step (MarkSpent ki) s = snd (mark_key_image_spent ki s)"
| "utxo_step (EvictOld cur keep) s = evict_old_outputs cur keep s"
| "utxo_step (RemoveOutput th i) s = snd (remove_output th i s)"
| "utxo_step (RemoveKeyImage ki) s = snd (remove_key_image ki s)"
| "utxo_step (SetDatabase d) s = set_database d s"
| "utxo_step Checkpoint s = snd (checkpoint s)"

text \<open>
  An output key is the hash of a transaction and a position in it, so the set never
  receives the same key twice while the first is present.
\<close>

fun utxo_enabled :: "utxo_op \<Rightarrow> utxo_set \<Rightarrow> bool" where
  "utxo_enabled (AddOutput th i out h cb) s \<longleftrightarrow>
     locator_outputs s (th, i) = None \<and> total_outputs_ever s < u64_max"
| "utxo_enabled _ s \<longleftrightarrow> True"

fun bookkeeping :: "utxo_op \<Rightarrow> bool" where
  "bookkeeping (AddOutput th i out h cb) = False"
| "bookkeeping (SpendOutput th i ki) = False"
| "bookkeeping (RemoveOutput th i) = False"
| "bookkeeping _ = True"

definition same_maps :: "utxo_set \<Rightarrow> utxo_set \<Rightarrow> bool" where
  "same_maps s t \<longleftrightarrow> utxos t = utxos s \<and> height_index t = height_index s \<and> locator_index t = locator_index s \<and>
     locator_outputs t = locator_outputs s \<and> stealth_index t = stealth_index s \<and>
     total_outputs_ever t = total_outputs_ever s \<and> reorg_disconnects_total t = reorg_disconnects_total s"

lemma same_maps_inv: "same_maps s t \<Longrightarrow> utxo_inv t = utxo_inv s"
  using indexes_inv_cong [of t s] by (simp add: same_maps_def utxo_inv_def counts_inv_def)

lemma bookkeeping_same_maps:
  "same_maps s (snd (mark_key_image_spent ki s))" "same_maps s (evict_old_outputs c d s)"
  "same_maps s (snd (remove_key_image ki s))" "same_maps s (set_database db s)"
  "same_maps s (snd (checkpoint s))"
  by (simp_all add: same_maps_def mark_key_image_spent_def evict_old_outputs_def remove_key_image_def
      set_database_def checkpoint_def Let_def split: option.split)

lemma bookkeeping_inv: "bookkeeping x \<Longrightarrow> utxo_inv (utxo_step x s) = utxo_inv s"
  by (cases x) (simp_all add: same_maps_inv [OF bookkeeping_same_maps(1)] same_maps_inv [OF bookkeeping_same_maps(2)]
      same_maps_inv [OF bookkeeping_same_maps(3)] same_maps_inv [OF bookkeeping_same_maps(4)]
      same_maps_inv [OF bookkeeping_same_maps(5)])

lemma add_output_counts:
  assumes "counts_inv s" "locator_outputs s (th, i) = None" "total_outputs_ever s < u64_max"
  shows "counts_inv (add_output_ext th i out h cb s)"
proof -
  have "as_u64 (total_outputs_ever s + 1) = total_outputs_ever s + 1" using assms(3) by simp
  moreover have "(th, i) \<notin> dom (locator_outputs s)" using assms(2) by blast
  ultimately show ?thesis using assms(1,3) by (simp add: counts_inv_def add_output_ext_def)
qed

lemma remove_output_totals:
  "locator_outputs (snd (remove_output th i s)) = (locator_outputs s)((th, i) := None)"
  "total_outputs_ever (snd (remove_output th i s)) = total_outputs_ever s"
  "reorg_disconnects_total (snd (remove_output th i s)) =
     (case locator_address (utxos s (th, i)) (locator_outputs s (th, i)) of
        None \<Rightarrow> reorg_disconnects_total s | Some _ \<Rightarrow> sat_add64 (reorg_disconnects_total s) 1)"
  by (simp_all add: remove_output_def Let_def split: option.split)

lemma remove_output_counts:
  assumes c: "counts_inv s" and inv: "indexes_inv s"
  shows "counts_inv (snd (remove_output th i s))"
proof (cases "locator_outputs s (th, i)")
  case None
  then have "utxos s (th, i) = None"
    using indexes_invD(3) [OF inv, of "(th, i)"] by (cases "utxos s (th, i)") (auto simp: output_ok_def)
  then have "reorg_disconnects_total (snd (remove_output th i s)) = reorg_disconnects_total s"
    using None unfolding remove_output_totals by (simp add: locator_address_def)
  moreover have "locator_outputs (snd (remove_output th i s)) = locator_outputs s"
    unfolding remove_output_totals using None by (rule fun_upd_idem)
  ultimately show ?thesis using c unfolding counts_inv_def by (simp only: remove_output_totals(2) simp_thms)
next
  case (Some l)
  then have "reorg_disconnects_total (snd (remove_output th i s)) = sat_add64 (reorg_disconnects_total s) 1"
    unfolding remove_output_totals by (cases "utxos s (th, i)") (simp_all add: locator_address_def)
  moreover have "(th, i) \<in> dom (locator_outputs s)" using Some by blast
  then have "card (dom (locator_outputs s)) = Suc (card (dom (locator_outputs s) - {(th, i)}))"
    using c unfolding counts_inv_def by (simp only: card.remove)
  ultimately show ?thesis using c unfolding counts_inv_def remove_output_totals(1,2)
    by (simp add: sat_add64_def)
qed

lemma spend_output_counts: "counts_inv (snd (spend_output th i ki s)) = counts_inv s"
  by (auto simp: counts_inv_def spend_output_def Let_def split: option.splits)

interpretation output_store: guarded_machine utxo_enabled utxo_step utxo_inv
proof
  fix s x
  assume inv: "utxo_inv s" and en: "utxo_enabled x s"
  show "utxo_inv (utxo_step x s)"
  proof (cases x)
    case (AddOutput th i out h cb)
    then show ?thesis using inv en by (simp add: utxo_inv_def add_output_inv add_output_counts)
  next
    case (SpendOutput th i ki)
    then show ?thesis using inv by (simp add: utxo_inv_def spend_output_inv spend_output_counts)
  next
    case (RemoveOutput th i)
    then show ?thesis using inv by (simp add: utxo_inv_def remove_output_inv remove_output_counts)
  qed (use inv in \<open>simp_all add: bookkeeping_inv del: utxo_step.simps\<close>)
qed

section \<open>Connecting and disconnecting a block\<close>

lemma count_pass_snd: "snd (count_pass f xs cs) = fold (\<lambda>x s. snd (f x s)) xs (snd cs)"
proof -
  have "snd (count_pass f xs (c, s)) = fold (\<lambda>x s. snd (f x s)) xs s" for c s
    by (induction xs arbitrary: c s) (simp_all add: split_beta)
  from this [of "fst cs" "snd cs"] show ?thesis by simp
qed

lemma fold_mark: "fold (\<lambda>ki s. snd (mark_key_image_spent ki s)) kis s =
    s\<lparr>spent_images := spent_images s \<union> set kis\<rparr>"
  by (induction kis arbitrary: s) (auto simp: mark_key_image_spent_def insert_absorb)

lemma fold_unmark: "fold (\<lambda>ki s. snd (remove_key_image ki s)) kis s =
    s\<lparr>spent_images := spent_images s - set kis\<rparr>"
proof (induction kis arbitrary: s)
  case (Cons k kis)
  have "spent_images s - {k} - set kis = spent_images s - set (k # kis)" by auto
  then show ?case using Cons by (simp add: remove_key_image_def)
qed simp

definition add_tuple :: "hash \<times> u8 \<times> tx_output \<times> nat \<times> bool \<Rightarrow> utxo_set \<Rightarrow> utxo_set" where
  "add_tuple x s = (case x of (th, i, out, h, cb) \<Rightarrow> add_output_ext th i out h cb s)"

definition add_key :: "hash \<times> u8 \<times> tx_output \<times> nat \<times> bool \<Rightarrow> output_key" where
  "add_key x = (case x of (th, i, _) \<Rightarrow> (th, i))"

definition add_addr :: "hash \<times> u8 \<times> tx_output \<times> nat \<times> bool \<Rightarrow> bytes" where
  "add_addr x = (case x of (_, _, out, _) \<Rightarrow> stealth_address out)"

text \<open>The stealth address is known to both in-memory indexes or to neither.\<close>

definition in_step :: "utxo_set \<Rightarrow> bytes \<Rightarrow> bool" where
  "in_step s a \<longleftrightarrow> (stealth_index s a = None \<longleftrightarrow> output_index s a = None)"

definition grown :: "output_key set \<Rightarrow> bytes set \<Rightarrow> utxo_set \<Rightarrow> utxo_set \<Rightarrow> bool" where
  "grown K A s t \<longleftrightarrow> spent_images t = spent_images s \<and> utxo_db t = utxo_db s \<and>
     (\<forall>k. k \<notin> K \<longrightarrow> utxos t k = utxos s k \<and> locator_outputs t k = locator_outputs s k) \<and>
     (\<forall>k\<in>K. utxos t k \<noteq> None) \<and>
     (\<forall>a. stealth_index t a = stealth_index s a \<and> output_index t a = output_index s a \<or>
          stealth_index s a = None \<and> output_index s a = None \<and> stealth_index t a \<in> Some ` K \<and> a \<in> A)"

lemma grown_add:
  assumes "in_step s (add_addr x)"
  shows "grown {add_key x} {add_addr x} s (add_tuple x s)" "in_step s a \<Longrightarrow> in_step (add_tuple x s) a"
  using assms by (cases x; auto simp: grown_def in_step_def add_tuple_def add_key_def add_addr_def
      add_output_ext_def or_insert_def split: option.splits)+

lemma grown_outside: "grown K A s t \<Longrightarrow> k \<notin> K \<Longrightarrow> utxos t k = utxos s k \<and> locator_outputs t k = locator_outputs s k"
  unfolding grown_def by blast

lemma grown_addr: "grown K A s t \<Longrightarrow> stealth_index t a = stealth_index s a \<and> output_index t a = output_index s a \<or>
     stealth_index s a = None \<and> output_index s a = None \<and> stealth_index t a \<in> Some ` K \<and> a \<in> A"
  unfolding grown_def by blast

lemma grown_trans:
  assumes st: "grown K A s t" and tu: "grown L B t u" and "K \<inter> L = {}"
  shows "grown (K \<union> L) (A \<union> B) s u"
  unfolding grown_def
proof (intro conjI allI ballI impI)
  show "spent_images u = spent_images s" "utxo_db u = utxo_db s" using st tu by (simp_all add: grown_def)
next
  fix k assume "k \<notin> K \<union> L"
  then show "utxos u k = utxos s k" "locator_outputs u k = locator_outputs s k"
    using grown_outside [OF st] grown_outside [OF tu] by simp_all
next
  fix k assume "k \<in> K \<union> L"
  then consider "k \<in> L" | "k \<in> K" "k \<notin> L" by blast
  then show "utxos u k \<noteq> None"
  proof cases
    case 1 then show ?thesis using tu unfolding grown_def by blast
  next
    case 2
    have "utxos t k \<noteq> None" using st 2(1) unfolding grown_def by blast
    then show ?thesis using grown_outside [OF tu 2(2)] by simp
  qed
next
  fix a
  show "stealth_index u a = stealth_index s a \<and> output_index u a = output_index s a \<or>
      stealth_index s a = None \<and> output_index s a = None \<and> stealth_index u a \<in> Some ` (K \<union> L) \<and> a \<in> A \<union> B"
    using grown_addr [OF st, of a] grown_addr [OF tu, of a] by (elim disjE conjE) (simp_all add: image_Un)
qed

lemma fold_add:
  assumes "indexes_inv s" "distinct (map add_key xs)" "\<forall>x\<in>set xs. locator_outputs s (add_key x) = None"
    "\<forall>x\<in>set xs. in_step s (add_addr x)"
  shows "grown (add_key ` set xs) (add_addr ` set xs) s (fold add_tuple xs s) \<and> indexes_inv (fold add_tuple xs s)"
  using assms
proof (induction xs arbitrary: s)
  case (Cons x xs)
  let ?t = "add_tuple x s"
  have g: "grown {add_key x} {add_addr x} s ?t" using Cons.prems(4) by (simp add: grown_add)
  have "indexes_inv ?t"
    using Cons.prems(1,3) by (cases x) (simp add: add_tuple_def add_key_def add_output_inv)
  moreover have "\<forall>y\<in>set xs. locator_outputs ?t (add_key y) = None"
  proof
    fix y assume y: "y \<in> set xs"
    then have "add_key y \<notin> {add_key x}" using Cons.prems(2) by (auto simp: image_iff)
    then show "locator_outputs ?t (add_key y) = None"
      using grown_outside [OF g] y Cons.prems(3) by simp
  qed
  moreover have "\<forall>y\<in>set xs. in_step ?t (add_addr y)" using Cons.prems(4) by (simp add: grown_add)
  ultimately have IH: "grown (add_key ` set xs) (add_addr ` set xs) ?t (fold add_tuple xs ?t) \<and> indexes_inv (fold add_tuple xs ?t)"
    using Cons.prems(2) by (intro Cons.IH) simp_all
  have "{add_key x} \<inter> add_key ` set xs = {}" using Cons.prems(2) by auto
  from grown_trans [OF g conjunct1 [OF IH] this] IH show ?case by simp
qed (simp add: grown_def)

text \<open>
  Removing keys again: \<open>shrunk\<close> describes the set without the keys \<open>K\<close> and without
  the index entries they owned.
\<close>

definition db_clear :: "utxo_set \<Rightarrow> output_key set \<Rightarrow> bool" where
  "db_clear s K \<longleftrightarrow> (case utxo_db s of None \<Rightarrow> True
     | Some d \<Rightarrow> \<forall>a. stealth_index s a \<in> Some ` K \<longrightarrow> db_output_index d a = None)"

definition shrunk :: "output_key set \<Rightarrow> utxo_set \<Rightarrow> utxo_set \<Rightarrow> bool" where
  "shrunk K s t \<longleftrightarrow> spent_images t = spent_images s \<and> utxo_db t = utxo_db s \<and>
     utxos t = (\<lambda>k. if k \<in> K then None else utxos s k) \<and>
     locator_outputs t = (\<lambda>k. if k \<in> K then None else locator_outputs s k) \<and>
     stealth_index t = (\<lambda>a. if stealth_index s a \<in> Some ` K then None else stealth_index s a) \<and>
     output_index t = (\<lambda>a. if stealth_index s a \<in> Some ` K then None else output_index s a)"

lemma shrunk_remove:
  assumes inv: "indexes_inv s" and r: "utxos s (th, i) = Some r" and db: "db_clear s {(th, i)}"
  shows "shrunk {(th, i)} s (snd (remove_output th i s))"
proof -
  let ?k = "(th, i)" and ?a = "stealth_address (or_output r)" and ?t = "snd (remove_output th i s)"
  have owner: "a = ?a" if "stealth_index s a = Some ?k" for a
    using indexes_invD(4) [OF inv that] r by auto
  have "utxo_db ?t = utxo_db s"
    using r db by (cases "utxo_db s") (auto simp: remove_output_def Let_def locator_address_def
        db_remove_index_def db_clear_def fun_upd_idem)
  moreover have "stealth_index ?t = (\<lambda>a. if stealth_index s a \<in> Some ` {?k} then None else stealth_index s a)"
    "output_index ?t = (\<lambda>a. if stealth_index s a \<in> Some ` {?k} then None else output_index s a)"
    using r by (auto simp: remove_output_def Let_def locator_address_def fun_eq_iff dest: owner)
  moreover have "spent_images ?t = spent_images s" "utxos ?t = (utxos s)(?k := None)"
    "locator_outputs ?t = (locator_outputs s)(?k := None)"
    using r by (simp_all add: remove_output_def Let_def locator_address_def)
  ultimately show ?thesis by (auto simp: shrunk_def)
qed

lemma shrunk_trans: "shrunk K s t \<Longrightarrow> shrunk L t u \<Longrightarrow> shrunk (K \<union> L) s u"
  unfolding shrunk_def by (auto simp: fun_eq_iff image_Un)

lemma fold_remove:
  assumes "indexes_inv s" "distinct ks" "\<forall>k\<in>set ks. utxos s k \<noteq> None" "db_clear s (set ks)"
  shows "shrunk (set ks) s (fold (\<lambda>(th, i) s. snd (remove_output th i s)) ks s) \<and>
    indexes_inv (fold (\<lambda>(th, i) s. snd (remove_output th i s)) ks s)"
  using assms
proof (induction ks arbitrary: s)
  case (Cons k ks)
  obtain th i where k: "k = (th, i)" by fastforce
  let ?t = "snd (remove_output th i s)"
  have "db_clear s {k}" using Cons.prems(4) by (auto simp: db_clear_def split: option.splits)
  then have t: "shrunk {k} s ?t"
    using Cons.prems(1,3) k by (auto intro: shrunk_remove)
  have "indexes_inv ?t" by (rule remove_output_inv [OF Cons.prems(1)])
  moreover have "\<forall>j\<in>set ks. utxos ?t j \<noteq> None"
    using t Cons.prems(2,3) by (auto simp: shrunk_def)
  moreover have "db_clear ?t (set ks)"
    using t Cons.prems(4) by (auto simp: shrunk_def db_clear_def split: option.splits)
  ultimately have IH: "shrunk (set ks) ?t (fold (\<lambda>(th, i) s. snd (remove_output th i s)) ks ?t) \<and>
      indexes_inv (fold (\<lambda>(th, i) s. snd (remove_output th i s)) ks ?t)"
    using Cons.prems(2) by (intro Cons.IH) simp_all
  then show ?case using shrunk_trans [OF t conjunct1 [OF IH]] k by simp
qed (simp add: shrunk_def)

definition tx_keys :: "(bytes \<Rightarrow> hash) \<Rightarrow> tx_codec \<Rightarrow> transaction \<Rightarrow> output_key list" where
  "tx_keys H ser tx = map (\<lambda>i. (tx_hash H ser tx, of_nat i)) [0 ..< length (outputs tx)]"

lemma tx_adds_keys: "map add_key (tx_adds H ser h tx) = tx_keys H ser tx"
  by (rule nth_equalityI) (simp_all add: tx_adds_def tx_keys_def nth_enumerate_eq add_key_def)

lemma tx_adds_addrs: "add_addr ` set (tx_adds H ser h tx) = stealth_address ` set (outputs tx)"
proof -
  have "map add_addr (tx_adds H ser h tx) = map stealth_address (outputs tx)"
    by (rule nth_equalityI) (simp_all add: tx_adds_def nth_enumerate_eq add_addr_def)
  then show ?thesis by (metis list.set_map)
qed

lemma distinct_tx_keys:
  assumes "length (outputs tx) \<le> 256"
  shows "distinct (tx_keys H ser tx)"
proof -
  have "inj_on (\<lambda>i. (tx_hash H ser tx, of_nat i :: u8)) {0 ..< length (outputs tx)}"
  proof (rule inj_onI)
    fix i j assume ij: "i \<in> {0 ..< length (outputs tx)}" "j \<in> {0 ..< length (outputs tx)}"
      and "(tx_hash H ser tx, of_nat i :: u8) = (tx_hash H ser tx, of_nat j)"
    then have "unat (of_nat i :: u8) = unat (of_nat j :: u8)" by simp
    then show "i = j" using ij assms by (simp add: unat_of_nat)
  qed
  then show ?thesis by (simp add: tx_keys_def distinct_map)
qed

lemma distinct_block_keys:
  assumes "distinct (map (tx_hash H ser) txs)" "\<forall>tx\<in>set txs. length (outputs tx) \<le> 256"
  shows "distinct (concat (map (tx_keys H ser) txs))"
  using assms
proof (induction txs)
  case (Cons tx txs)
  have "fst ` set (tx_keys H ser t) \<subseteq> {tx_hash H ser t}" for t by (auto simp: tx_keys_def)
  then have "set (tx_keys H ser tx) \<inter> set (concat (map (tx_keys H ser) txs)) = {}"
    using Cons.prems(1) by (fastforce simp: tx_keys_def)
  then show ?case using Cons by (simp add: distinct_tx_keys)
qed simp

text \<open>
  What consensus establishes before a block is connected: its transactions are pairwise
  different and not in the chain, they have at most 256 outputs, their key images are
  unspent, and a stealth address they use is known to both in-memory indexes, or to neither
  of them nor the database.
\<close>

definition addr_free :: "utxo_set \<Rightarrow> bytes \<Rightarrow> bool" where
  "addr_free s a \<longleftrightarrow> in_step s a \<and> (stealth_index s a = None \<longrightarrow>
     (case utxo_db s of None \<Rightarrow> True | Some d \<Rightarrow> db_output_index d a = None))"

definition connectable :: "(bytes \<Rightarrow> hash) \<Rightarrow> tx_codec \<Rightarrow> utxo_set \<Rightarrow> transaction list \<Rightarrow> bool" where
  "connectable H ser s txs \<longleftrightarrow> distinct (map (tx_hash H ser) txs) \<and>
     (\<forall>tx\<in>set txs. length (outputs tx) \<le> 256 \<and>
        (\<forall>k\<in>set (tx_keys H ser tx). locator_outputs s k = None) \<and>
        (\<forall>out\<in>set (outputs tx). addr_free s (stealth_address out)) \<and>
        (\<forall>ki\<in>set (key_images tx). is_coinbase tx \<or> ki \<notin> spent_images s))"

definition connect_block :: "(bytes \<Rightarrow> hash) \<Rightarrow> tx_codec \<Rightarrow> nat \<Rightarrow> transaction list \<Rightarrow> utxo_set \<Rightarrow> utxo_set" where
  "connect_block H ser h txs s = snd (apply_batch (batch_from_block H ser h txs) s)"

definition disconnect_block :: "(bytes \<Rightarrow> hash) \<Rightarrow> tx_codec \<Rightarrow> transaction list \<Rightarrow> utxo_set \<Rightarrow> utxo_set" where
  "disconnect_block H ser txs s = snd (apply_batch (batch_disconnect_block H ser txs) s)"

definition block_adds :: "(bytes \<Rightarrow> hash) \<Rightarrow> tx_codec \<Rightarrow> nat \<Rightarrow> transaction list \<Rightarrow> (hash \<times> u8 \<times> tx_output \<times> nat \<times> bool) list" where
  "block_adds H ser h txs = concat (map (tx_adds H ser h) txs)"

definition block_images :: "transaction list \<Rightarrow> key_image list" where
  "block_images txs = concat (map (\<lambda>tx. if is_coinbase tx then [] else key_images tx) txs)"

lemma connect_block_eq:
  "connect_block H ser h txs s = (let t = fold add_tuple (block_adds H ser h txs) s in
     t\<lparr>spent_images := spent_images t \<union> set (block_images txs)\<rparr>)"
proof -
  have "(\<lambda>x s. snd ((case x of (th, i, out, h, cb) \<Rightarrow> \<lambda>s. (True, add_output_ext th i out h cb s)) s)) = add_tuple"
    by (auto simp: add_tuple_def fun_eq_iff)
  then show ?thesis
    by (simp add: connect_block_def apply_batch_def batch_from_block_def batch_new_def block_adds_def
        block_images_def Let_def count_pass_snd fold_mark)
qed

lemma disconnect_block_eq:
  "disconnect_block H ser txs s =
     (let t = fold (\<lambda>(th, i) s. snd (remove_output th i s)) (concat (map (tx_keys H ser) txs)) s in
      t\<lparr>spent_images := spent_images t - set (block_images txs)\<rparr>)"
proof -
  have "(\<lambda>x s. snd ((case x of (th, i) \<Rightarrow> \<lambda>s. let (r, s') = remove_output th i s in (r \<noteq> None, s')) s)) =
      (\<lambda>(th, i) s. snd (remove_output th i s))"
    by (auto simp: fun_eq_iff split: prod.split)
  then show ?thesis
    by (simp add: disconnect_block_def apply_batch_def batch_disconnect_block_def batch_new_def
        block_images_def tx_keys_def [abs_def] Let_def count_pass_snd fold_unmark)
qed

lemma utxo_set_eqI:
  assumes "indexes_inv s" "indexes_inv t" "utxos s = utxos t" "spent_images s = spent_images t"
    "locator_outputs s = locator_outputs t" "stealth_index s = stealth_index t"
    "output_index s = output_index t" "utxo_db s = utxo_db t"
  shows "s\<lparr>total_outputs_ever := n, reorg_disconnects_total := m\<rparr> =
         t\<lparr>total_outputs_ever := n, reorg_disconnects_total := m\<rparr>"
proof -
  have "live_heights s = live_heights t" "locator_heights s = locator_heights t"
    using assms(3,5) by (auto simp: live_heights_def locator_heights_def)
  then have "height_index s = height_index t" "locator_index s = locator_index t"
    using indexes_invD(1,2) [OF assms(1)] indexes_invD(1,2) [OF assms(2)] index_ok_unique by metis+
  then show ?thesis using assms by (cases s; cases t) simp
qed

lemma connectable_adds:
  assumes "connectable H ser s txs"
  shows "map add_key (block_adds H ser h txs) = concat (map (tx_keys H ser) txs)"
    "\<forall>x\<in>set (block_adds H ser h txs). locator_outputs s (add_key x) = None"
    "\<forall>x\<in>set (block_adds H ser h txs). addr_free s (add_addr x)"
proof -
  show "map add_key (block_adds H ser h txs) = concat (map (tx_keys H ser) txs)"
    by (simp add: block_adds_def map_concat tx_adds_keys comp_def)
  have "add_key x \<in> set (tx_keys H ser tx)" "add_addr x \<in> stealth_address ` set (outputs tx)"
    if "x \<in> set (tx_adds H ser h tx)" for tx x
    using that tx_adds_keys [of H ser h tx] tx_adds_addrs [of H ser h tx]
    by (metis image_eqI list.set_map, blast)
  then show "\<forall>x\<in>set (block_adds H ser h txs). locator_outputs s (add_key x) = None"
    "\<forall>x\<in>set (block_adds H ser h txs). addr_free s (add_addr x)"
    using assms unfolding connectable_def block_adds_def by fastforce+
qed

lemma grown_shrunk_fields:
  assumes inv: "indexes_inv s" and fresh: "\<forall>k\<in>K. locator_outputs s k = None"
    and g: "grown K A s t" and c: "shrunk K (t\<lparr>spent_images := I\<rparr>) u"
  shows "utxos u = utxos s" "locator_outputs u = locator_outputs s" "stealth_index u = stealth_index s"
    "output_index u = output_index s" "utxo_db u = utxo_db s" "spent_images u = I"
proof -
  have none: "utxos s k = None" if "k \<in> K" for k
    using indexes_invD(3) [OF inv, of k] fresh that by (cases "utxos s k") (auto simp: output_ok_def)
  show "utxos u = utxos s" "locator_outputs u = locator_outputs s"
    using c grown_outside [OF g] none fresh by (auto simp: shrunk_def fun_eq_iff)
  have old: "stealth_index s a \<notin> Some ` K" for a
    using indexes_invD(4) [OF inv, of a] none by fastforce
  have "stealth_index u a = stealth_index s a \<and> output_index u a = output_index s a" for a
    using grown_addr [OF g, of a] c old [of a] by (elim disjE conjE) (simp_all add: shrunk_def)
  then show "stealth_index u = stealth_index s" "output_index u = output_index s" by auto
  show "utxo_db u = utxo_db s" "spent_images u = I" using c g by (simp_all add: shrunk_def grown_def)
qed

lemma db_clear_grown:
  assumes inv: "indexes_inv s" and none: "\<forall>k\<in>K. utxos s k = None"
    and free: "\<forall>a\<in>A. addr_free s a" and g: "grown K A s t"
  shows "db_clear (t\<lparr>spent_images := I\<rparr>) K"
proof (cases "utxo_db s")
  case (Some d)
  have "db_output_index d a = None" if "stealth_index t a \<in> Some ` K" for a
  proof -
    have "stealth_index s a \<notin> Some ` K" using indexes_invD(4) [OF inv, of a] none by fastforce
    then have "stealth_index s a = None" "a \<in> A" using grown_addr [OF g, of a] that by auto
    then show ?thesis using free Some by (auto simp: addr_free_def)
  qed
  then show ?thesis using Some g by (simp add: db_clear_def grown_def)
qed (use g in \<open>simp add: db_clear_def grown_def\<close>)

lemma connectable_keys_free:
  assumes inv: "indexes_inv s" and "connectable H ser s txs"
  shows "\<forall>k\<in>set (concat (map (tx_keys H ser) txs)). locator_outputs s k = None \<and> utxos s k = None"
proof
  fix k assume "k \<in> set (concat (map (tx_keys H ser) txs))"
  then have "locator_outputs s k = None" using assms(2) by (auto simp: connectable_def)
  then show "locator_outputs s k = None \<and> utxos s k = None"
    using indexes_invD(3) [OF inv, of k] by (cases "utxos s k") (auto simp: output_ok_def)
qed

lemma disconnect_connect:
  assumes inv: "indexes_inv s" and ok: "connectable H ser s txs"
  shows "(disconnect_block H ser txs (connect_block H ser h txs s))
           \<lparr>total_outputs_ever := total_outputs_ever s, reorg_disconnects_total := reorg_disconnects_total s\<rparr> = s"
proof -
  let ?K = "concat (map (tx_keys H ser) txs)" and ?X = "block_adds H ser h txs"
  define t where "t = fold add_tuple ?X s"
  define c where "c = t\<lparr>spent_images := spent_images t \<union> set (block_images txs)\<rparr>"
  define u where "u = fold (\<lambda>(th, i) s. snd (remove_output th i s)) ?K c"
  note X = connectable_adds [OF ok, of h] and free = connectable_keys_free [OF inv ok]
  have dist: "distinct ?K" using ok by (simp add: connectable_def distinct_block_keys)
  have K: "add_key ` set ?X = set ?K" using X(1) by (metis list.set_map)
  have g: "grown (set ?K) (add_addr ` set ?X) s t" and it: "indexes_inv t"
    using fold_add [of s ?X] inv X dist by (simp_all add: t_def K addr_free_def)
  have ic: "indexes_inv c" using it indexes_inv_cong [of c t] by (simp add: c_def)
  have "\<forall>k\<in>set ?K. utxos c k \<noteq> None" using g unfolding grown_def c_def by simp
  moreover have "db_clear c (set ?K)"
    unfolding c_def using free X(3) by (intro db_clear_grown [OF inv _ _ g]) auto
  ultimately have su: "shrunk (set ?K) c u" and iu: "indexes_inv u"
    using fold_remove [of c ?K] ic dist by (simp_all add: u_def)
  note f = grown_shrunk_fields [OF inv _ g su [unfolded c_def]]
  let ?r = "u\<lparr>spent_images := spent_images u - set (block_images txs)\<rparr>"
  have "set (block_images txs) \<inter> spent_images s = {}" using ok by (auto simp: connectable_def block_images_def)
  then have "spent_images ?r = spent_images s" using f(6) free g by (auto simp: grown_def)
  moreover have "indexes_inv ?r" using iu indexes_inv_cong [of ?r u] by simp
  ultimately have "?r\<lparr>total_outputs_ever := n, reorg_disconnects_total := m\<rparr> =
      s\<lparr>total_outputs_ever := n, reorg_disconnects_total := m\<rparr>" for n m
    using f(1-5) free inv by (intro utxo_set_eqI) simp_all
  moreover have "disconnect_block H ser txs (connect_block H ser h txs s) = ?r"
    by (simp add: disconnect_block_eq connect_block_eq Let_def u_def c_def t_def)
  ultimately show ?thesis by simp
qed


definition demo_output :: "u8 \<Rightarrow> tx_output" where
  "demo_output b = \<lparr>stealth_address = [b], tx_public_key = [], commitment = [b], encrypted_amount = [],
     view_tag = 0, lock_height = None, encrypted_memo = []\<rparr>"

definition demo_input :: "u8 \<Rightarrow> tx_input" where
  "demo_input b = \<lparr>key_image = [b], ring_members = [],
     signature = \<lparr>sig_key_image = [b], commitment_image = [], sig_c1 = [], responses = []\<rparr>,
     pseudo_output_commitment = []\<rparr>"

definition demo_txs :: "transaction list" where
  "demo_txs = [\<lparr>version = 1, tx_type = Coinbase, inputs = [], outputs = [demo_output 1], fee = 0,
       range_proof = [], extra = []\<rparr>,
     \<lparr>version = 2, tx_type = Transfer, inputs = [demo_input 7], outputs = [demo_output 2, demo_output 1],
       fee = 5, range_proof = [], extra = []\<rparr>]"

lemma demo_connectable: "connectable (\<lambda>b. b) (\<lambda>tx. [version tx]) utxo_new demo_txs"
  by (simp add: connectable_def demo_txs_def utxo_new_def tx_hash_def hash_concat_def tx_keys_def
      addr_free_def in_step_def)


section \<open>Refinement of the abstract ledger\<close>

text \<open>
  What the component promises its clients: a ledger of live outputs and spent key images,
  with no indexes and no database.
\<close>

record ledger =
  live :: "output_key \<rightharpoonup> output_ref"
  spent :: "key_image set"

fun ledger_step :: "utxo_op \<Rightarrow> ledger \<Rightarrow> ledger" where
  "ledger_step (AddOutput th i out h cb) L = L\<lparr>live := (live L)((th, i) \<mapsto>
     \<lparr>or_tx_hash = th, or_index = i, or_output = out, or_height = h, or_is_coinbase = cb\<rparr>)\<rparr>"
| "ledger_step (SpendOutput th i ki) L = (if ki \<in> spent L then L
     else \<lparr>live = (live L)((th, i) := None), spent = insert ki (spent L)\<rparr>)"
| "ledger_step (MarkSpent ki) L = L\<lparr>spent := insert ki (spent L)\<rparr>"
| "ledger_step (RemoveOutput th i) L = L\<lparr>live := (live L)((th, i) := None)\<rparr>"
| "ledger_step (RemoveKeyImage ki) L = L\<lparr>spent := spent L - {ki}\<rparr>"
| "ledger_step _ L = L"

definition ledger_of :: "utxo_set \<Rightarrow> ledger" where
  "ledger_of s = \<lparr>live = utxos s, spent = spent_images s\<rparr>"

lemma ledger_of_step: "ledger_of (utxo_step x s) = ledger_step x (ledger_of s)"
proof (cases x)
  case (SpendOutput th i ki)
  then show ?thesis
    by (cases "utxos s (th, i)") (simp_all add: ledger_of_def spend_output_def Let_def fun_upd_idem)
next
  case Checkpoint
  then show ?thesis by (cases "utxo_db s") (simp_all add: ledger_of_def checkpoint_def Let_def)
next
  case (RemoveOutput th i)
  then show ?thesis by (simp add: ledger_of_def remove_output_def Let_def split: option.split)
qed (simp_all add: ledger_of_def add_output_ext_def mark_key_image_spent_def evict_old_outputs_def
    remove_key_image_def set_database_def insert_absorb)

lemma ledger_of_run: "ledger_of (fold utxo_step xs s) = fold ledger_step xs (ledger_of s)"
  by (induction xs arbitrary: s) (simp_all add: ledger_of_step)

lemma set_index_range:
  "set (index_range lo hi idx) = {(h, S). lo \<le> h \<and> h \<le> hi \<and> idx h = Some S}"
  by (force simp: index_range_def map_filter_def)

lemma finite_bucket:
  assumes "utxo_inv s" "height_index s h = Some S"
  shows "finite S"
proof -
  have "S = {k. live_heights s k = Some h}"
    using assms indexes_invD(1) [of s] by (auto simp: utxo_inv_def index_ok_def split: option.splits)
  also have "\<dots> \<subseteq> dom (locator_outputs s)"
    using assms(1) indexes_invD(3) [of s] by (fastforce simp: utxo_inv_def live_heights_def output_ok_def)
  finally show ?thesis using assms(1) finite_subset by (auto simp: utxo_inv_def counts_inv_def)
qed

lemma set_outputs_in_range:
  assumes "utxo_inv s"
  shows "set (outputs_in_range lo hi s) =
    {r. \<exists>k. utxos s k = Some r \<and> lo \<le> or_height r \<and> or_height r \<le> hi}"
proof -
  have b: "(\<exists>S. height_index s h = Some S \<and> k \<in> S) \<longleftrightarrow> live_heights s k = Some h" for h k
    by (rule index_ok_mem, rule indexes_invD(1)) (use assms in \<open>simp add: utxo_inv_def\<close>)
  have keys: "set (concat (map (\<lambda>(_, ks). sorted_list_of_set ks) (index_range lo hi (height_index s)))) =
      {k. \<exists>h. lo \<le> h \<and> h \<le> hi \<and> (\<exists>S. height_index s h = Some S \<and> k \<in> S)}"
    using finite_bucket [OF assms] by (fastforce simp: set_index_range)
  have "set (outputs_in_range lo hi s) = {r. \<exists>k. utxos s k = Some r \<and>
      (\<exists>h. lo \<le> h \<and> h \<le> hi \<and> live_heights s k = Some h)}"
    unfolding outputs_in_range_def set_map_filter keys b by blast
  then show ?thesis by (auto simp: live_heights_def)
qed

text \<open>
  C4 (the output set refines the ledger). After any sequence of operations in which no
  present key is added again, the output set is a ledger: its live outputs and spent key
  images are those of the abstract run, the point queries answer from them, and a range
  query returns exactly the live outputs created at those heights, although the code
  finds them through an index.
\<close>

theorem utxo_refines_ledger:
  assumes "enabled_run utxo_enabled utxo_step ops utxo_new"
  shows "let s = fold utxo_step ops utxo_new; L = fold ledger_step ops \<lparr>live = Map.empty, spent = {}\<rparr> in
     ledger_of s = L \<and>
     get_output th i s = live L (th, i) \<and>
     contains_key_image ki s = (ki \<in> spent L) \<and>
     set (outputs_in_range lo hi s) =
       {r. \<exists>k. live L k = Some r \<and> lo \<le> or_height r \<and> or_height r \<le> hi}"
proof -
  let ?s = "fold utxo_step ops utxo_new"
  have L: "fold ledger_step ops \<lparr>live = Map.empty, spent = {}\<rparr> = ledger_of ?s"
    by (simp add: ledger_of_run) (simp add: ledger_of_def utxo_new_def)
  have "utxo_inv ?s" by (rule output_store.inv_enabled_run [OF utxo_inv_new assms])
  note range = set_outputs_in_range [OF this, of lo hi]
  have "live (ledger_of ?s) = utxos ?s" "spent (ledger_of ?s) = spent_images ?s"
    by (simp_all add: ledger_of_def)
  then show ?thesis unfolding Let_def L range by (simp only: get_output_def contains_key_image_def simp_thms)
qed

definition demo_ops :: "utxo_op list" where
  "demo_ops = [AddOutput [1] 0 (demo_output 1) 5 True, AddOutput [2] 0 (demo_output 2) 6 False,
     MarkSpent [7], EvictOld 2000 1000, RemoveOutput [1] 0]"

lemma demo_enabled: "enabled_run utxo_enabled utxo_step demo_ops utxo_new"
  by (simp add: demo_ops_def add_output_ext_def utxo_new_def width_eqs as_u64_def)

theorem utxo_refines_ledger_witness:
  "enabled_run utxo_enabled utxo_step demo_ops utxo_new \<and>
   get_output [2] 0 (fold utxo_step demo_ops utxo_new) =
     Some \<lparr>or_tx_hash = [2], or_index = 0, or_output = demo_output 2, or_height = 6, or_is_coinbase = False\<rparr>"
  using utxo_refines_ledger [OF demo_enabled, of "[2]" 0 "[7]" 0 9] demo_enabled
  by (simp add: Let_def demo_ops_def)

text \<open>
  C25 (the indexes never drift). Whatever operations a node performs, the height index lists
  exactly the live outputs at their heights, the locator index every output of the chain,
  no bucket is left empty, the stealth index points at live outputs with that address,
  and the set never reports more live outputs than were ever created. The number of
  outputs that ring sizes are computed from, the outputs ever created less those that
  reorganisations disconnected, is the number of outputs of the current chain, so it does
  not depend on the reorganisations a node has been through.
\<close>

theorem utxo_indexes_agree:
  assumes "enabled_run utxo_enabled utxo_step ops utxo_new"
  shows "let s = fold utxo_step ops utxo_new in
     index_ok (height_index s) (live_heights s) \<and> index_ok (locator_index s) (locator_heights s) \<and>
     (\<forall>a r. get_output_by_stealth a s = Some r \<longrightarrow> stealth_address (or_output r) = a) \<and>
     utxo_count_violation (output_count s) (total_outputs_ever s) = None \<and>
     total_outputs_ever s - reorg_disconnects_total s = card (dom (locator_outputs s))"
proof -
  let ?s = "fold utxo_step ops utxo_new"
  have inv: "utxo_inv ?s" by (rule output_store.inv_enabled_run [OF utxo_inv_new assms])
  then have i: "indexes_inv ?s" and c: "counts_inv ?s" by (simp_all add: utxo_inv_def)
  have "dom (utxos ?s) \<subseteq> dom (locator_outputs ?s)"
    using indexes_invD(3) [OF i] by (fastforce simp: output_ok_def)
  then have "card (dom (utxos ?s)) \<le> total_outputs_ever ?s"
    using c card_mono [of "dom (locator_outputs ?s)" "dom (utxos ?s)"] unfolding counts_inv_def by linarith
  moreover have "total_outputs_ever ?s - reorg_disconnects_total ?s = card (dom (locator_outputs ?s))"
    using c unfolding counts_inv_def by linarith
  moreover have "stealth_address (or_output r) = a" if "get_output_by_stealth a ?s = Some r" for a r
    using that indexes_invD(4) [OF i, of a] by (fastforce simp: get_output_by_stealth_def split: option.splits)
  ultimately show ?thesis using indexes_invD(1,2) [OF i]
    by (simp add: Let_def utxo_count_violation_def output_count_def)
qed

theorem utxo_indexes_agree_witness:
  "enabled_run utxo_enabled utxo_step demo_ops utxo_new \<and>
   utxo_count_violation (output_count (fold utxo_step demo_ops utxo_new))
     (total_outputs_ever (fold utxo_step demo_ops utxo_new)) = None"
  using utxo_indexes_agree [OF demo_enabled] demo_enabled by (simp add: Let_def)

section \<open>Locators\<close>

definition valid_locator :: "utxo_set \<Rightarrow> output_locator \<Rightarrow> bool" where
  "valid_locator s l = (case locator_index s (loc_height l) of
     None \<Rightarrow> False | Some ks \<Rightarrow> loc_ordinal l < card ks)"

definition locator_key :: "utxo_set \<Rightarrow> output_locator \<Rightarrow> output_key" where
  "locator_key s l = sorted_list_of_set (the (locator_index s (loc_height l))) ! loc_ordinal l"

definition locator_errors :: "error set" where
  "locator_errors = {InvalidState ''duplicate output locator'',
     InvalidState ''output locator references unknown height'',
     InvalidState ''output locator ordinal is outside the bucket''}"

lemma locator_bucket:
  assumes "utxo_inv s" "locator_index s h = Some S"
  shows "finite S" "k \<in> S \<longleftrightarrow> locator_heights s k = Some h"
proof -
  have ok: "index_ok (locator_index s) (locator_heights s)" using assms(1) by (simp add: utxo_inv_def indexes_invD(2))
  have m: "k \<in> S \<longleftrightarrow> locator_heights s k = Some h" for k
    using index_ok_mem [OF ok, of h k] assms(2) by simp
  then show "k \<in> S \<longleftrightarrow> locator_heights s k = Some h" .
  from m have "S \<subseteq> dom (locator_outputs s)" by (auto simp: locator_heights_def)
  then show "finite S" using assms(1) finite_subset by (auto simp: utxo_inv_def counts_inv_def)
qed

lemma valid_locator_key:
  assumes "utxo_inv s" "valid_locator s l"
  shows "locator_heights s (locator_key s l) = Some (loc_height l)"
proof -
  obtain S where S: "locator_index s (loc_height l) = Some S" "loc_ordinal l < card S"
    using assms(2) by (auto simp: valid_locator_def split: option.splits)
  have "sorted_list_of_set S ! loc_ordinal l \<in> set (sorted_list_of_set S)"
    using S(2) by (intro nth_mem) simp
  then show ?thesis using locator_bucket [OF assms(1) S(1)] S(1) by (simp add: locator_key_def)
qed

lemma locator_key_inj:
  assumes inv: "utxo_inv s" and v: "valid_locator s l" "valid_locator s m" and eq: "locator_key s l = locator_key s m"
  shows "l = m"
proof -
  have h: "loc_height l = loc_height m"
    using valid_locator_key [OF inv v(1)] valid_locator_key [OF inv v(2)] eq by simp
  obtain S where S: "locator_index s (loc_height l) = Some S" "loc_ordinal l < card S" "loc_ordinal m < card S"
    using v h by (auto simp: valid_locator_def split: option.splits)
  then have "loc_ordinal l = loc_ordinal m"
    using eq h by (simp add: locator_key_def nth_eq_iff_index_eq)
  with h show ?thesis by simp
qed

lemma resolve_locator_cases:
  assumes "utxo_inv s"
  shows "if valid_locator s l
     then resolve_locator s l = Inr (resolved_of l (the (locator_outputs s (locator_key s l))))
     else \<exists>e\<in>locator_errors. resolve_locator s l = Inl e"
proof (cases "valid_locator s l")
  case True
  then have "\<exists>out. locator_outputs s (locator_key s l) = Some out"
    using valid_locator_key [OF assms] by (auto simp: locator_heights_def)
  then show ?thesis using True
    by (auto simp: valid_locator_def resolve_locator_def locator_key_def split: option.splits)
qed (auto simp: valid_locator_def resolve_locator_def locator_errors_def split: option.splits)

lemma resolve_from_cases:
  assumes "utxo_inv s"
  shows "if distinct ls \<and> set ls \<inter> seen = {} \<and> list_all (valid_locator s) ls
     then resolve_from s seen ls = Inr (map (\<lambda>l. resolved_of l (the (locator_outputs s (locator_key s l)))) ls)
     else \<exists>e\<in>locator_errors. resolve_from s seen ls = Inl e"
proof (induction ls arbitrary: seen)
  case (Cons l ls)
  consider "l \<in> seen" | "l \<notin> seen" "\<not> valid_locator s l" | "l \<notin> seen" "valid_locator s l" by blast
  then show ?case
  proof cases
    case 1 then show ?thesis by (simp add: locator_errors_def)
  next
    case 2 then show ?thesis using resolve_locator_cases [OF assms, of l] by auto
  next
    case 3
    have r: "resolve_locator s l = Inr (resolved_of l (the (locator_outputs s (locator_key s l))))"
      using resolve_locator_cases [OF assms, of l] 3 by simp
    have "(distinct (l # ls) \<and> set (l # ls) \<inter> seen = {} \<and> list_all (valid_locator s) (l # ls)) =
        (distinct ls \<and> set ls \<inter> insert l seen = {} \<and> list_all (valid_locator s) ls)" using 3 by auto
    then show ?thesis using Cons.IH [of "insert l seen"] 3 r by (auto split: if_splits)
  qed
qed simp



section \<open>Eviction and the oldest owner\<close>

text \<open>
  C37 (eviction breaks oldest-wins). The two in-memory indexes are meant to keep the oldest
  output of a stealth address. Eviction forgets the entry of an old owner while the
  stealth index keeps it. A later output with the same address then installs its own entry,
  which shadows the older one on disk, and disconnecting that later output leaves the entry
  behind although the output no longer exists.
\<close>

theorem evicted_owner_shadowed:
  assumes owner: "stealth_index s (stealth_address out) = Some k" "k \<noteq> (th, i)"
    and evicted: "output_index s (stealth_address out) = None"
  shows "let t = add_output_ext th i out h cb s; u = snd (remove_output th i t) in
     get_output_index_entry (stealth_address out) t = Some (index_entry out h cb) \<and>
     get_output th i u = None \<and>
     get_output_index_entry (stealth_address out) u = Some (index_entry out h cb)"
  using assms by (simp add: Let_def get_output_index_entry_def get_output_def add_output_ext_def or_insert_def
      remove_output_def locator_address_def)

theorem evicted_owner_shadowed_witness:
  "let s = evict_old_outputs 2000 1000 (add_output_ext [1] 0 (demo_output 1) 5 True utxo_new);
       u = snd (remove_output [2] 0 (add_output_ext [2] 0 (demo_output 1) 2001 True s)) in
   stealth_index s [1] = Some ([1], 0) \<and> output_index s [1] = None \<and>
   get_output_index_entry [1] u = Some (index_entry (demo_output 1) 2001 True)"
proof -
  define s where "s = evict_old_outputs 2000 1000 (add_output_ext [1] 0 (demo_output 1) 5 True utxo_new)"
  have a: "stealth_address (demo_output 1) = [1]" by (simp add: demo_output_def)
  have s: "stealth_index s [1] = Some ([1], 0)" "output_index s [1] = None"
    by (simp_all add: s_def evict_old_outputs_def add_output_ext_def or_insert_def utxo_new_def a index_entry_def)
  have "([1], 0) \<noteq> ([2] :: hash, 0 :: u8)" by simp
  from evicted_owner_shadowed [of s "demo_output 1", unfolded a, OF s(1) this s(2), of 2001 True] s
  show ?thesis by (simp add: Let_def s_def [symmetric])
qed

end
