(* ===== verification/Verify_Cache.thy ===== *)
theory Verify_Cache
  imports Transactions "HOL-Library.Multiset"
begin

text \<open>
  The cache of verified proofs: \<^verbatim>\<open>src/crypto/cache.rs\<close>. A \<^verbatim>\<open>DashMap\<close> from keys
  to last-access times is an association list with distinct keys; its order stands for the
  unspecified iteration order of the map. The clock is a parameter of every operation, in
  seconds. Only successful verifications are stored.

  The interface \<open>positive_cache\<close> states when a hit may replace a verification: the
  hashed text must determine the statement that was verified.
\<close>

section \<open>State and operations\<close>

definition MAX_CACHE_SIZE :: nat where "MAX_CACHE_SIZE = 100000"

type_synonym cache_entries = "(bytes \<times> nat) list"

record verification_cache =
  bulletproof_cache :: cache_entries
  ring_sig_cache :: cache_entries
  hits :: nat
  misses :: nat

definition cache_new :: verification_cache where
  "cache_new = \<lparr>bulletproof_cache = [], ring_sig_cache = [], hits = 0, misses = 0\<rparr>"

definition cache_keys :: "cache_entries \<Rightarrow> bytes set" where
  "cache_keys es = fst ` set es"

definition cache_touch :: "bytes \<Rightarrow> nat \<Rightarrow> cache_entries \<Rightarrow> cache_entries" where
  "cache_touch k now es = map (\<lambda>(k', t). (k', if k' = k then now else t)) es"

definition cache_insert :: "bytes \<Rightarrow> nat \<Rightarrow> cache_entries \<Rightarrow> cache_entries" where
  "cache_insert k now es = (if k \<in> cache_keys es then cache_touch k now es else es @ [(k, now)])"

definition check_bulletproof :: "bytes \<Rightarrow> nat \<Rightarrow> verification_cache \<Rightarrow> bool option \<times> verification_cache" where
  "check_bulletproof k now c =
     (if k \<in> cache_keys (bulletproof_cache c)
      then (Some True, c\<lparr>bulletproof_cache := cache_touch k now (bulletproof_cache c), hits := as_u64 (hits c + 1)\<rparr>)
      else (None, c\<lparr>misses := as_u64 (misses c + 1)\<rparr>))"

definition check_ring_sig :: "bytes \<Rightarrow> nat \<Rightarrow> verification_cache \<Rightarrow> bool option \<times> verification_cache" where
  "check_ring_sig k now c =
     (if k \<in> cache_keys (ring_sig_cache c)
      then (Some True, c\<lparr>ring_sig_cache := cache_touch k now (ring_sig_cache c), hits := as_u64 (hits c + 1)\<rparr>)
      else (None, c\<lparr>misses := as_u64 (misses c + 1)\<rparr>))"

definition retain_recent :: "nat \<Rightarrow> cache_entries \<Rightarrow> cache_entries" where
  "retain_recent now es = (if 3600 \<le> now then filter (\<lambda>(_, t). now - 3600 < t) es else es)"

definition evict_old :: "nat \<Rightarrow> cache_entries \<Rightarrow> cache_entries" where
  "evict_old now es = (let es = retain_recent now es in
     if MAX_CACHE_SIZE \<le> length es
     then let victims = map fst (take (MAX_CACHE_SIZE div 10) (sort_key snd es)) in
       filter (\<lambda>(k, _). k \<notin> set victims) es
     else es)"

definition cache_store :: "bytes \<Rightarrow> bool \<Rightarrow> nat \<Rightarrow> cache_entries \<Rightarrow> cache_entries" where
  "cache_store k valid now es =
     (if \<not> valid then es
      else cache_insert k now (if MAX_CACHE_SIZE \<le> length es then evict_old now es else es))"

definition cache_bulletproof :: "bytes \<Rightarrow> bool \<Rightarrow> nat \<Rightarrow> verification_cache \<Rightarrow> verification_cache" where
  "cache_bulletproof k valid now c = c\<lparr>bulletproof_cache := cache_store k valid now (bulletproof_cache c)\<rparr>"

definition cache_ring_sig :: "bytes \<Rightarrow> bool \<Rightarrow> nat \<Rightarrow> verification_cache \<Rightarrow> verification_cache" where
  "cache_ring_sig k valid now c = c\<lparr>ring_sig_cache := cache_store k valid now (ring_sig_cache c)\<rparr>"

definition cache_clear :: "verification_cache \<Rightarrow> verification_cache" where
  "cache_clear c = cache_new"

definition proof_preimage :: "bytes \<Rightarrow> bytes \<Rightarrow> bytes" where
  "proof_preimage proof_data commitment_data = ascii ''COINCYNC_PROOF_CACHE_v1'' @ proof_data @ commitment_data"

definition proof_cache_key :: "(bytes \<Rightarrow> hash) \<Rightarrow> bytes \<Rightarrow> bytes \<Rightarrow> hash" where
  "proof_cache_key H proof_data commitment_data = H (proof_preimage proof_data commitment_data)"

definition ring_sig_preimage :: "bytes \<Rightarrow> bytes \<Rightarrow> bytes" where
  "ring_sig_preimage message sig_data = ascii ''COINCYNC_RINGSIG_CACHE_v1'' @ message @ sig_data"

definition ring_sig_cache_key :: "(bytes \<Rightarrow> hash) \<Rightarrow> bytes \<Rightarrow> bytes \<Rightarrow> hash" where
  "ring_sig_cache_key H message sig_data = H (ring_sig_preimage message sig_data)"

definition ring_sig_statement_cache_key :: "(bytes \<Rightarrow> hash) \<Rightarrow> bytes \<Rightarrow> bytes \<Rightarrow> bytes \<Rightarrow> bytes \<Rightarrow> hash" where
  "ring_sig_statement_cache_key H message sig_data ring_data pseudo_output =
     H (ascii ''COINCYNC_RINGSIG_STATEMENT_CACHE_v1'' @
        concat (map (\<lambda>field. le_bytes 8 (as_u64 (length field)) @ field) [message, sig_data, ring_data]) @
        pseudo_output)"

section \<open>The cache is bounded and stores successes only\<close>

lemma cache_keys_touch [simp]: "cache_keys (cache_touch k now es) = cache_keys es"
  by (force simp: cache_keys_def cache_touch_def)

lemma map_fst_touch [simp]: "map fst (cache_touch k now es) = map fst es"
  by (induction es) (auto simp: cache_touch_def)

lemma length_touch [simp]: "length (cache_touch k now es) = length es"
  by (simp add: cache_touch_def)

lemma cache_keys_insert [simp]: "cache_keys (cache_insert k now es) = insert k (cache_keys es)"
  by (auto simp: cache_insert_def) (auto simp: cache_keys_def)

lemma retain_recent_keys: "cache_keys (retain_recent now es) \<subseteq> cache_keys es"
  by (auto simp: retain_recent_def cache_keys_def)

lemma evict_old_keys: "cache_keys (evict_old now es) \<subseteq> cache_keys es"
  using retain_recent_keys [of now es] by (auto simp: evict_old_def Let_def cache_keys_def)

lemma cache_store_keys: "cache_keys (cache_store k valid now es) \<subseteq> (if valid then insert k (cache_keys es) else cache_keys es)"
  using evict_old_keys [of now es] by (auto simp: cache_store_def)

definition entries_ok :: "cache_entries \<Rightarrow> bool" where
  "entries_ok es \<longleftrightarrow> distinct (map fst es) \<and> length es \<le> MAX_CACHE_SIZE"

lemma distinct_filter_fst: "distinct (map fst es) \<Longrightarrow> distinct (map fst (filter P es))"
  by (simp add: distinct_map_filter)

text \<open>An eviction leaves room: it removes a tenth of a full cache.\<close>

lemma filter_keys_length:
  assumes "distinct (map fst es)" "set vs \<subseteq> fst ` set es" "distinct vs"
  shows "length (filter (\<lambda>(k, _). k \<notin> set vs) es) = length es - length vs"
proof -
  have "set (map fst (filter (\<lambda>(k, _). k \<notin> set vs) es)) = fst ` set es - set vs" by force
  moreover have "distinct (map fst (filter (\<lambda>(k, _). k \<notin> set vs) es))" using assms(1) by (rule distinct_filter_fst)
  ultimately have "length (filter (\<lambda>(k, _). k \<notin> set vs) es) = card (fst ` set es - set vs)"
    using distinct_card by fastforce
  also have "\<dots> = card (fst ` set es) - card (set vs)" using assms(2) by (simp add: card_Diff_subset)
  also have "card (fst ` set es) = length es" using assms(1) distinct_card by fastforce
  finally show ?thesis using assms(3) by (simp add: distinct_card)
qed

lemma distinct_sort_key_fst: "distinct (map fst es) \<Longrightarrow> distinct (map fst (sort_key f es))"
proof -
  assume d: "distinct (map fst es)"
  have "mset (map fst (sort_key f es)) = mset (map fst es)" by simp
  then show ?thesis using d by (metis mset_eq_imp_distinct_iff)
qed

lemma entries_ok_retain: "entries_ok es \<Longrightarrow> entries_ok (retain_recent now es)"
  by (auto simp: retain_recent_def entries_ok_def intro: distinct_filter_fst le_trans [OF length_filter_le])

lemma evict_old_ok:
  assumes "entries_ok es"
  shows "entries_ok (evict_old now es) \<and> length (evict_old now es) < MAX_CACHE_SIZE"
proof -
  define rs where "rs = retain_recent now es"
  define vs where "vs = map fst (take (MAX_CACHE_SIZE div 10) (sort_key snd rs))"
  have ok: "distinct (map fst rs)" "length rs \<le> MAX_CACHE_SIZE"
    using entries_ok_retain [OF assms, of now] by (simp_all add: entries_ok_def rs_def)
  show ?thesis
  proof (cases "MAX_CACHE_SIZE \<le> length rs")
    case True
    have "vs = take (MAX_CACHE_SIZE div 10) (map fst (sort_key snd rs))" by (simp add: vs_def take_map)
    then have vs: "distinct vs" "set vs \<subseteq> fst ` set rs"
      using distinct_sort_key_fst [OF ok(1), of snd] set_take_subset [of _ "map fst (sort_key snd rs)"]
      by (simp_all add: distinct_take)
    have len: "length vs = MAX_CACHE_SIZE div 10" using True by (simp add: vs_def MAX_CACHE_SIZE_def)
    have e: "evict_old now es = filter (\<lambda>(k, _). k \<notin> set vs) rs"
      using True unfolding evict_old_def Let_def rs_def [symmetric] vs_def by simp
    have "length (evict_old now es) = length rs - MAX_CACHE_SIZE div 10"
      unfolding e using filter_keys_length [OF ok(1) vs(2,1)] len by simp
    moreover have "distinct (map fst (evict_old now es))" unfolding e by (rule distinct_filter_fst [OF ok(1)])
    ultimately show ?thesis using ok(2) by (simp add: entries_ok_def MAX_CACHE_SIZE_def) arith
  next
    case False
    then have "evict_old now es = rs" unfolding evict_old_def Let_def rs_def by simp
    then show ?thesis using False ok by (simp add: entries_ok_def)
  qed
qed

lemma cache_store_ok: "entries_ok es \<Longrightarrow> entries_ok (cache_store k valid now es)"
proof -
  assume ok: "entries_ok es"
  have ins: "entries_ok (cache_insert k now xs)" if "entries_ok xs" "length xs < MAX_CACHE_SIZE" for xs
    using that by (auto simp: cache_insert_def entries_ok_def cache_keys_def)
  show ?thesis using ok evict_old_ok [OF ok, of now] ins by (auto simp: cache_store_def not_le)
qed

section \<open>When a hit may replace a verification\<close>

definition collision_free :: "(bytes \<Rightarrow> hash) \<Rightarrow> bytes set \<Rightarrow> bool" where
  "collision_free H S \<longleftrightarrow> inj_on H S"

text \<open>
  \<open>sound_entries H pre truth T es\<close> says that every key of the cache was stored for a
  statement of \<open>T\<close> that had been verified.
\<close>

definition sound_entries :: "(bytes \<Rightarrow> hash) \<Rightarrow> ('s \<Rightarrow> bytes) \<Rightarrow> ('s \<Rightarrow> bool) \<Rightarrow> 's set \<Rightarrow> cache_entries \<Rightarrow> bool" where
  "sound_entries H pre truth T es \<longleftrightarrow> cache_keys es \<subseteq> (\<lambda>s. H (pre s)) ` {s \<in> T. truth s}"

definition cached_verify :: "(bytes \<Rightarrow> hash) \<Rightarrow> ('s \<Rightarrow> bytes) \<Rightarrow> ('s \<Rightarrow> bool) \<Rightarrow> nat \<Rightarrow> 's \<Rightarrow> cache_entries \<Rightarrow> bool \<times> cache_entries" where
  "cached_verify H pre truth now s es =
     (if H (pre s) \<in> cache_keys es then (True, cache_touch (H (pre s)) now es)
      else (truth s, cache_store (H (pre s)) (truth s) now es))"

locale positive_cache =
  fixes pre :: "'s \<Rightarrow> bytes" and truth :: "'s \<Rightarrow> bool" and wf :: "'s \<Rightarrow> bool"
  assumes pre_determines: "wf s \<Longrightarrow> wf t \<Longrightarrow> pre s = pre t \<Longrightarrow> truth s = truth t"
begin

lemma hit_sound:
  assumes "sound_entries H pre truth T es" "H (pre s) \<in> cache_keys es" "wf s" "\<forall>t\<in>T. wf t"
    "collision_free H (pre ` insert s T)"
  shows "truth s"
proof -
  obtain t where t: "t \<in> T" "truth t" "H (pre s) = H (pre t)"
    using assms(1,2) by (auto simp: sound_entries_def)
  then have "pre s = pre t" using assms(5) by (auto simp: collision_free_def inj_on_def)
  then show ?thesis using pre_determines [of s t] assms(3,4) t by auto
qed

lemma cached_verify_correct:
  assumes "sound_entries H pre truth T es" "entries_ok es" "wf s" "\<forall>t\<in>T. wf t"
    "collision_free H (pre ` insert s T)"
  shows "fst (cached_verify H pre truth now s es) = truth s"
    "sound_entries H pre truth (insert s T) (snd (cached_verify H pre truth now s es))"
    "entries_ok (snd (cached_verify H pre truth now s es))"
proof -
  show "fst (cached_verify H pre truth now s es) = truth s"
    using hit_sound [OF assms(1) _ assms(3-5)] by (auto simp: cached_verify_def)
  have "cache_keys (snd (cached_verify H pre truth now s es)) \<subseteq>
      cache_keys es \<union> (if truth s then {H (pre s)} else {})"
    using cache_store_keys [of "H (pre s)" "truth s" now es] by (auto simp: cached_verify_def split: if_splits)
  then show "sound_entries H pre truth (insert s T) (snd (cached_verify H pre truth now s es))"
    using assms(1) by (auto simp: sound_entries_def split: if_splits)
  show "entries_ok (snd (cached_verify H pre truth now s es))"
    using assms(2) by (auto simp: cached_verify_def cache_store_ok) (simp add: entries_ok_def)
qed

end

end
