(* ===== verification/Tx_Extra.thy ===== *)
theory Tx_Extra
  imports Transactions
begin

text \<open>
  The tagged records of a transaction's extra field: dead-man's-switch recovery entries
  (\<^verbatim>\<open>src/transaction/recovery.rs\<close>) and encrypted payment ids
  (\<^verbatim>\<open>src/transaction/payment_id.rs\<close>). Both scanners walk the same bytes with a
  position that only moves forward. A scan position is the rest of the bytes from it on.
\<close>

section \<open>Recovery entries\<close>

definition RECOVERY_TAG :: u8 where "RECOVERY_TAG = 0xDE"
definition RECOVERY_ENTRY_SIZE :: nat where "RECOVERY_ENTRY_SIZE = 42"
definition MAX_RECOVERY_TIMEOUT :: nat where "MAX_RECOVERY_TIMEOUT = 525960"
definition MIN_RECOVERY_TIMEOUT :: nat where "MIN_RECOVERY_TIMEOUT = 720"
definition PAYMENT_ID_TAG :: u8 where "PAYMENT_ID_TAG = 0x9D"
definition PAYMENT_ID_LEN :: nat where "PAYMENT_ID_LEN = 8"

record recovery_meta =
  rec_output_index :: u8
  recovery_address :: bytes
  timeout_blocks :: nat

definition recovery_encode :: "recovery_meta \<Rightarrow> bytes" where
  "recovery_encode m = [RECOVERY_TAG, rec_output_index m] @ recovery_address m @ le_bytes 8 (timeout_blocks m)"

definition recovery_decode :: "bytes \<Rightarrow> recovery_meta option" where
  "recovery_decode d =
     (if length d < RECOVERY_ENTRY_SIZE then None
      else if d ! 0 \<noteq> RECOVERY_TAG then None
      else Some \<lparr>rec_output_index = d ! 1, recovery_address = take 32 (drop 2 d),
                 timeout_blocks = from_le_bytes (take 8 (drop 34 d))\<rparr>)"

function decode_all :: "bytes \<Rightarrow> recovery_meta list" where
  "decode_all rest =
     (if rest = [] then []
      else if hd rest = RECOVERY_TAG \<and> RECOVERY_ENTRY_SIZE \<le> length rest
      then (case recovery_decode rest of Some m \<Rightarrow> [m] | None \<Rightarrow> []) @ decode_all (drop RECOVERY_ENTRY_SIZE rest)
      else if hd rest = PAYMENT_ID_TAG \<and> 2 \<le> length rest
      then decode_all (drop (2 + unat (rest ! 1)) rest)
      else decode_all (tl rest))"
  by pat_completeness auto
termination
  by (relation "measure length") (auto simp: RECOVERY_ENTRY_SIZE_def)

declare decode_all.simps [simp del]

definition encode_all :: "recovery_meta list \<Rightarrow> bytes" where
  "encode_all ms = concat (map recovery_encode ms)"

definition recovery_validate :: "recovery_meta \<Rightarrow> nat \<Rightarrow> string + unit" where
  "recovery_validate m output_count =
     (if output_count \<le> unat (rec_output_index m) then Inl ''recovery output_index out of range''
      else if timeout_blocks m < MIN_RECOVERY_TIMEOUT then Inl ''recovery timeout too short''
      else if MAX_RECOVERY_TIMEOUT < timeout_blocks m then Inl ''recovery timeout too long''
      else if recovery_address m = replicate 32 0 then Inl ''recovery address must not be zero''
      else Inr ())"

definition is_recovery_eligible :: "recovery_meta \<Rightarrow> nat \<Rightarrow> nat \<Rightarrow> bool" where
  "is_recovery_eligible m creation_height current_height \<longleftrightarrow>
     timeout_blocks m \<le> sat_sub current_height creation_height"

fun validate_entries :: "nat \<Rightarrow> u8 set \<Rightarrow> recovery_meta list \<Rightarrow> string + unit" where
  "validate_entries n seen [] = Inr ()"
| "validate_entries n seen (m # ms) = (case recovery_validate m n of
     Inl e \<Rightarrow> Inl e
   | Inr _ \<Rightarrow> if rec_output_index m \<in> seen then Inl ''duplicate recovery entry for output index''
             else validate_entries n (insert (rec_output_index m) seen) ms)"

definition validate_recovery_extra :: "bytes \<Rightarrow> nat \<Rightarrow> string + unit" where
  "validate_recovery_extra ext output_count = validate_entries output_count {} (decode_all ext)"

section \<open>Payment ids\<close>

definition encode_extra :: "bytes \<Rightarrow> bytes" where
  "encode_extra pid = [PAYMENT_ID_TAG, of_nat (length pid)] @ pid"

function find_encrypted :: "bytes \<Rightarrow> bytes option" where
  "find_encrypted rest =
     (if rest = [] then None
      else if hd rest = PAYMENT_ID_TAG
      then if length rest < 2 then None
           else let len = unat (rest ! 1) in
             if length rest < 2 + len then None else Some (take len (drop 2 rest))
      else if hd rest = RECOVERY_TAG \<and> RECOVERY_ENTRY_SIZE \<le> length rest
      then find_encrypted (drop RECOVERY_ENTRY_SIZE rest)
      else find_encrypted (tl rest))"
  by pat_completeness auto
termination
  by (relation "measure length") (auto simp: RECOVERY_ENTRY_SIZE_def)

declare find_encrypted.simps [simp del]

section \<open>Round trips\<close>

definition wf_recovery :: "recovery_meta \<Rightarrow> bool" where
  "wf_recovery m \<longleftrightarrow> length (recovery_address m) = 32 \<and> timeout_blocks m \<le> u64_max"

lemma length_recovery_encode: "wf_recovery m \<Longrightarrow> length (recovery_encode m) = RECOVERY_ENTRY_SIZE"
  by (simp add: recovery_encode_def wf_recovery_def RECOVERY_ENTRY_SIZE_def)

lemma recovery_decode_encode:
  assumes "wf_recovery m"
  shows "recovery_decode (recovery_encode m @ rest) = Some m"
proof -
  have "256 ^ 8 = u64_max + 1" by (simp add: u64_max_def)
  then have "from_le_bytes (le_bytes 8 (timeout_blocks m)) = timeout_blocks m"
    using assms by (simp add: from_le_le_bytes wf_recovery_def)
  then show ?thesis using assms
    by (simp add: recovery_decode_def recovery_encode_def wf_recovery_def RECOVERY_ENTRY_SIZE_def)
qed

lemma decode_all_recovery:
  assumes "wf_recovery m"
  shows "decode_all (recovery_encode m @ rest) = m # decode_all rest"
proof -
  have "recovery_encode m @ rest \<noteq> []" "hd (recovery_encode m @ rest) = RECOVERY_TAG"
    by (simp_all add: recovery_encode_def)
  moreover have "RECOVERY_ENTRY_SIZE \<le> length (recovery_encode m @ rest)"
    "drop RECOVERY_ENTRY_SIZE (recovery_encode m @ rest) = rest"
    using length_recovery_encode [OF assms] by simp_all
  ultimately show ?thesis
    by (subst decode_all.simps) (simp add: recovery_decode_encode [OF assms])
qed

lemma decode_all_payment:
  assumes "length pid < 256"
  shows "decode_all (encode_extra pid @ rest) = decode_all rest"
proof -
  have "unat (of_nat (length pid) :: u8) = length pid" using assms by (simp add: unat_of_nat)
  then show ?thesis
    by (subst decode_all.simps) (simp add: encode_extra_def RECOVERY_TAG_def PAYMENT_ID_TAG_def)
qed

lemma decode_all_encode_all:
  "list_all wf_recovery ms \<Longrightarrow> decode_all (encode_all ms @ rest) = ms @ decode_all rest"
  by (induction ms) (simp_all add: encode_all_def decode_all_recovery)

lemma find_encrypted_skip:
  "list_all wf_recovery ms \<Longrightarrow> find_encrypted (encode_all ms @ rest) = find_encrypted rest"
proof (induction ms)
  case (Cons m ms)
  define r where "r = recovery_encode m @ encode_all ms @ rest"
  have m: "wf_recovery m" using Cons.prems by simp
  have "r \<noteq> []" "hd r = RECOVERY_TAG" by (simp_all add: r_def recovery_encode_def)
  moreover have "RECOVERY_ENTRY_SIZE \<le> length r" "drop RECOVERY_ENTRY_SIZE r = encode_all ms @ rest"
    using length_recovery_encode [OF m] by (simp_all add: r_def)
  ultimately have "find_encrypted r = find_encrypted (encode_all ms @ rest)"
    by (subst find_encrypted.simps) (simp add: RECOVERY_TAG_def PAYMENT_ID_TAG_def)
  then show ?case using Cons by (simp add: encode_all_def r_def)
qed (simp add: encode_all_def)

lemma find_encrypted_payment:
  assumes "length pid < 256"
  shows "find_encrypted (encode_extra pid @ rest) = Some pid"
proof -
  have "unat (of_nat (length pid) :: u8) = length pid" using assms by (simp add: unat_of_nat)
  then show ?thesis by (subst find_encrypted.simps) (simp add: encode_extra_def)
qed

lemma validate_entries_ok:
  "validate_entries n seen ms = Inr () \<longleftrightarrow>
     list_all (\<lambda>m. recovery_validate m n = Inr ()) ms \<and> distinct (map rec_output_index ms) \<and>
     seen \<inter> rec_output_index ` set ms = {}"
  by (induction ms arbitrary: seen) (auto split: sum.splits)

text \<open>
  C39 (the extra field is unambiguous). Recovery entries and a payment id written one after
  the other are read back exactly by both scanners, whatever bytes they contain: a payment
  id that contains the recovery tag is never read as a recovery entry. Validation then
  accepts exactly the entries with in-range distinct output indexes, permitted timeouts and
  a non-zero address.
\<close>

theorem extra_field_roundtrip:
  assumes "list_all wf_recovery ms" "length pid < 256"
  shows "decode_all (encode_all ms @ encode_extra pid) = ms \<and>
     find_encrypted (encode_all ms @ encode_extra pid) = Some pid \<and>
     (validate_recovery_extra (encode_all ms @ encode_extra pid) n = Inr () \<longleftrightarrow>
        distinct (map rec_output_index ms) \<and>
        list_all (\<lambda>m. unat (rec_output_index m) < n \<and> 720 \<le> timeout_blocks m \<and>
           timeout_blocks m \<le> 525960 \<and> recovery_address m \<noteq> replicate 32 0) ms)"
proof -
  have "decode_all [] = []" by (simp add: decode_all.simps)
  then have d: "decode_all (encode_all ms @ encode_extra pid) = ms"
    using decode_all_encode_all [OF assms(1), of "encode_extra pid"] decode_all_payment [OF assms(2), of "[]"]
    by simp
  have "recovery_validate m n = Inr () \<longleftrightarrow> unat (rec_output_index m) < n \<and> 720 \<le> timeout_blocks m \<and>
      timeout_blocks m \<le> 525960 \<and> recovery_address m \<noteq> replicate 32 0" for m
    by (auto simp: recovery_validate_def MIN_RECOVERY_TIMEOUT_def MAX_RECOVERY_TIMEOUT_def)
  then show ?thesis
    using d find_encrypted_skip [OF assms(1), of "encode_extra pid"] find_encrypted_payment [OF assms(2), of "[]"]
    by (auto simp: validate_recovery_extra_def validate_entries_ok)
qed

theorem extra_field_roundtrip_witness:
  "let ms = [\<lparr>rec_output_index = 1, recovery_address = replicate 32 7, timeout_blocks = 1000\<rparr>] in
   list_all wf_recovery ms \<and> decode_all (encode_all ms @ encode_extra [0xDE, 0x9D]) = ms \<and>
   validate_recovery_extra (encode_all ms @ encode_extra [0xDE, 0x9D]) 2 = Inr ()"
proof -
  define ms where "ms = [\<lparr>rec_output_index = 1, recovery_address = replicate 32 (7 :: u8), timeout_blocks = 1000\<rparr>]"
  have ok: "list_all wf_recovery ms" by (simp add: ms_def wf_recovery_def width_eqs)
  have "replicate 32 (7 :: u8) \<noteq> replicate 32 0" by (simp add: replicate_eq_replicate)
  then show ?thesis using extra_field_roundtrip [OF ok, of "[0xDE, 0x9D]" 2] ok
    unfolding Let_def ms_def [symmetric] by (simp add: ms_def)
qed

end
