(* ===== verification/Spark_Pool.thy ===== *)
theory Spark_Pool
  imports Transactions "HOL-Library.AList"
begin

text \<open>
  The shielded pool: \<^verbatim>\<open>src/storage/spark_pool.rs\<close> and the payloads that change it,
  \<^verbatim>\<open>src/consensus/spark_payload.rs\<close>. The lock-protected fields are one record, the
  write-through database trees its \<open>persistence\<close>; a tree or hash map is an association
  list with distinct keys. A failed database write stops the node in the source, so a
  model state is always one whose writes succeeded. An absent pool value on disk reads as
  zero and is stored as zero here. The proof backend is a parameter.

  The lemmas show that a rewind restores the state of the checkpoint, that a restart
  restores the state on disk, that an anchored cover set never changes as the pool grows,
  and that the pool value is exactly what was shielded less what was unshielded.
\<close>

named_theorems pool_defs \<open>the state-changing operations of the pool\<close>

section \<open>State\<close>

definition MAX_CHECKPOINTS :: nat where "MAX_CHECKPOINTS = 1000"
definition SPARK_COVER_SET_GROUP :: nat where "SPARK_COVER_SET_GROUP = 512"

record spark_coin =
  sp_outpoint :: bytes
  sp_coin :: bytes
  sp_serial_context :: bytes
  sp_height :: nat
  sp_cover_index :: nat

record pool_checkpoint =
  cp_height :: nat
  cp_coins_len :: nat
  cp_pool_value :: int

record pool_disk =
  disk_coins :: "(nat \<times> spark_coin) list"
  disk_tags :: "(bytes \<times> nat) list"
  disk_pool_value :: int

record spark_pool =
  coins :: "spark_coin list"
  by_outpoint :: "bytes \<rightharpoonup> nat"
  spent_tags :: "(bytes \<times> nat) list"
  checkpoints :: "pool_checkpoint list"
  max_coin_height :: "nat option"
  max_spent_tag_height :: "nat option"
  pool_value :: int
  persistence :: "pool_disk option"

definition pool_new :: spark_pool where
  "pool_new = \<lparr>coins = [], by_outpoint = Map.empty, spent_tags = [], checkpoints = [],
     max_coin_height = None, max_spent_tag_height = None, pool_value = 0, persistence = None\<rparr>"

definition iter_max :: "nat list \<Rightarrow> nat option" where
  "iter_max xs = (if xs = [] then None else Some (fold max xs 0))"

text \<open>Loading: the coins in the order of their keys, then the tags and the pool value.\<close>

definition load_outpoints :: "(nat \<times> spark_coin) list \<Rightarrow> bytes \<rightharpoonup> nat" where
  "load_outpoints xs = fold (\<lambda>(i, c) m. m(sp_outpoint c \<mapsto> i)) xs Map.empty"

definition open_with_db :: "pool_disk \<Rightarrow> spark_pool" where
  "open_with_db d = (let loaded = sort_key fst (disk_coins d);
       cs = map (\<lambda>(i, c). c\<lparr>sp_cover_index := i\<rparr>) loaded in
     \<lparr>coins = cs, by_outpoint = load_outpoints loaded, spent_tags = disk_tags d, checkpoints = [],
      max_coin_height = iter_max (map sp_height cs), max_spent_tag_height = iter_max (map snd (disk_tags d)),
      pool_value = disk_pool_value d, persistence = Some d\<rparr>)"

section \<open>Operations\<close>

definition bump_max :: "nat \<Rightarrow> nat option \<Rightarrow> nat option" where
  "bump_max h m = Some (case m of None \<Rightarrow> h | Some cur \<Rightarrow> max cur h)"

definition add_coin :: "bytes \<Rightarrow> bytes \<Rightarrow> bytes \<Rightarrow> nat \<Rightarrow> spark_pool \<Rightarrow> nat option \<times> spark_pool" where [pool_defs]:
  "add_coin outpoint coin ctx h p =
     (if by_outpoint p outpoint \<noteq> None then (None, p)
      else let i = length (coins p);
               entry = \<lparr>sp_outpoint = outpoint, sp_coin = coin, sp_serial_context = ctx, sp_height = h,
                        sp_cover_index = i\<rparr> in
        (Some i, p\<lparr>persistence := map_option (\<lambda>d. d\<lparr>disk_coins := AList.update i entry (disk_coins d)\<rparr>) (persistence p),
                   by_outpoint := (by_outpoint p)(outpoint \<mapsto> i),
                   coins := coins p @ [entry],
                   max_coin_height := bump_max h (max_coin_height p)\<rparr>))"

definition cover_set :: "spark_pool \<Rightarrow> bytes list" where
  "cover_set p = map sp_coin (coins p)"

definition in_cover_set :: "nat \<Rightarrow> nat \<Rightarrow> nat \<times> spark_coin \<Rightarrow> bool" where
  "in_cover_set cover_set_id anchor_height x = (case x of (idx, c) \<Rightarrow>
     let start = sat_mul64 cover_set_id SPARK_COVER_SET_GROUP in
     start \<le> idx \<and> idx < sat_add64 start SPARK_COVER_SET_GROUP \<and> sp_height c \<le> anchor_height)"

definition cover_set_at :: "nat \<Rightarrow> nat \<Rightarrow> spark_pool \<Rightarrow> bytes list" where
  "cover_set_at cover_set_id anchor_height p =
     map (sp_coin \<circ> snd) (filter (in_cover_set cover_set_id anchor_height) (enumerate 0 (coins p)))"

definition cover_entries_at :: "nat \<Rightarrow> nat \<Rightarrow> spark_pool \<Rightarrow> (bytes \<times> bytes \<times> bytes \<times> nat) list" where
  "cover_entries_at cover_set_id anchor_height p =
     map (\<lambda>(_, c). (sp_outpoint c, sp_coin c, sp_serial_context c, sp_height c))
       (filter (in_cover_set cover_set_id anchor_height) (enumerate 0 (coins p)))"

definition coin_count :: "spark_pool \<Rightarrow> nat" where "coin_count p = length (coins p)"

definition coin_entries :: "spark_pool \<Rightarrow> (bytes \<times> bytes \<times> bytes \<times> nat) list" where
  "coin_entries p = map (\<lambda>c. (sp_outpoint c, sp_coin c, sp_serial_context c, sp_height c)) (coins p)"

definition index_of :: "bytes \<Rightarrow> spark_pool \<Rightarrow> nat option" where
  "index_of outpoint p = by_outpoint p outpoint"

definition coin_at :: "nat \<Rightarrow> spark_pool \<Rightarrow> spark_coin option" where
  "coin_at i p = (if i < length (coins p) then Some (coins p ! i) else None)"

definition context_for :: "bytes \<Rightarrow> spark_pool \<Rightarrow> bytes option" where
  "context_for outpoint p = (case by_outpoint p outpoint of
     None \<Rightarrow> None | Some i \<Rightarrow> map_option sp_serial_context (coin_at i p))"

definition mark_tag_spent :: "bytes \<Rightarrow> nat \<Rightarrow> spark_pool \<Rightarrow> bool \<times> spark_pool" where [pool_defs]:
  "mark_tag_spent tag h p =
     (if map_of (spent_tags p) tag \<noteq> None then (False, p)
      else (True, p\<lparr>persistence := map_option (\<lambda>d. d\<lparr>disk_tags := AList.update tag h (disk_tags d)\<rparr>) (persistence p),
                    spent_tags := AList.update tag h (spent_tags p),
                    max_spent_tag_height := bump_max h (max_spent_tag_height p)\<rparr>))"

definition is_tag_spent :: "bytes \<Rightarrow> spark_pool \<Rightarrow> bool" where
  "is_tag_spent tag p \<longleftrightarrow> map_of (spent_tags p) tag \<noteq> None"

definition spent_tag_height :: "bytes \<Rightarrow> spark_pool \<Rightarrow> nat option" where
  "spent_tag_height tag p = map_of (spent_tags p) tag"

definition pool_clear :: "spark_pool \<Rightarrow> spark_pool" where [pool_defs]:
  "pool_clear p = pool_new\<lparr>persistence :=
     map_option (\<lambda>d. \<lparr>disk_coins = [], disk_tags = [], disk_pool_value = 0\<rparr>) (persistence p)\<rparr>"

definition coins_at_or_after :: "nat \<Rightarrow> spark_pool \<Rightarrow> nat" where
  "coins_at_or_after h p = length (filter (\<lambda>c. h \<le> sp_height c) (coins p))"

definition set_pool_value :: "int \<Rightarrow> spark_pool \<Rightarrow> spark_pool" where
  "set_pool_value v p = p\<lparr>pool_value := v,
     persistence := map_option (\<lambda>d. d\<lparr>disk_pool_value := v\<rparr>) (persistence p)\<rparr>"

definition apply_value_balance :: "int \<Rightarrow> spark_pool \<Rightarrow> unit result \<times> spark_pool" where [pool_defs]:
  "apply_value_balance vb p = (let after = pool_value p - vb in
     if after < 0 then (Inl (InvalidTransaction ''shielded pool underflow''), p)
     else (Inr (), set_pool_value after p))"

definition spent_tag_list :: "spark_pool \<Rightarrow> bytes list" where
  "spent_tag_list p = map fst (spent_tags p)"

definition checkpoint_at_height :: "nat \<Rightarrow> spark_pool \<Rightarrow> spark_pool" where [pool_defs]:
  "checkpoint_at_height h p = (let
     cps = checkpoints p @ [\<lparr>cp_height = h, cp_coins_len = length (coins p), cp_pool_value = pool_value p\<rparr>] in
     p\<lparr>checkpoints := (if MAX_CHECKPOINTS < length cps then tl cps else cps)\<rparr>)"

definition current_root :: "(bytes \<Rightarrow> hash) \<Rightarrow> spark_pool \<Rightarrow> hash" where
  "current_root H p = H (ascii ''COINCYNC_SPARK_POOL_ROOT_v1'' @
     concat (map (\<lambda>c. le_bytes 8 (length (sp_coin c)) @ sp_coin c) (coins p)))"

definition remove_keys :: "'a list \<Rightarrow> ('a \<times> 'b) list \<Rightarrow> ('a \<times> 'b) list" where
  "remove_keys ks xs = fold AList.delete ks xs"

definition rewind_to :: "pool_checkpoint \<Rightarrow> spark_pool \<Rightarrow> spark_pool" where
  "rewind_to cp p = (let
     removed = [cp_coins_len cp ..< length (coins p)];
     dropped = drop (cp_coins_len cp) (coins p);
     kept = take (cp_coins_len cp) (coins p);
     gone = map fst (filter (\<lambda>(_, h). cp_height cp \<le> h) (spent_tags p));
     tags = remove_keys gone (spent_tags p);
     p = p\<lparr>coins := kept,
           by_outpoint := fold (\<lambda>c m. m(sp_outpoint c := None)) dropped (by_outpoint p),
           spent_tags := tags,
           persistence := map_option (\<lambda>d. d\<lparr>disk_coins := remove_keys removed (disk_coins d),
                                            disk_tags := remove_keys gone (disk_tags d)\<rparr>) (persistence p),
           max_coin_height := iter_max (map sp_height kept),
           max_spent_tag_height := iter_max (map snd tags)\<rparr>
     in set_pool_value (cp_pool_value cp) p)"

definition rewind :: "spark_pool \<Rightarrow> bool \<times> spark_pool" where [pool_defs]:
  "rewind p = (if checkpoints p = [] then (False, p)
     else (True, rewind_to (last (checkpoints p)) (p\<lparr>checkpoints := butlast (checkpoints p)\<rparr>)))"

section \<open>The indexes and the disk follow the pool\<close>

definition outpoints_ok :: "(bytes \<rightharpoonup> nat) \<Rightarrow> spark_coin list \<Rightarrow> bool" where
  "outpoints_ok m cs \<longleftrightarrow> (\<forall>op i. m op = Some i \<longleftrightarrow> i < length cs \<and> sp_outpoint (cs ! i) = op)"

definition disk_of :: "spark_pool \<Rightarrow> pool_disk" where
  "disk_of p = \<lparr>disk_coins = enumerate 0 (coins p), disk_tags = spent_tags p, disk_pool_value = pool_value p\<rparr>"

definition pool_inv :: "spark_pool \<Rightarrow> bool" where
  "pool_inv p \<longleftrightarrow> map sp_cover_index (coins p) = [0 ..< length (coins p)] \<and>
     outpoints_ok (by_outpoint p) (coins p) \<and> distinct (map fst (spent_tags p)) \<and>
     max_coin_height p = iter_max (map sp_height (coins p)) \<and>
     max_spent_tag_height p = iter_max (map snd (spent_tags p)) \<and> 0 \<le> pool_value p \<and>
     (\<forall>d. persistence p = Some d \<longrightarrow> d = disk_of p)"

lemma iter_max_append: "iter_max (xs @ [h]) = bump_max h (iter_max xs)"
  by (simp add: iter_max_def bump_max_def max.commute)

lemma outpoints_ok_unique: "outpoints_ok m cs \<Longrightarrow> outpoints_ok m' cs \<Longrightarrow> m = m'"
proof (rule ext)
  fix op assume "outpoints_ok m cs" "outpoints_ok m' cs"
  then have "m op = Some i \<longleftrightarrow> m' op = Some i" for i by (simp add: outpoints_ok_def)
  then show "m op = m' op" by (metis option.exhaust)
qed

lemma outpoints_ok_inj:
  assumes "outpoints_ok m cs" "i < length cs" "j < length cs" "sp_outpoint (cs ! i) = sp_outpoint (cs ! j)"
  shows "i = j"
proof -
  have "m (sp_outpoint (cs ! j)) = Some i" "m (sp_outpoint (cs ! j)) = Some j"
    using assms by (simp_all add: outpoints_ok_def)
  then show ?thesis by simp
qed

lemma outpoints_ok_snoc:
  assumes "outpoints_ok m cs" "m (sp_outpoint c) = None"
  shows "outpoints_ok (m(sp_outpoint c \<mapsto> length cs)) (cs @ [c])"
proof -
  have "sp_outpoint (cs ! i) \<noteq> sp_outpoint c" if "i < length cs" for i
    using assms that unfolding outpoints_ok_def by (metis option.distinct(1))
  then show ?thesis using assms(1) by (auto simp: outpoints_ok_def nth_append less_Suc_eq)
qed

lemma fold_forget: "fold (\<lambda>c m. m(sp_outpoint c := None)) cs m op =
    (if op \<in> sp_outpoint ` set cs then None else m op)"
  by (induction cs arbitrary: m) auto

lemma outpoints_ok_take:
  assumes ok: "outpoints_ok m cs"
  shows "outpoints_ok (fold (\<lambda>c m. m(sp_outpoint c := None)) (drop n cs) m) (take n cs)"
  unfolding outpoints_ok_def
proof (intro allI)
  fix op i
  have "drop n cs = map ((!) cs) [n ..< length cs]"
    by (metis drop_map drop_upt map_nth plus_nat.add_0)
  then have "op \<in> sp_outpoint ` set (drop n cs) \<longleftrightarrow> (\<exists>j<length cs. n \<le> j \<and> sp_outpoint (cs ! j) = op)"
    by auto
  then have f: "fold (\<lambda>c m. m(sp_outpoint c := None)) (drop n cs) m op =
      (if \<exists>j<length cs. n \<le> j \<and> sp_outpoint (cs ! j) = op then None else m op)" by (simp add: fold_forget)
  have m: "m op = Some i \<longleftrightarrow> i < length cs \<and> sp_outpoint (cs ! i) = op" using ok by (simp add: outpoints_ok_def)
  show "fold (\<lambda>c m. m(sp_outpoint c := None)) (drop n cs) m op = Some i \<longleftrightarrow>
      i < length (take n cs) \<and> sp_outpoint (take n cs ! i) = op"
  proof (cases "i < length cs \<and> sp_outpoint (cs ! i) = op")
    case True
    then have "(\<exists>j<length cs. n \<le> j \<and> sp_outpoint (cs ! j) = op) \<longleftrightarrow> n \<le> i"
      using outpoints_ok_inj [OF ok] by blast
    then show ?thesis using True m f by auto
  next
    case False
    then show ?thesis using m f by auto
  qed
qed

lemma delete_filter: "AList.delete k xs = filter (\<lambda>x. fst x \<noteq> k) xs"
  by (induction xs) auto

lemma remove_keys_filter: "remove_keys ks xs = filter (\<lambda>x. fst x \<notin> set ks) xs"
proof (induction ks arbitrary: xs)
  case (Cons k ks)
  have "remove_keys (k # ks) xs = remove_keys ks (AList.delete k xs)" by (simp add: remove_keys_def)
  then show ?case using Cons by (simp add: delete_filter conj_commute)
qed (simp add: remove_keys_def)

lemma update_fresh: "k \<notin> fst ` set xs \<Longrightarrow> AList.update k v xs = xs @ [(k, v)]"
  by (induction xs) auto

lemma pool_inv_new: "pool_inv pool_new"
  by (simp add: pool_inv_def pool_new_def outpoints_ok_def iter_max_def)

lemma add_coin_inv:
  assumes "pool_inv p"
  shows "pool_inv (snd (add_coin outpoint coin ctx h p))"
proof (cases "by_outpoint p outpoint")
  case None
  let ?c = "\<lparr>sp_outpoint = outpoint, sp_coin = coin, sp_serial_context = ctx, sp_height = h,
    sp_cover_index = length (coins p)\<rparr>"
  have "length (coins p) \<notin> fst ` set (enumerate 0 (coins p))"
    by (auto simp: in_set_enumerate_eq)
  then have "AList.update (length (coins p)) ?c (enumerate 0 (coins p)) = enumerate 0 (coins p @ [?c])"
    by (simp add: update_fresh enumerate_append_eq)
  moreover have "outpoints_ok ((by_outpoint p)(outpoint \<mapsto> length (coins p))) (coins p @ [?c])"
    using assms None outpoints_ok_snoc [of "by_outpoint p" "coins p" ?c] by (simp add: pool_inv_def)
  ultimately show ?thesis using assms None
    by (auto simp: pool_inv_def add_coin_def Let_def disk_of_def iter_max_append)
qed (use assms in \<open>simp add: add_coin_def\<close>)

lemma mark_tag_inv:
  assumes "pool_inv p"
  shows "pool_inv (snd (mark_tag_spent tag h p))"
proof (cases "map_of (spent_tags p) tag")
  case None
  then have "tag \<notin> fst ` set (spent_tags p)" by (simp add: map_of_eq_None_iff)
  then show ?thesis using assms None
    by (auto simp: pool_inv_def mark_tag_spent_def disk_of_def update_fresh iter_max_append)
qed (use assms in \<open>simp add: mark_tag_spent_def\<close>)

lemma set_pool_value_inv: "pool_inv p \<Longrightarrow> 0 \<le> v \<Longrightarrow> pool_inv (set_pool_value v p)"
  by (auto simp: pool_inv_def set_pool_value_def disk_of_def)

lemma apply_value_inv: "pool_inv p \<Longrightarrow> pool_inv (snd (apply_value_balance vb p))"
  by (simp add: apply_value_balance_def Let_def set_pool_value_inv)

section \<open>Rewinding a block\<close>

datatype pool_op = AddCoin bytes bytes bytes | MarkTag bytes | ApplyValue int

fun pool_step :: "nat \<Rightarrow> pool_op \<Rightarrow> spark_pool \<Rightarrow> spark_pool" where
  "pool_step h (AddCoin outpoint coin ctx) p = snd (add_coin outpoint coin ctx h p)"
| "pool_step h (MarkTag tag) p = snd (mark_tag_spent tag h p)"
| "pool_step h (ApplyValue vb) p = snd (apply_value_balance vb p)"

definition extends :: "nat \<Rightarrow> spark_pool \<Rightarrow> spark_pool \<Rightarrow> bool" where
  "extends h p q \<longleftrightarrow> (\<exists>cs ts. coins q = coins p @ cs \<and> spent_tags q = spent_tags p @ ts \<and>
     (\<forall>c\<in>set cs. sp_height c = h) \<and> (\<forall>t\<in>set ts. snd t = h)) \<and> checkpoints q = checkpoints p \<and>
     (persistence q = None \<longleftrightarrow> persistence p = None) \<and> pool_inv q"

lemma extends_refl: "pool_inv p \<Longrightarrow> extends h p p"
  by (simp add: extends_def)

lemma pool_step_extends: "pool_inv q \<Longrightarrow> extends h q (pool_step h x q)"
proof (cases x)
  case (AddCoin outpoint coin ctx)
  assume "pool_inv q"
  then show ?thesis using AddCoin add_coin_inv [of q outpoint coin ctx h]
    by (auto simp: extends_def add_coin_def Let_def)
next
  case (MarkTag tag)
  assume "pool_inv q"
  then show ?thesis using MarkTag mark_tag_inv [of q tag h]
    by (auto simp: extends_def mark_tag_spent_def map_of_eq_None_iff update_fresh)
next
  case (ApplyValue vb)
  assume "pool_inv q"
  then show ?thesis using ApplyValue apply_value_inv [of q vb]
    by (auto simp: extends_def apply_value_balance_def Let_def set_pool_value_def)
qed

lemma extends_trans: "extends h p q \<Longrightarrow> extends h q r \<Longrightarrow> extends h p r"
  unfolding extends_def by (auto simp: ball_Un)

lemma pool_run_extends: "extends h p q \<Longrightarrow> extends h p (fold (pool_step h) xs q)"
proof (induction xs arbitrary: q)
  case (Cons x xs)
  have "extends h q (pool_step h x q)" using Cons.prems by (intro pool_step_extends) (simp add: extends_def)
  then show ?case using Cons extends_trans by simp
qed simp

lemma rewind_to_extends:
  assumes inv: "pool_inv p" and ext: "extends h p q" and old: "\<forall>t\<in>set (spent_tags p). snd t < h"
    and cp: "cp = \<lparr>cp_height = h, cp_coins_len = length (coins p), cp_pool_value = pool_value p\<rparr>"
  shows "rewind_to cp (q\<lparr>checkpoints := cps\<rparr>) = p\<lparr>checkpoints := cps\<rparr>"
proof -
  obtain cs ts where q: "coins q = coins p @ cs" "spent_tags q = spent_tags p @ ts" "\<forall>t\<in>set ts. snd t = h"
    and iq: "pool_inv q" and pers: "persistence q = None \<longleftrightarrow> persistence p = None"
    using ext by (auto simp: extends_def)
  define gone where "gone = map fst (filter (\<lambda>(_, g). h \<le> g) (spent_tags q))"
  have g: "gone = map fst ts"
    using old q(3) by (force simp: gone_def q(2) filter_id_conv filter_empty_conv split_beta)
  have dist: "distinct (map fst (spent_tags p @ ts))" using iq q(2) by (simp add: pool_inv_def)
  have tags: "remove_keys gone (spent_tags q) = spent_tags p"
    using dist unfolding remove_keys_filter g q(2)
    by (auto simp: filter_id_conv filter_empty_conv)
  have disk: "remove_keys [length (coins p) ..< length (coins q)] (enumerate 0 (coins q)) = enumerate 0 (coins p)"
    unfolding remove_keys_filter q(1) enumerate_append_eq
    by (auto simp: filter_id_conv filter_empty_conv in_set_enumerate_eq)
  have outs: "outpoints_ok (fold (\<lambda>c m. m(sp_outpoint c := None)) cs (by_outpoint q)) (coins p)"
    using outpoints_ok_take [of "by_outpoint q" "coins q" "length (coins p)"] iq q(1) by (simp add: pool_inv_def)
  then have outs: "fold (\<lambda>c m. m(sp_outpoint c := None)) cs (by_outpoint q) = by_outpoint p"
    using inv by (auto simp: pool_inv_def intro: outpoints_ok_unique)
  have "map_option (\<lambda>d. d\<lparr>disk_coins := remove_keys [length (coins p) ..< length (coins q)] (disk_coins d),
      disk_tags := remove_keys gone (disk_tags d), disk_pool_value := pool_value p\<rparr>) (persistence q) = persistence p"
    using iq inv pers disk tags by (cases "persistence q"; cases "persistence p") (auto simp: pool_inv_def disk_of_def)
  then show ?thesis using inv tags outs q(1) unfolding gone_def
    by (cases p) (simp add: rewind_to_def Let_def cp set_pool_value_def option.map_comp comp_def pool_inv_def)
qed

text \<open>
  C5 (a rewind undoes a block). Let a checkpoint be taken at height \<open>h\<close>, above every
  height at which a tag was spent, and let any sequence of coins, tags and value movements
  be applied at that height. One rewind restores the pool as it was: the coins, the
  outpoint index, the spent tags, the recorded maxima, the pool value and the database.
  Only the oldest of a thousand checkpoints is lost.
\<close>

theorem rewind_restores_pool:
  assumes inv: "pool_inv p" and old: "\<forall>t\<in>set (spent_tags p). snd t < h"
  shows "rewind (fold (pool_step h) ops (checkpoint_at_height h p)) =
    (True, p\<lparr>checkpoints := (if length (checkpoints p) < MAX_CHECKPOINTS then checkpoints p
                              else tl (checkpoints p))\<rparr>)"
proof -
  define cp where "cp = \<lparr>cp_height = h, cp_coins_len = length (coins p), cp_pool_value = pool_value p\<rparr>"
  define c where "c = checkpoint_at_height h p"
  have cps: "checkpoints c = (if length (checkpoints p) < MAX_CHECKPOINTS then checkpoints p
      else tl (checkpoints p)) @ [cp]"
    by (cases "checkpoints p") (simp_all add: c_def checkpoint_at_height_def cp_def Let_def MAX_CHECKPOINTS_def not_less)
  have same: "coins c = coins p" "spent_tags c = spent_tags p" "pool_value c = pool_value p"
    "c\<lparr>checkpoints := xs\<rparr> = p\<lparr>checkpoints := xs\<rparr>" for xs
    by (simp_all add: c_def checkpoint_at_height_def Let_def)
  have ic: "pool_inv c" using inv by (simp add: c_def checkpoint_at_height_def Let_def pool_inv_def disk_of_def)
  have ext: "extends h c (fold (pool_step h) ops c)" by (rule pool_run_extends [OF extends_refl [OF ic]])
  then have "checkpoints (fold (pool_step h) ops c) = checkpoints c" by (simp add: extends_def)
  then show ?thesis using rewind_to_extends [OF ic ext _ cp_def [folded same]] old same cps
    by (simp add: rewind_def c_def [symmetric])
qed

definition demo_pool :: spark_pool where
  "demo_pool = fold (pool_step 5) [ApplyValue (- 40), AddCoin [1] [11] [] , MarkTag [9]]
     (pool_new\<lparr>persistence := Some \<lparr>disk_coins = [], disk_tags = [], disk_pool_value = 0\<rparr>\<rparr>)"

lemma demo_pool_inv: "pool_inv demo_pool"
proof -
  let ?p = "pool_new\<lparr>persistence := Some \<lparr>disk_coins = [], disk_tags = [], disk_pool_value = 0\<rparr>\<rparr>"
  have "pool_inv ?p" by (simp add: pool_inv_def pool_new_def outpoints_ok_def iter_max_def disk_of_def)
  from pool_run_extends [OF extends_refl [OF this], of 5 "[ApplyValue (- 40), AddCoin [1] [11] [], MarkTag [9]]"]
  show ?thesis by (simp add: extends_def demo_pool_def del: fold.simps)
qed

lemma demo_pool_fields: "spent_tags demo_pool = [([9], 5)]" "pool_value demo_pool = 40"
  "checkpoints demo_pool = []" "map sp_coin (coins demo_pool) = [[11]]"
  by (simp_all add: demo_pool_def pool_new_def apply_value_balance_def set_pool_value_def add_coin_def
      mark_tag_spent_def Let_def)

theorem rewind_restores_pool_witness:
  "pool_inv demo_pool \<and> spent_tags demo_pool = [([9], 5)] \<and>
   rewind (fold (pool_step 6) [AddCoin [2] [22] [], MarkTag [8], ApplyValue 30] (checkpoint_at_height 6 demo_pool)) =
     (True, demo_pool)"
  using rewind_restores_pool [OF demo_pool_inv, of 6 "[AddCoin [2] [22] [], MarkTag [8], ApplyValue 30]"]
    demo_pool_inv demo_pool_fields by (simp add: MAX_CHECKPOINTS_def del: fold.simps)


lemma sort_enumerate: "sort_key fst (enumerate 0 xs) = enumerate 0 xs"
  by (rule sort_key_id_if_sorted) simp

lemma load_outpoints_ok:
  "distinct (map sp_outpoint cs) \<Longrightarrow> outpoints_ok (load_outpoints (enumerate 0 cs)) cs"
proof (induction cs rule: rev_induct)
  case Nil
  then show ?case by (simp add: load_outpoints_def outpoints_ok_def)
next
  case (snoc c cs)
  let ?m = "load_outpoints (enumerate 0 cs)"
  have IH: "outpoints_ok ?m cs" using snoc by simp
  have "?m (sp_outpoint c) \<noteq> Some i" for i
  proof
    assume "?m (sp_outpoint c) = Some i"
    then have "i < length cs" "sp_outpoint (cs ! i) = sp_outpoint c" using IH by (simp_all add: outpoints_ok_def)
    then have "sp_outpoint c \<in> sp_outpoint ` set cs" by (metis imageI nth_mem)
    then show False using snoc.prems by auto
  qed
  then have "?m (sp_outpoint c) = None" by auto
  from outpoints_ok_snoc [OF IH this]
  have "outpoints_ok (?m(sp_outpoint c \<mapsto> length cs)) (cs @ [c])" .
  moreover have "load_outpoints (enumerate 0 (cs @ [c])) = ?m(sp_outpoint c \<mapsto> length cs)"
    by (simp add: load_outpoints_def enumerate_append_eq)
  ultimately show ?case by (simp only:)
qed

lemma load_outpoints_enumerate:
  assumes "outpoints_ok m cs"
  shows "load_outpoints (enumerate 0 cs) = m"
proof -
  have "distinct (map sp_outpoint cs)"
    using outpoints_ok_inj [OF assms] by (auto simp: distinct_conv_nth)
  from outpoints_ok_unique [OF load_outpoints_ok [OF this] assms] show ?thesis .
qed

lemma reindex_coins:
  assumes "map sp_cover_index cs = [0 ..< length cs]"
  shows "map (\<lambda>(i, c). c\<lparr>sp_cover_index := i\<rparr>) (enumerate 0 cs) = cs"
proof (rule nth_equalityI)
  fix i assume "i < length (map (\<lambda>(i, c). c\<lparr>sp_cover_index := i\<rparr>) (enumerate 0 cs))"
  then have i: "i < length cs" by simp
  then have "sp_cover_index (cs ! i) = i" using arg_cong [OF assms, of "\<lambda>xs. xs ! i"] by simp
  then show "map (\<lambda>(i, c). c\<lparr>sp_cover_index := i\<rparr>) (enumerate 0 cs) ! i = cs ! i"
    using i by (cases "cs ! i") (simp add: nth_enumerate_eq)
qed simp

text \<open>
  A restart restores the pool. Opening the database that a pool wrote through gives
  the same pool, with an empty checkpoint history.
\<close>

theorem reopen_restores_pool:
  assumes inv: "pool_inv p" and d: "persistence p = Some d"
  shows "open_with_db d = p\<lparr>checkpoints := []\<rparr>"
proof -
  have d_eq: "d = disk_of p" and mx: "max_coin_height p = iter_max (map sp_height (coins p))"
    "max_spent_tag_height p = iter_max (map snd (spent_tags p))"
    using inv d unfolding pool_inv_def by blast+
  have d': "disk_coins d = enumerate 0 (coins p)" "disk_tags d = spent_tags p" "disk_pool_value d = pool_value p"
    using d_eq by (simp_all add: disk_of_def)
  have "map (\<lambda>(i, c). c\<lparr>sp_cover_index := i\<rparr>) (enumerate 0 (coins p)) = coins p"
    "load_outpoints (enumerate 0 (coins p)) = by_outpoint p"
    using inv by (simp_all add: pool_inv_def reindex_coins load_outpoints_enumerate)
  then have "open_with_db d = \<lparr>coins = coins p, by_outpoint = by_outpoint p, spent_tags = spent_tags p,
      checkpoints = [], max_coin_height = max_coin_height p, max_spent_tag_height = max_spent_tag_height p,
      pool_value = pool_value p, persistence = persistence p\<rparr>"
    by (simp add: open_with_db_def Let_def d d' mx sort_enumerate del: map_map)
  then show ?thesis by (intro spark_pool.equality) simp_all
qed

theorem reopen_restores_pool_witness:
  "\<exists>d. persistence demo_pool = Some d \<and> open_with_db d = demo_pool"
proof -
  obtain d where d: "persistence demo_pool = Some d"
    by (simp add: demo_pool_def pool_new_def apply_value_balance_def set_pool_value_def add_coin_def
        mark_tag_spent_def Let_def)
  from reopen_restores_pool [OF demo_pool_inv d] show ?thesis using d demo_pool_fields(3) by simp
qed


section \<open>Anchored cover sets\<close>

text \<open>
  C27 (anchored cover sets never change). A cover set is identified by a group number and an
  anchor height. Whatever coins, tags and value movements later blocks add, every node
  computes the same cover set for it, with at most 512 members.
\<close>

theorem cover_set_stable:
  assumes inv: "pool_inv p" and later: "anchor_height < h"
  shows "cover_set_at cover_set_id anchor_height (fold (pool_step h) ops p) =
           cover_set_at cover_set_id anchor_height p \<and>
         length (cover_set_at cover_set_id anchor_height p) \<le> SPARK_COVER_SET_GROUP"
proof -
  obtain cs where cs: "coins (fold (pool_step h) ops p) = coins p @ cs" "\<forall>c\<in>set cs. sp_height c = h"
    using pool_run_extends [OF extends_refl [OF inv], of h ops] by (auto simp: extends_def)
  have "filter (in_cover_set cover_set_id anchor_height) (enumerate n cs) = []" for n
    using cs(2) later by (auto simp: filter_empty_conv in_cover_set_def Let_def in_set_enumerate_eq)
  then have "cover_set_at cover_set_id anchor_height (fold (pool_step h) ops p) =
      cover_set_at cover_set_id anchor_height p"
    by (simp add: cover_set_at_def cs(1) enumerate_append_eq)
  moreover have "length (cover_set_at cover_set_id anchor_height p) \<le> SPARK_COVER_SET_GROUP"
  proof -
    let ?xs = "filter (in_cover_set cover_set_id anchor_height) (enumerate 0 (coins p))"
    let ?s = "sat_mul64 cover_set_id SPARK_COVER_SET_GROUP"
    have "distinct (map fst ?xs)" by (rule distinct_map_filter) simp
    then have "length ?xs = card (fst ` set ?xs)" using distinct_card by fastforce
    also have "\<dots> \<le> card {?s ..< ?s + SPARK_COVER_SET_GROUP}"
      by (rule card_mono) (auto simp: in_cover_set_def Let_def sat_add64_def)
    finally show ?thesis by (simp add: cover_set_at_def)
  qed
  ultimately show ?thesis by blast
qed

theorem cover_set_stable_witness:
  "cover_set_at 0 5 (fold (pool_step 6) [AddCoin [2] [22] []] demo_pool) = [[11]]"
proof -
  have "cover_set_at 0 5 demo_pool = [[11]]"
    by (simp add: cover_set_at_def in_cover_set_def demo_pool_def pool_new_def apply_value_balance_def
        set_pool_value_def add_coin_def mark_tag_spent_def Let_def SPARK_COVER_SET_GROUP_def sat_mul64_def
        sat_add64_def width_eqs)
  then show ?thesis using cover_set_stable [OF demo_pool_inv, of 5 6 0 "[AddCoin [2] [22] []]"] by simp
qed

section \<open>The turnstile\<close>

text \<open>The value balances of a run that the pool accepted, in order.\<close>

fun accepted_values :: "nat \<Rightarrow> pool_op list \<Rightarrow> spark_pool \<Rightarrow> int list" where
  "accepted_values h [] p = []"
| "accepted_values h (x # xs) p = (case x of
     ApplyValue vb \<Rightarrow> (if vb \<le> pool_value p then [vb] else [])
   | _ \<Rightarrow> []) @ accepted_values h xs (pool_step h x p)"

lemma pool_value_step:
  "pool_value (pool_step h x p) = pool_value p -
     (case x of ApplyValue vb \<Rightarrow> (if vb \<le> pool_value p then vb else 0) | _ \<Rightarrow> 0)"
  by (cases x) (auto simp: add_coin_def mark_tag_spent_def apply_value_balance_def set_pool_value_def Let_def)

text \<open>
  C17 (the turnstile). The pool value is always what it was less the sum of the accepted
  value balances, and never negative: no sequence of transactions can take more out of
  the shielded pool than went in. A withdrawal is refused, leaving the pool unchanged,
  exactly if it exceeds the pool value.
\<close>

theorem pool_turnstile:
  assumes "pool_inv p"
  shows "let q = fold (pool_step h) ops p in
     pool_value q = pool_value p - sum_list (accepted_values h ops p) \<and> 0 \<le> pool_value q \<and>
     (\<forall>vb. fst (apply_value_balance vb q) = Inr () \<longleftrightarrow> vb \<le> pool_value q) \<and>
     (\<forall>vb. pool_value q < vb \<longrightarrow> snd (apply_value_balance vb q) = q)"
proof -
  have "pool_value (fold (pool_step h) ops p) = pool_value p - sum_list (accepted_values h ops p)"
    by (induction ops arbitrary: p) (auto simp: pool_value_step split: pool_op.split)
  moreover have "pool_inv (fold (pool_step h) ops p)"
    using pool_run_extends [OF extends_refl [OF assms]] by (simp add: extends_def)
  then have "0 \<le> pool_value (fold (pool_step h) ops p)" by (simp add: pool_inv_def)
  ultimately show ?thesis by (auto simp: Let_def apply_value_balance_def)
qed

theorem pool_turnstile_witness:
  "pool_inv demo_pool \<and> accepted_values 6 [ApplyValue 30, ApplyValue 20, ApplyValue (- 5)] demo_pool = [30, - 5] \<and>
   pool_value (fold (pool_step 6) [ApplyValue 30, ApplyValue 20, ApplyValue (- 5)] demo_pool) = 15"
proof -
  have a: "accepted_values 6 [ApplyValue 30, ApplyValue 20, ApplyValue (- 5)] demo_pool = [30, - 5]"
    using demo_pool_fields(2) by (simp add: pool_value_step del: pool_step.simps)
  show ?thesis using pool_turnstile [OF demo_pool_inv, of 6 "[ApplyValue 30, ApplyValue 20, ApplyValue (- 5)]"]
      demo_pool_inv demo_pool_fields(2) unfolding a Let_def by simp
qed


end
