(* ===== verification/Spark_Payload.thy ===== *)
theory Spark_Payload
  imports Spark_Pool
begin

text \<open>
  Shielded payloads: \<^verbatim>\<open>src/consensus/spark_payload.rs\<close>,
  \<^verbatim>\<open>src/consensus/shielded.rs\<close> and \<^verbatim>\<open>src/consensus/shielded_connector.rs\<close>, with
  the default methods of the backend trait of \<^verbatim>\<open>crates/spark-connector\<close>. The Borsh
  decoders and the proof verifier \<open>verify_spend\<close> of the vendored C++ engine are
  parameters.
\<close>

section \<open>The backend trait\<close>

datatype connector_error = NotWired | Rejected string | Marshalling string

type_synonym 'a connector_result = "connector_error + 'a"
type_synonym spend_verifier = "bytes list \<Rightarrow> bytes \<Rightarrow> nat \<Rightarrow> int \<Rightarrow> bytes list connector_result"

definition stub_verify_spend :: spend_verifier where
  "stub_verify_spend cover spend tx_fee vb = Inl NotWired"

fun verify_spend_batch :: "spend_verifier \<Rightarrow> bytes list \<Rightarrow> (bytes \<times> nat \<times> int) list \<Rightarrow> bytes list list connector_result" where
  "verify_spend_batch verify cover [] = Inr []"
| "verify_spend_batch verify cover ((s, tx_fee, vb) # xs) = (case verify cover s tx_fee vb of
     Inl e \<Rightarrow> Inl e
   | Inr tags \<Rightarrow> (case verify_spend_batch verify cover xs of Inl e \<Rightarrow> Inl e | Inr rest \<Rightarrow> Inr (tags # rest)))"

definition verify_solvency :: "spend_verifier \<Rightarrow> bytes list \<Rightarrow> bytes \<Rightarrow> nat \<Rightarrow> int \<Rightarrow> bytes list \<Rightarrow> bytes list connector_result" where
  "verify_solvency verify cover spend tx_fee vb spent =
     (if cover = [] then Inl (Rejected ''authoritative solvency verify requires a non-empty node-resolved cover set'')
      else case verify cover spend tx_fee vb of
          Inl e \<Rightarrow> Inl e
        | Inr tags \<Rightarrow> if list_ex (\<lambda>t. t \<in> set spent) tags
            then Inl (Rejected ''linking tag already in the spent set'') else Inr tags)"

section \<open>Payloads\<close>

definition SPARK_PAYLOAD_VERSION :: u8 where "SPARK_PAYLOAD_VERSION = 2"
definition SHIELDED_PAYLOAD_VERSION :: u8 where "SHIELDED_PAYLOAD_VERSION = 1"

record spend_bundle =
  cover_set_id :: nat
  anchor_height :: nat
  spend_bytes :: bytes

record spark_payload =
  spark_version :: u8
  spark_mint :: "bytes option"
  spark_outputs :: "bytes list"
  spark_spend :: "spend_bundle option"
  spark_value_balance :: int

record shielded_input =
  si_bucket_index :: nat
  si_nullifier :: bytes
  si_spend_proof :: bytes
  si_range_proof :: bytes

record shielded_output =
  so_note_commitment :: bytes
  so_value_commitment :: bytes
  so_range_proof :: bytes
  so_mint_binding :: bytes

record shielded_payload =
  sh_version :: u8
  sh_inputs :: "shielded_input list"
  sh_outputs :: "shielded_output list"
  sh_value_balance :: int
  sh_balance_proof :: bytes

definition spark_decode :: "(bytes \<Rightarrow> spark_payload option) \<Rightarrow> bytes \<Rightarrow> spark_payload result" where
  "spark_decode borsh ext = (case borsh ext of
       None \<Rightarrow> Inl (SerializationError ''spark payload v2 decode'')
     | Some p \<Rightarrow> if spark_version p \<noteq> SPARK_PAYLOAD_VERSION
         then Inl (SerializationError ''spark payload version'') else Inr p)"

definition shielded_decode :: "(bytes \<Rightarrow> shielded_payload option) \<Rightarrow> bytes \<Rightarrow> shielded_payload result" where
  "shielded_decode borsh ext = (case borsh ext of
       None \<Rightarrow> Inl (InvalidTransaction ''shielded payload decode'')
     | Some p \<Rightarrow> if sh_version p \<noteq> SHIELDED_PAYLOAD_VERSION
         then Inl (InvalidTransaction ''unsupported shielded payload version'') else Inr p)"

text \<open>\<^verbatim>\<open>ShieldedPoolValue::apply\<close>: the value that leaves the pool is subtracted.\<close>

definition pool_value_apply :: "int \<Rightarrow> int \<Rightarrow> int result" where
  "pool_value_apply pool_total value_balance = (let after = pool_total - value_balance in
     if after < 0 then Inl (InvalidTransaction ''shielded pool underflow'') else Inr after)"

text \<open>The connector's verifiers, for a build with and without the C++ engine.\<close>

definition verify_bundle :: "spend_verifier \<Rightarrow> bytes \<Rightarrow> unit result" where
  "verify_bundle backend b = (case backend [] b 0 0 of
       Inr _ \<Rightarrow> Inr ()
     | Inl e \<Rightarrow> Inl (InvalidTransaction ''shielded (Spark) bundle verifier rejected''))"

definition verify_payload :: "spend_verifier \<Rightarrow> (shielded_payload \<Rightarrow> bytes) \<Rightarrow> shielded_payload \<Rightarrow> nat \<Rightarrow> unit result" where
  "verify_payload backend encode p tx_fee = (case backend [] (encode p) tx_fee (sh_value_balance p) of
       Inr _ \<Rightarrow> Inr ()
     | Inl e \<Rightarrow> Inl (InvalidTransaction ''shielded (Spark) verifier via connector is fail-closed''))"

section \<open>Verifying and applying a payload\<close>

text \<open>Lexicographic order of byte strings, as \<^verbatim>\<open>Vec<u8>\<close> sorts.\<close>

fun bytes_le :: "bytes \<Rightarrow> bytes \<Rightarrow> bool" where
  "bytes_le [] ys = True"
| "bytes_le (x # xs) [] = False"
| "bytes_le (x # xs) (y # ys) = (x < y \<or> (x = y \<and> bytes_le xs ys))"

fun insort_bytes :: "bytes \<Rightarrow> bytes list \<Rightarrow> bytes list" where
  "insort_bytes x [] = [x]"
| "insort_bytes x (y # ys) = (if bytes_le x y then x # y # ys else y # insort_bytes x ys)"

definition sort_bytes :: "bytes list \<Rightarrow> bytes list" where
  "sort_bytes xs = foldr insort_bytes xs []"

definition outpoint_preimage :: "bytes list \<Rightarrow> nat \<Rightarrow> bytes" where
  "outpoint_preimage input_outpoints vout = (let sorted = sort_bytes input_outpoints in
     ascii ''COINCYNC_SPARK_OUTPOINT_v1'' @ le_bytes 8 (length sorted) @
     concat (map (\<lambda>p. le_bytes 8 (length p) @ p) sorted) @ le_bytes 4 vout)"

definition derive_outpoint :: "(bytes \<Rightarrow> hash) \<Rightarrow> bytes list \<Rightarrow> nat \<Rightarrow> bytes" where
  "derive_outpoint H input_outpoints vout = H (outpoint_preimage input_outpoints vout)"

definition verify_spark_payload :: "spend_verifier \<Rightarrow> spark_pool \<Rightarrow> spark_payload \<Rightarrow> nat \<Rightarrow> bytes list result" where
  "verify_spark_payload backend store p tx_fee =
     (if spark_version p \<noteq> SPARK_PAYLOAD_VERSION then Inl SparkVerifyFailed
      else case spark_spend p of
          None \<Rightarrow> Inr []
        | Some sb \<Rightarrow>
            let cover = cover_set_at (cover_set_id sb) (anchor_height sb) store in
            if cover = [] then Inl SparkVerifyFailed
            else (case verify_solvency backend cover (spend_bytes sb) tx_fee (spark_value_balance p) (spent_tag_list store) of
                Inl e \<Rightarrow> Inl (CryptoError ''spark v2 verify'')
              | Inr tags \<Rightarrow> Inr tags))"

definition spend_key :: "spark_payload \<times> nat \<Rightarrow> (nat \<times> nat) option" where
  "spend_key item = map_option (\<lambda>sb. (cover_set_id sb, anchor_height sb)) (spark_spend (fst item))"

text \<open>The groups of item positions by cover set, in the order of their first member.\<close>

definition spend_groups :: "(spark_payload \<times> nat) list \<Rightarrow> ((nat \<times> nat) \<times> nat list) list" where
  "spend_groups items = map (\<lambda>k. (k, filter (\<lambda>i. spend_key (items ! i) = Some k) [0 ..< length items]))
     (remdups (List.map_filter spend_key items))"

definition group_spends :: "(spark_payload \<times> nat) list \<Rightarrow> nat list \<Rightarrow> (bytes \<times> nat \<times> int) list" where
  "group_spends items idxs = map (\<lambda>i. (spend_bytes (the (spark_spend (fst (items ! i)))), snd (items ! i),
     spark_value_balance (fst (items ! i)))) idxs"

fun write_tags :: "bytes list \<Rightarrow> nat list \<Rightarrow> bytes list list \<Rightarrow> bytes list list \<Rightarrow> bytes list list result" where
  "write_tags spent (i # idxs) (tags # rest) out =
     (if list_ex (\<lambda>t. t \<in> set spent) tags
      then Inl (CryptoError ''spark v2 batch: linking tag already spent (coin is not unspent)'')
      else write_tags spent idxs rest (out[i := tags]))"
| "write_tags spent _ _ out = Inr out"

fun verify_groups :: "spend_verifier \<Rightarrow> spark_pool \<Rightarrow> (spark_payload \<times> nat) list \<Rightarrow>
    ((nat \<times> nat) \<times> nat list) list \<Rightarrow> bytes list list \<Rightarrow> bytes list list result" where
  "verify_groups backend store items [] out = Inr out"
| "verify_groups backend store items (((cid, ah), idxs) # gs) out =
     (let cover = cover_set_at cid ah store in
      if cover = [] then Inl SparkVerifyFailed
      else case verify_spend_batch backend cover (group_spends items idxs) of
          Inl e \<Rightarrow> Inl (CryptoError ''spark v2 batch verify'')
        | Inr group_tags \<Rightarrow>
            if length group_tags \<noteq> length idxs then Inl (CryptoError ''spark v2 batch: tag-list count != spend count'')
            else (case write_tags (spent_tag_list store) idxs group_tags out of
                Inl e \<Rightarrow> Inl e
              | Inr out' \<Rightarrow> verify_groups backend store items gs out'))"

definition verify_spark_payloads_batch :: "spend_verifier \<Rightarrow> spark_pool \<Rightarrow> (spark_payload \<times> nat) list \<Rightarrow> bytes list list result" where
  "verify_spark_payloads_batch backend store items =
     (if list_ex (\<lambda>(p, _). spark_version p \<noteq> SPARK_PAYLOAD_VERSION) items then Inl SparkVerifyFailed
      else verify_groups backend store items (spend_groups items) (replicate (length items) []))"

fun mark_tags :: "nat \<Rightarrow> bytes list \<Rightarrow> spark_pool \<Rightarrow> unit result \<times> spark_pool" where
  "mark_tags h [] p = (Inr (), p)"
| "mark_tags h (t # ts) p = (let (fresh, p') = mark_tag_spent t h p in
     if fresh then mark_tags h ts p'
     else (Inl (CryptoError ''spark v2 apply: linking tag already spent (validation should have rejected)''), p'))"

fun add_coins :: "(bytes \<Rightarrow> hash) \<Rightarrow> nat \<Rightarrow> bytes list \<Rightarrow> nat \<Rightarrow> (bytes \<times> bytes) list \<Rightarrow> spark_pool \<Rightarrow> unit result \<times> spark_pool" where
  "add_coins H h ins vout [] p = (Inr (), p)"
| "add_coins H h ins vout ((coin, ctx) # cs) p =
     (let (r, p') = add_coin (derive_outpoint H ins (as_u32 vout)) coin ctx h p in
      case r of
        None \<Rightarrow> (Inl (CryptoError ''spark v2 apply: duplicate coin outpoint (validation should have rejected)''), p')
      | Some _ \<Rightarrow> add_coins H h ins (vout + 1) cs p')"

definition apply_spark_payload :: "(bytes \<Rightarrow> hash) \<Rightarrow> spark_payload \<Rightarrow> bytes list \<Rightarrow> bytes list \<Rightarrow> bytes list \<Rightarrow>
    nat \<Rightarrow> spark_pool \<Rightarrow> unit result \<times> spark_pool" where
  "apply_spark_payload H p ins ctxs tags h store =
     (if length (spark_outputs p) \<noteq> length ctxs
      then (Inl (CryptoError ''spark v2 apply: output_contexts length mismatch''), store)
      else case mark_tags h tags store of
          (Inl e, store') \<Rightarrow> (Inl e, store')
        | (Inr _, store') \<Rightarrow> add_coins H h ins 0 (zip (spark_outputs p) ctxs) store')"

definition verify_mint_shield_in :: "(bytes \<Rightarrow> nat option) \<Rightarrow> bytes \<Rightarrow> int \<Rightarrow> unit result" where
  "verify_mint_shield_in mint_total b vb =
     (if 0 \<le> vb then Inl (CryptoError ''mint shield-in requires value_balance < 0 (value entering the pool)'')
      else case mint_total b of
          None \<Rightarrow> Inl (CryptoError ''mint bundle failed value-proof verification'')
        | Some pool_total \<Rightarrow> if int pool_total \<noteq> \<bar>vb\<bar> then Inl (CryptoError ''mint total != shield-in amount'') else Inr ())"

section \<open>Batch verification\<close>

lemma verify_spend_batch_Inr:
  "verify_spend_batch verify cover xs = Inr tss \<longleftrightarrow>
     list_all2 (\<lambda>(s, f, vb) ts. verify cover s f vb = Inr ts) xs tss"
proof (induction xs arbitrary: tss)
  case (Cons x xs)
  obtain s f vb where x: "x = (s, f, vb)" using prod_cases3 by blast
  show ?case
    by (cases "verify cover s f vb"; cases "verify_spend_batch verify cover xs"; cases tss)
      (auto simp: x Cons.IH [symmetric])
qed auto

lemma write_tags_cases:
  "length idxs = length tss \<Longrightarrow>
   if \<forall>ts\<in>set tss. \<forall>t\<in>set ts. t \<notin> set spent
   then write_tags spent idxs tss out = Inr (fold (\<lambda>(i, ts) xs. xs[i := ts]) (zip idxs tss) out)
   else \<exists>e. write_tags spent idxs tss out = Inl e"
proof (induction idxs tss arbitrary: out rule: list_induct2)
  case (Cons i idxs ts tss)
  show ?case
  proof (cases "\<forall>t\<in>set ts. t \<notin> set spent")
    case True
    then show ?thesis using Cons.IH [of "out[i := ts]"] by (auto simp: list_ex_iff)
  qed (auto simp: list_ex_iff)
qed simp

lemma length_fold_update [simp]: "length (fold (\<lambda>(i, ts) xs. xs[i := ts]) us out) = length out"
  by (induction us arbitrary: out) auto

lemma fold_update_other: "j \<notin> fst ` set us \<Longrightarrow> fold (\<lambda>(i, ts) xs. xs[i := ts]) us out ! j = out ! j"
  by (induction us arbitrary: out) auto

lemma fold_update_nth:
  "length idxs = length tss \<Longrightarrow> distinct idxs \<Longrightarrow> \<forall>i\<in>set idxs. i < length out \<Longrightarrow> n < length idxs \<Longrightarrow>
   fold (\<lambda>(i, ts) xs. xs[i := ts]) (zip idxs tss) out ! (idxs ! n) = tss ! n"
proof (induction idxs tss arbitrary: out n rule: list_induct2)
  case (Cons i idxs ts tss)
  have i: "i \<notin> fst ` set (zip idxs tss)" using Cons.prems(1) by (auto dest: set_zip_leftD)
  show ?case
  proof (cases n)
    case 0
    then show ?thesis using Cons.prems fold_update_other [OF i, of "out[i := ts]"] by simp
  next
    case (Suc m)
    then show ?thesis using Cons.IH [of "out[i := ts]" m] Cons.prems by simp
  qed
qed simp

definition single_verify :: "spend_verifier \<Rightarrow> spark_pool \<Rightarrow> (spark_payload \<times> nat) list \<Rightarrow> nat \<Rightarrow> bytes list result" where
  "single_verify backend store items i = verify_spark_payload backend store (fst (items ! i)) (snd (items ! i))"

definition version_ok :: "(spark_payload \<times> nat) list \<Rightarrow> nat \<Rightarrow> bool" where
  "version_ok items i \<longleftrightarrow> spark_version (fst (items ! i)) = SPARK_PAYLOAD_VERSION"

lemma single_verify_spend:
  assumes "version_ok items i" "spend_key (items ! i) = Some (c, a)"
  shows "single_verify backend store items i = Inr ts \<longleftrightarrow> (case hd (group_spends items [i]) of (s, f, vb) \<Rightarrow>
     cover_set_at c a store \<noteq> [] \<and> backend (cover_set_at c a store) s f vb = Inr ts \<and>
     (\<forall>t\<in>set ts. t \<notin> set (spent_tag_list store)))"
proof -
  obtain sb where "spark_spend (fst (items ! i)) = Some sb" "cover_set_id sb = c" "anchor_height sb = a"
    using assms(2) by (auto simp: spend_key_def)
  then show ?thesis using assms(1)
    by (auto simp: single_verify_def verify_spark_payload_def version_ok_def verify_solvency_def Let_def
        group_spends_def list_ex_iff split: sum.splits)
qed

text \<open>One group of the batch: it succeeds exactly if each of its members does.\<close>

lemma group_step:
  assumes "\<forall>i\<in>set idxs. version_ok items i \<and> spend_key (items ! i) = Some (c, a)" "idxs \<noteq> []"
  shows "verify_groups backend store items (((c, a), idxs) # gs) out = Inr out' \<longleftrightarrow>
    (\<exists>tss. list_all2 (\<lambda>i ts. single_verify backend store items i = Inr ts) idxs tss \<and>
       verify_groups backend store items gs (fold (\<lambda>(i, ts) xs. xs[i := ts]) (zip idxs tss) out) = Inr out')"
proof -
  let ?cover = "cover_set_at c a store" and ?spent = "set (spent_tag_list store)"
  have eq: "list_all2 (\<lambda>i ts. single_verify backend store items i = Inr ts) idxs tss \<longleftrightarrow>
      ?cover \<noteq> [] \<and> verify_spend_batch backend ?cover (group_spends items idxs) = Inr tss \<and>
      (\<forall>ts\<in>set tss. \<forall>t\<in>set ts. t \<notin> ?spent)" for tss
  proof -
    have "list_all2 (\<lambda>i ts. single_verify backend store items i = Inr ts) idxs tss \<longleftrightarrow>
        list_all2 (\<lambda>i ts. case hd (group_spends items [i]) of (s, f, vb) \<Rightarrow>
          ?cover \<noteq> [] \<and> backend ?cover s f vb = Inr ts \<and> (\<forall>t\<in>set ts. t \<notin> ?spent)) idxs tss"
      using assms(1) single_verify_spend by (intro list.rel_cong) auto
    also have "\<dots> \<longleftrightarrow> ?cover \<noteq> [] \<and> list_all2 (\<lambda>i ts. case hd (group_spends items [i]) of (s, f, vb) \<Rightarrow>
          backend ?cover s f vb = Inr ts) idxs tss \<and> (\<forall>ts\<in>set tss. \<forall>t\<in>set ts. t \<notin> ?spent)"
      using assms(2) by (cases idxs) (auto simp: list_all2_conv_all_nth all_set_conv_all_nth split_beta)
    also have "list_all2 (\<lambda>i ts. case hd (group_spends items [i]) of (s, f, vb) \<Rightarrow>
          backend ?cover s f vb = Inr ts) idxs tss \<longleftrightarrow>
        verify_spend_batch backend ?cover (group_spends items idxs) = Inr tss"
      by (simp add: verify_spend_batch_Inr group_spends_def list.rel_map)
    finally show ?thesis .
  qed
  have len: "length tss = length idxs" if "verify_spend_batch backend ?cover (group_spends items idxs) = Inr tss" for tss
    using that by (auto simp: verify_spend_batch_Inr group_spends_def dest: list_all2_lengthD)
  show ?thesis
  proof (cases "verify_spend_batch backend ?cover (group_spends items idxs)")
    case (Inr tss)
    have l: "length idxs = length tss" using len [OF Inr] by simp
    define W where "W = write_tags (spent_tag_list store) idxs tss out"
    define F where "F = fold (\<lambda>(i, ts) xs. xs[i := ts]) (zip idxs tss) out"
    define Q where "Q \<longleftrightarrow> (\<forall>ts\<in>set tss. \<forall>t\<in>set ts. t \<notin> ?spent)"
    have W: "if Q then W = Inr F else \<exists>e. W = Inl e"
      unfolding W_def F_def Q_def by (rule write_tags_cases [OF l])
    have lhs: "verify_groups backend store items (((c, a), idxs) # gs) out = (if ?cover = [] then Inl SparkVerifyFailed
        else case W of Inl e \<Rightarrow> Inl e | Inr out' \<Rightarrow> verify_groups backend store items gs out')"
      by (simp add: Let_def Inr l W_def)
    have rhs: "(\<exists>tss. list_all2 (\<lambda>i ts. single_verify backend store items i = Inr ts) idxs tss \<and>
        verify_groups backend store items gs (fold (\<lambda>(i, ts) xs. xs[i := ts]) (zip idxs tss) out) = Inr out') \<longleftrightarrow>
        ?cover \<noteq> [] \<and> Q \<and> verify_groups backend store items gs F = Inr out'"
      unfolding eq Inr F_def Q_def by blast
    show ?thesis unfolding lhs rhs by (cases Q) (use W in auto)
  qed (use eq in \<open>auto simp: Let_def\<close>)
qed

definition group_ok :: "(spark_payload \<times> nat) list \<Rightarrow> (nat \<times> nat) \<times> nat list \<Rightarrow> bool" where
  "group_ok items g \<longleftrightarrow> snd g \<noteq> [] \<and>
     (\<forall>i\<in>set (snd g). i < length items \<and> version_ok items i \<and> spend_key (items ! i) = Some (fst g))"

lemma verify_groups_sound:
  assumes "verify_groups backend store items gs out = Inr out'" "\<forall>g\<in>set gs. group_ok items g"
    "distinct (concat (map snd gs))" "length out = length items"
  shows "length out' = length items \<and>
    (\<forall>i\<in>set (concat (map snd gs)). single_verify backend store items i = Inr (out' ! i)) \<and>
    (\<forall>j. j \<notin> set (concat (map snd gs)) \<longrightarrow> out' ! j = out ! j)"
  using assms
proof (induction gs arbitrary: out)
  case (Cons g gs)
  obtain c a idxs where g: "g = ((c, a), idxs)" using prod.exhaust by metis
  have ok: "\<forall>i\<in>set idxs. version_ok items i \<and> spend_key (items ! i) = Some (c, a)" "idxs \<noteq> []"
    "\<forall>i\<in>set idxs. i < length out"
    using Cons.prems(2,4) by (auto simp: g group_ok_def)
  obtain tss where tss: "list_all2 (\<lambda>i ts. single_verify backend store items i = Inr ts) idxs tss"
    and rest: "verify_groups backend store items gs (fold (\<lambda>(i, ts) xs. xs[i := ts]) (zip idxs tss) out) = Inr out'"
    using Cons.prems(1) group_step [OF ok(1,2)] by (auto simp: g)
  let ?mid = "fold (\<lambda>(i, ts) xs. xs[i := ts]) (zip idxs tss) out"
  have IH: "length out' = length items \<and>
      (\<forall>i\<in>set (concat (map snd gs)). single_verify backend store items i = Inr (out' ! i)) \<and>
      (\<forall>j. j \<notin> set (concat (map snd gs)) \<longrightarrow> out' ! j = ?mid ! j)"
    using Cons.prems by (intro Cons.IH [OF rest]) (auto simp: g)
  have len: "length idxs = length tss" using tss by (rule list_all2_lengthD)
  have d: "distinct idxs" "set idxs \<inter> set (concat (map snd gs)) = {}" using Cons.prems(3) by (auto simp: g)
  have "single_verify backend store items i = Inr (out' ! i)" if i: "i \<in> set idxs" for i
  proof -
    obtain n where n: "n < length idxs" "idxs ! n = i" using i by (auto simp: in_set_conv_nth)
    have "out' ! i = ?mid ! i" using IH i d(2) by blast
    also have "\<dots> = tss ! n" using fold_update_nth [OF len d(1) ok(3) n(1)] n(2) by simp
    finally show ?thesis using tss n by (auto simp: list_all2_conv_all_nth)
  qed
  moreover have "out' ! j = out ! j" if "j \<notin> set (concat (map snd (g # gs)))" for j
  proof -
    have "j \<notin> fst ` set (zip idxs tss)" using that by (auto simp: g dest: set_zip_leftD)
    then show ?thesis using IH that fold_update_other [of j "zip idxs tss" out] by (simp add: g)
  qed
  ultimately show ?case using IH by (auto simp: g)
qed simp

lemma verify_groups_complete:
  assumes "\<forall>g\<in>set gs. group_ok items g"
    "\<forall>i\<in>set (concat (map snd gs)). \<exists>ts. single_verify backend store items i = Inr ts"
  shows "\<exists>out'. verify_groups backend store items gs out = Inr out'"
  using assms
proof (induction gs arbitrary: out)
  case (Cons g gs)
  obtain c a idxs where g: "g = ((c, a), idxs)" using prod.exhaust by metis
  have ok: "\<forall>i\<in>set idxs. version_ok items i \<and> spend_key (items ! i) = Some (c, a)" "idxs \<noteq> []"
    using Cons.prems(1) by (auto simp: g group_ok_def)
  define tss where "tss = map (\<lambda>i. projr (single_verify backend store items i)) idxs"
  have "single_verify backend store items i = Inr (projr (single_verify backend store items i))"
    if "i \<in> set idxs" for i
  proof -
    from that obtain ts where "single_verify backend store items i = Inr ts" using Cons.prems(2) by (auto simp: g)
    then show ?thesis by simp
  qed
  then have "list_all2 (\<lambda>i ts. single_verify backend store items i = Inr ts) idxs tss"
    by (simp add: tss_def list.rel_map list.rel_refl_strong)
  moreover have "\<exists>out'. verify_groups backend store items gs (fold (\<lambda>(i, ts) xs. xs[i := ts]) (zip idxs tss) out) = Inr out'"
    by (rule Cons.IH) (use Cons.prems in auto)
  ultimately show ?case using group_step [OF ok, of backend store gs out] by (auto simp: g)
qed simp

lemma set_map_filter_nth: "set (List.map_filter f xs) = {y. \<exists>i<length xs. f (xs ! i) = Some y}"
  unfolding set_map_filter by (auto simp: set_conv_nth)

lemma distinct_groups:
  assumes "distinct ks" "\<And>k k' i. P k i \<Longrightarrow> P k' i \<Longrightarrow> k = k'" "distinct xs"
  shows "distinct (concat (map (\<lambda>k. filter (P k) xs) ks))"
  using assms(1)
proof (induction ks)
  case (Cons k ks)
  then show ?case using assms(2,3) by auto
qed simp

lemma spend_groups_ok:
  assumes "\<forall>i<length items. version_ok items i"
  shows "\<forall>g\<in>set (spend_groups items). group_ok items g" "distinct (concat (map snd (spend_groups items)))"
    "set (concat (map snd (spend_groups items))) = {i. i < length items \<and> spend_key (items ! i) \<noteq> None}"
proof -
  have keys: "set (List.map_filter spend_key items) = {k. \<exists>i<length items. spend_key (items ! i) = Some k}"
    by (rule set_map_filter_nth)
  show "\<forall>g\<in>set (spend_groups items). group_ok items g"
    using assms keys by (auto simp: spend_groups_def group_ok_def filter_empty_conv)
  show "distinct (concat (map snd (spend_groups items)))"
    unfolding spend_groups_def map_map comp_def snd_conv by (rule distinct_groups) auto
  show "set (concat (map snd (spend_groups items))) = {i. i < length items \<and> spend_key (items ! i) \<noteq> None}"
    using keys by (auto simp: spend_groups_def)
qed


section \<open>Double spends in the shielded pool\<close>

lemma mark_tags_extends:
  "pool_inv p \<Longrightarrow> extends h p (snd (mark_tags h ts p))"
proof (induction ts arbitrary: p)
  case (Cons t ts)
  have "extends h p (snd (mark_tag_spent t h p))" using pool_step_extends [OF Cons.prems, of h "MarkTag t"] by simp
  moreover from this have "extends h (snd (mark_tag_spent t h p)) (snd (mark_tags h ts (snd (mark_tag_spent t h p))))"
    by (intro Cons.IH) (simp add: extends_def)
  ultimately show ?case using extends_trans by (auto simp: split_beta Let_def)
qed (simp add: extends_refl)

lemma add_coins_extends:
  "pool_inv p \<Longrightarrow> extends h p (snd (add_coins H h ins v cs p))"
proof (induction cs arbitrary: p v)
  case (Cons c cs)
  obtain coin ctx where c: "c = (coin, ctx)" by fastforce
  let ?a = "add_coin (derive_outpoint H ins (as_u32 v)) coin ctx h p"
  have "extends h p (snd ?a)"
    using pool_step_extends [OF Cons.prems, of h "AddCoin (derive_outpoint H ins (as_u32 v)) coin ctx"] by simp
  moreover from this have "extends h (snd ?a) (snd (add_coins H h ins (v + 1) cs (snd ?a)))"
    by (intro Cons.IH) (simp add: extends_def)
  ultimately show ?case using extends_trans by (auto simp: c split_beta Let_def split: option.split)
qed (simp add: extends_refl)

lemma extends_spent: "extends h p q \<Longrightarrow> t \<in> set (spent_tag_list p) \<Longrightarrow> t \<in> set (spent_tag_list q)"
  by (auto simp: extends_def spent_tag_list_def)

lemma mark_tags_spent:
  "pool_inv p \<Longrightarrow> fst (mark_tags h ts p) = Inr () \<Longrightarrow>
   set ts \<subseteq> set (spent_tag_list (snd (mark_tags h ts p))) \<and> distinct ts \<and> set ts \<inter> set (spent_tag_list p) = {}"
proof (induction ts arbitrary: p)
  case (Cons t ts)
  let ?m = "mark_tag_spent t h p"
  have fresh: "map_of (spent_tags p) t = None"
    using Cons.prems(2) by (cases "map_of (spent_tags p) t") (auto simp: mark_tag_spent_def)
  then have tn: "t \<notin> set (spent_tag_list p)" by (simp add: spent_tag_list_def map_of_eq_None_iff)
  have m: "fst ?m" "set (spent_tag_list (snd ?m)) = insert t (set (spent_tag_list p))"
    using fresh by (simp_all add: mark_tag_spent_def spent_tag_list_def map_of_eq_None_iff update_fresh)
  have inv: "pool_inv (snd ?m)" using Cons.prems(1) by (rule mark_tag_inv)
  have rest: "mark_tags h (t # ts) p = mark_tags h ts (snd ?m)" using m(1) by (simp add: split_beta)
  have IH: "set ts \<subseteq> set (spent_tag_list (snd (mark_tags h ts (snd ?m)))) \<and> distinct ts \<and>
      set ts \<inter> set (spent_tag_list (snd ?m)) = {}"
    using Cons.IH [OF inv] Cons.prems(2) unfolding rest by blast
  have "t \<in> set (spent_tag_list (snd (mark_tags h ts (snd ?m))))"
    using extends_spent [OF mark_tags_extends [OF inv], of t h ts] m(2) by blast
  then show ?case unfolding rest using IH m(2) tn by auto
qed simp

lemma apply_extends:
  assumes "pool_inv p" "apply_spark_payload H pay ins ctxs tags h p = (Inr (), q)"
  shows "extends h p q" "set tags \<subseteq> set (spent_tag_list q)"
    "distinct tags \<and> set tags \<inter> set (spent_tag_list p) = {}"
proof -
  let ?m = "mark_tags h tags p"
  have m: "fst ?m = Inr ()" and q: "q = snd (add_coins H h ins 0 (zip (spark_outputs pay) ctxs) (snd ?m))"
    using assms(2) by (auto simp: apply_spark_payload_def split: if_splits prod.splits sum.splits)
  have e1: "extends h p (snd ?m)" by (rule mark_tags_extends [OF assms(1)])
  then have e2: "extends h (snd ?m) q" unfolding q by (intro add_coins_extends) (simp add: extends_def)
  show "extends h p q" by (rule extends_trans [OF e1 e2])
  show "set tags \<subseteq> set (spent_tag_list q)"
    using mark_tags_spent [OF assms(1) m] extends_spent [OF e2] by blast
  show "distinct tags \<and> set tags \<inter> set (spent_tag_list p) = {}" using mark_tags_spent [OF assms(1) m] by blast
qed

lemma run_later_spent:
  "pool_inv p \<Longrightarrow> t \<in> set (spent_tag_list p) \<Longrightarrow>
   pool_inv (fold (\<lambda>(h, x). pool_step h x) xs p) \<and> t \<in> set (spent_tag_list (fold (\<lambda>(h, x). pool_step h x) xs p))"
proof (induction xs arbitrary: p)
  case (Cons x xs)
  obtain h y where x: "x = (h, y)" by fastforce
  have e: "extends h p (pool_step h y p)" by (rule pool_step_extends [OF Cons.prems(1)])
  have "pool_inv (pool_step h y p)" using e by (simp add: extends_def)
  from Cons.IH [OF this extends_spent [OF e Cons.prems(2)]] show ?case by (simp add: x)
qed simp

lemma verify_tags_unspent:
  "verify_spark_payload backend store pay tx_fee = Inr tags \<Longrightarrow> set tags \<inter> set (spent_tag_list store) = {}"
  by (auto simp: verify_spark_payload_def verify_solvency_def Let_def list_ex_iff
      split: if_splits option.splits sum.splits)

text \<open>
  C6 (no shielded double spend). Once a payload has been applied, its linking tags are
  distinct, were unspent before, and are spent from then on: after any later sequence of
  blocks no payload that reveals one of them verifies, whatever the proof backend accepts.
\<close>

theorem spark_no_double_spend:
  assumes "pool_inv p" and "apply_spark_payload H pay ins ctxs tags h p = (Inr (), q)"
    and "verify_spark_payload backend (fold (\<lambda>(h, x). pool_step h x) later q) pay' tx_fee = Inr tags'"
  shows "distinct tags \<and> set tags \<inter> set (spent_tag_list p) = {} \<and> set tags \<inter> set tags' = {}"
proof -
  note a = apply_extends [OF assms(1,2)]
  have "pool_inv q" using a(1) by (simp add: extends_def)
  then have "set tags \<subseteq> set (spent_tag_list (fold (\<lambda>(h, x). pool_step h x) later q))"
    using run_later_spent a(2) by blast
  then show ?thesis using verify_tags_unspent [OF assms(3)] a(3) by blast
qed

definition demo_payload :: spark_payload where
  "demo_payload = \<lparr>spark_version = 2, spark_mint = None, spark_outputs = [[33]],
     spark_spend = Some \<lparr>cover_set_id = 0, anchor_height = 5, spend_bytes = [3]\<rparr>, spark_value_balance = 0\<rparr>"

theorem spark_no_double_spend_witness:
  "let q = snd (apply_spark_payload (\<lambda>b. b) demo_payload [[1]] [[]] [[7]] 6 demo_pool) in
   apply_spark_payload (\<lambda>b. b) demo_payload [[1]] [[]] [[7]] 6 demo_pool = (Inr (), q) \<and>
   verify_spark_payload (\<lambda>cover s f vb. Inr [[8]]) (fold (\<lambda>(h, x). pool_step h x) [] q) demo_payload 0 = Inr [[8]] \<and>
   distinct [[7 :: u8]] \<and> set [[7 :: u8]] \<inter> set [[8]] = {}"
proof -
  define q where "q = snd (apply_spark_payload (\<lambda>b. b) demo_payload [[1]] [[]] [[7]] 6 demo_pool)"
  have pool: "demo_pool = \<lparr>coins = [\<lparr>sp_outpoint = [1], sp_coin = [11], sp_serial_context = [], sp_height = 5,
      sp_cover_index = 0\<rparr>], by_outpoint = [[1] \<mapsto> 0], spent_tags = [([9], 5)], checkpoints = [],
      max_coin_height = Some 5, max_spent_tag_height = Some 5, pool_value = 40,
      persistence = persistence demo_pool\<rparr>"
    by (simp add: demo_pool_def pool_new_def apply_value_balance_def set_pool_value_def add_coin_def
        mark_tag_spent_def Let_def bump_max_def)
  have fresh: "derive_outpoint (\<lambda>b. b) [[1]] 0 \<noteq> [1]"
    by (simp add: derive_outpoint_def outpoint_preimage_def ascii_def Let_def)
  have "apply_spark_payload (\<lambda>b. b) demo_payload [[1]] [[]] [[7]] 6 demo_pool = (Inr (), q)"
    unfolding q_def by (subst (1 2) pool) (simp add: apply_spark_payload_def demo_payload_def mark_tag_spent_def add_coin_def
        Let_def fresh as_u32_def)
  moreover have "verify_spark_payload (\<lambda>cover s f vb. Inr [[8]]) (fold (\<lambda>(h, x). pool_step h x) [] q) demo_payload 0 = Inr [[8]]"
    unfolding q_def by (subst pool) (simp add: apply_spark_payload_def demo_payload_def mark_tag_spent_def add_coin_def
        Let_def fresh as_u32_def verify_spark_payload_def SPARK_PAYLOAD_VERSION_def cover_set_at_def in_cover_set_def
        verify_solvency_def spent_tag_list_def SPARK_COVER_SET_GROUP_def sat_mul64_def sat_add64_def width_eqs)
  ultimately show ?thesis using spark_no_double_spend [OF demo_pool_inv, of "\<lambda>b. b" demo_payload "[[1]]" "[[]]" "[[7]]" 6 q]
    unfolding Let_def q_def [symmetric] by blast
qed

end
