(* ===== verification/Tx_Validation.thy ===== *)
theory Tx_Validation
  imports Utxo_Set Verify_Cache Tx_Extra Spark_Payload
begin

text \<open>
  Transaction validation: the transaction rules of \<^verbatim>\<open>src/consensus/validation.rs\<close>,
  the privacy policy of \<^verbatim>\<open>src/consensus/privacy_policy.rs\<close> and the stateless rules of
  \<^verbatim>\<open>src/transaction/validator.rs\<close>.

  The curve, the signature and range-proof verifiers and the Borsh codecs are the fields of
  \<open>crypto_env\<close>; the group of curve points is the type parameter of that record. The
  verification cache is threaded through the two checks that consult it. Messages of errors
  keep their static text.
\<close>

named_theorems tx_checks \<open>the individual transaction checks\<close>

section \<open>The environment\<close>

record range_proof_data =
  rp_version :: u8
  rp_data :: bytes

record 'g crypto_env =
  env_hash :: "bytes \<Rightarrow> hash"
  env_ser :: tx_codec
  decompress :: "bytes \<Rightarrow> 'g option"
  value_commitment :: "nat \<Rightarrow> bytes"
  clsag_verify :: "hash \<Rightarrow> (public_key \<times> bytes) list \<Rightarrow> bytes \<Rightarrow> clsag_signature \<Rightarrow> bool"
  sig_to_bytes :: "clsag_signature \<Rightarrow> bytes option"
  rp_from_bytes :: "bytes \<Rightarrow> range_proof_data option"
  rp_verify_v2 :: "bytes list \<Rightarrow> range_proof_data \<Rightarrow> bool"
  rp_verify_bp_plus :: "bytes list \<Rightarrow> range_proof_data \<Rightarrow> bool"
  spark_build :: bool
  spark_borsh :: "bytes \<Rightarrow> spark_payload option"
  shielded_borsh :: "bytes \<Rightarrow> shielded_payload option"
  shielded_encode :: "shielded_payload \<Rightarrow> bytes"
  spark_backend :: spend_verifier

definition HARD_FORK_V1_0_12_HEIGHT :: nat where "HARD_FORK_V1_0_12_HEIGHT = 13000"
definition MAX_TX_VERSION :: u8 where "MAX_TX_VERSION = 2"
definition RANGE_PROOF_VERSION :: nat where "RANGE_PROOF_VERSION = 2"
definition zero32 :: bytes where "zero32 = replicate 32 0"

fun v1_0_12_rules_active :: "network_type \<Rightarrow> nat \<Rightarrow> bool" where
  "v1_0_12_rules_active Mainnet h = True"
| "v1_0_12_rules_active Regtest h = True"
| "v1_0_12_rules_active Testnet h = (HARD_FORK_V1_0_12_HEIGHT \<le> h)"
| "v1_0_12_rules_active Beta h = (HARD_FORK_V1_0_12_HEIGHT \<le> h)"

section \<open>Shielded transactions\<close>

definition shielded_root_permitted :: "bool \<Rightarrow> bytes \<Rightarrow> network_type \<Rightarrow> nat \<Rightarrow> bool" where
  "shielded_root_permitted build spark_root net h \<longleftrightarrow>
     shielded_tx_active_at_height build net h \<or> spark_root = zero32"

definition require_pure_shielded_shape :: "transaction \<Rightarrow> unit result" where
  "require_pure_shielded_shape tx = guard_err (inputs tx \<noteq> [] \<or> outputs tx \<noteq> [])
     (InvalidTransaction ''shielded tx must be pure-shielded: no transparent inputs/outputs'')"

definition regtest_bridge_enabled :: "bool \<Rightarrow> network_type \<Rightarrow> bool" where
  "regtest_bridge_enabled build net \<longleftrightarrow> build \<and> (net = Regtest \<or> net = Beta)"

definition shield_bridge_enabled :: "bool \<Rightarrow> network_type \<Rightarrow> nat \<Rightarrow> bool" where
  "shield_bridge_enabled build net h \<longleftrightarrow> regtest_bridge_enabled build net \<or>
     (build \<and> net = Testnet \<and> shielded_tx_active_at_height build net h)"

definition check_v1_shielded :: "'g crypto_env \<Rightarrow> transaction \<Rightarrow> unit result" where
  "check_v1_shielded env tx = (case shielded_decode (shielded_borsh env) (extra tx) of
       Inl e \<Rightarrow> Inl e
     | Inr p \<Rightarrow> andthen (require_pure_shielded_shape tx)
         (andthen (guard_err (sh_value_balance p \<noteq> 0)
             (InvalidTransaction ''v1 shielded tx must be pure-shielded with value_balance == 0''))
           (if spark_build env then verify_bundle (spark_backend env) (sh_balance_proof p)
            else verify_payload stub_verify_spend (shielded_encode env) p (fee tx))))"

definition check_shielded_tx :: "'g crypto_env \<Rightarrow> network_type \<Rightarrow> nat \<Rightarrow> transaction \<Rightarrow> unit result" where
  "check_shielded_tx env net h tx =
     andthen (guard_err (\<not> shielded_tx_active_at_height (spark_build env) net h)
         (InvalidTransaction ''shielded (Spark) transactions are not activated at this height''))
     (andthen (if shield_bridge_enabled (spark_build env) net h then Inr () else require_pure_shielded_shape tx)
       (if spark_build env then
          (case spark_decode (spark_borsh env) (extra tx) of
             Inr p \<Rightarrow> guard_err (spark_value_balance p \<noteq> 0 \<and> \<not> shield_bridge_enabled (spark_build env) net h)
               (InvalidTransaction ''shielded tx must have value_balance == 0'')
           | Inl _ \<Rightarrow> check_v1_shielded env tx)
        else check_v1_shielded env tx))"

section \<open>Stateless checks\<close>

definition check_tx_version_range :: "transaction \<Rightarrow> unit result" where [tx_checks]:
  "check_tx_version_range tx = guard_err (version tx = 0 \<or> MAX_TX_VERSION < version tx)
     (InvalidTxVersion (unat (version tx)))"

definition check_tx_v2_activation :: "transaction \<Rightarrow> nat \<Rightarrow> unit result" where [tx_checks]:
  "check_tx_v2_activation tx h = guard_err (2 \<le> version tx \<and> h < V2_TX_ACTIVATION_HEIGHT)
     (InvalidState ''V2 transactions not allowed below activation height'')"

definition check_output_sizes :: "tx_output \<Rightarrow> unit result" where [tx_checks]:
  "check_output_sizes out =
     andthen (guard_err (length (encrypted_amount out) \<noteq> 8)
         (InvalidTransaction ''output encrypted_amount must be exactly 8 bytes''))
       (guard_err (MAX_OUTPUT_MEMO_SIZE < length (encrypted_memo out))
         (InvalidTransaction ''output encrypted_memo too large''))"

definition check_tx_input_output_counts :: "transaction \<Rightarrow> bool \<Rightarrow> unit result" where [tx_checks]:
  "check_tx_input_output_counts tx v1_0_12_active =
     andthen (guard_err (inputs tx = []) (InvalidInputCount 0 MAX_TX_INPUTS))
     (andthen (guard_err (outputs tx = []) (InvalidOutputCount 0 MAX_TX_OUTPUTS))
     (andthen (if v1_0_12_active then check_all check_output_sizes (outputs tx) else Inr ())
     (andthen (guard_err (MAX_TX_INPUTS < length (inputs tx)) (InvalidInputCount (length (inputs tx)) MAX_TX_INPUTS))
       (guard_err (MAX_TX_OUTPUTS < length (outputs tx)) (InvalidOutputCount (length (outputs tx)) MAX_TX_OUTPUTS)))))"

definition check_tx_io_ratio_legacy :: "transaction \<Rightarrow> unit result" where [tx_checks]:
  "check_tx_io_ratio_legacy tx =
     andthen (guard_err (sat_mul64 (length (outputs tx)) 32 < length (inputs tx))
         (InvalidTransaction ''Input/output ratio too high''))
       (guard_err (sat_mul64 (length (inputs tx)) 32 < length (outputs tx))
         (InvalidTransaction ''Output/input ratio too high''))"

definition check_tx_uniform_shape :: "transaction \<Rightarrow> nat \<Rightarrow> unit result" where [tx_checks]:
  "check_tx_uniform_shape tx h =
     (if h < UNIFORM_TX_SHAPE_HEIGHT then Inr ()
      else if \<not> (tx_type tx = Transfer \<or> tx_type tx = Churn) then Inr ()
      else andthen (guard_err (length (inputs tx) \<noteq> STANDARD_INPUT_COUNT)
             (InvalidTransaction ''Post-activation Transfer/Churn must have exactly the standard inputs''))
        (andthen (guard_err (length (outputs tx) \<noteq> STANDARD_OUTPUT_COUNT \<and>
                             length (outputs tx) \<noteq> STANDARD_OUTPUT_COUNT + 1)
             (InvalidTransaction ''Post-activation Transfer/Churn must have the standard outputs''))
          (guard_err (tx_type tx = Churn \<and> length (outputs tx) \<noteq> STANDARD_OUTPUT_COUNT)
             (InvalidTransaction ''Churn must have exactly the standard outputs''))))"

section \<open>Checks against the output set\<close>

fun double_spend_loop :: "utxo_set \<Rightarrow> key_image set \<Rightarrow> tx_input list \<Rightarrow> unit result" where
  "double_spend_loop u seen [] = Inr ()"
| "double_spend_loop u seen (i # is) =
     (if key_image i \<in> seen \<or> contains_key_image (key_image i) u
      then Inl (DuplicateKeyImage ''duplicate key image detected'')
      else double_spend_loop u (insert (key_image i) seen) is)"

definition check_tx_no_double_spend :: "transaction \<Rightarrow> utxo_set \<Rightarrow> unit result" where
  "check_tx_no_double_spend tx u = double_spend_loop u {} (inputs tx)"

fun fresh_address_loop :: "utxo_set \<Rightarrow> bytes set \<Rightarrow> tx_output list \<Rightarrow> unit result" where
  "fresh_address_loop u seen [] = Inr ()"
| "fresh_address_loop u seen (out # outs) = (let a = stealth_address out in
     if a \<in> seen then Inl (InvalidTransaction ''duplicate stealth address at output'')
     else if get_output_index_entry a u \<noteq> None
     then Inl (InvalidTransaction ''output stealth address collides with existing on-chain output'')
     else fresh_address_loop u (insert a seen) outs)"

definition check_ring_member_coinbase_maturity :: "network_type \<Rightarrow> bool \<Rightarrow> nat \<Rightarrow> nat \<Rightarrow> unit result" where [tx_checks]:
  "check_ring_member_coinbase_maturity net cb output_height h =
     (if \<not> cb then Inr ()
      else guard_err (sat_sub h output_height < min_output_age net h)
        (InvalidTransaction ''Input ring member references immature coinbase output''))"

definition check_ring_member_time_lock :: "nat option \<Rightarrow> nat \<Rightarrow> unit result" where [tx_checks]:
  "check_ring_member_time_lock lock h = (case lock of
       Some lh \<Rightarrow> guard_err (h < lh) (InvalidTransaction ''Input ring member references time-locked output'')
     | None \<Rightarrow> Inr ())"

definition check_ring_member :: "network_type \<Rightarrow> utxo_set \<Rightarrow> nat \<Rightarrow> ring_member_ref \<Rightarrow> unit result" where
  "check_ring_member net u h m = (case get_output_by_stealth (rm_public_key m) u of
       Some r \<Rightarrow>
         andthen (guard_err (rm_commitment m \<noteq> commitment (or_output r))
             (InvalidTransaction ''Input ring member commitment mismatch (live UTXO)''))
         (andthen (check_ring_member_coinbase_maturity net (or_is_coinbase r) (or_height r) h)
           (check_ring_member_time_lock (lock_height (or_output r)) h))
     | None \<Rightarrow> (case get_output_index_entry (rm_public_key m) u of
           Some e \<Rightarrow>
             andthen (guard_err (rm_commitment m \<noteq> oie_commitment e)
                 (InvalidTransaction ''Input ring member commitment mismatch (spent record)''))
             (andthen (check_ring_member_coinbase_maturity net (oie_is_coinbase e) (oie_height e) h)
               (check_ring_member_time_lock (oie_lock_height e) h))
         | None \<Rightarrow> Inl (InvalidTransaction ''Input ring member references non-existent output'')))"

definition check_tx_ring_members :: "network_type \<Rightarrow> transaction \<Rightarrow> utxo_set \<Rightarrow> nat \<Rightarrow> bool \<Rightarrow> unit result" where
  "check_tx_ring_members net tx u h v1_0_12_active =
     andthen (if v1_0_12_active then fresh_address_loop u {} (outputs tx) else Inr ())
       (check_all (\<lambda>i. check_all (check_ring_member net u h) (ring_members i)) (inputs tx))"

definition available_outputs :: "utxo_set \<Rightarrow> bool \<Rightarrow> nat" where
  "available_outputs u v1_0_12_active =
     (if v1_0_12_active then sat_sub (total_outputs_ever u) (reorg_disconnects_total u) else output_count u)"

definition check_input_ring :: "utxo_set \<Rightarrow> nat \<Rightarrow> bool \<Rightarrow> tx_input \<Rightarrow> unit result" where
  "check_input_ring u h v1_0_12_active i = (let ring_size = effective_ring_size h (available_outputs u v1_0_12_active) in
     andthen (guard_err (length (ring_members i) \<noteq> ring_size) (InvalidRingSize ring_size (length (ring_members i))))
       (guard_err (first_dup {} (map rm_public_key (ring_members i))) (InvalidSignature ''Duplicate ring member in input'')))"

definition check_tx_ring_size_and_unique_members :: "transaction \<Rightarrow> utxo_set \<Rightarrow> nat \<Rightarrow> bool \<Rightarrow> unit result" where
  "check_tx_ring_size_and_unique_members tx u h v1_0_12_active =
     check_all (check_input_ring u h v1_0_12_active) (inputs tx)"

definition check_tx_ring_size_cap :: "transaction \<Rightarrow> unit result" where [tx_checks]:
  "check_tx_ring_size_cap tx = check_all (\<lambda>i. guard_err (MAX_RING_SIZE < length (ring_members i))
     (InvalidRingSize MAX_RING_SIZE (length (ring_members i)))) (inputs tx)"

section \<open>Signatures, range proofs and the balance\<close>

definition ring_points_ok :: "'g crypto_env \<Rightarrow> tx_input \<Rightarrow> bool" where
  "ring_points_ok env i \<longleftrightarrow>
     list_all (\<lambda>m. decompress env (rm_public_key m) \<noteq> None \<and> decompress env (rm_commitment m) \<noteq> None)
       (ring_members i) \<and> decompress env (pseudo_output_commitment i) \<noteq> None"

text \<open>The verification itself, without the cache.\<close>

definition ring_signature_valid :: "'g crypto_env \<Rightarrow> transaction \<Rightarrow> tx_input \<Rightarrow> bool" where
  "ring_signature_valid env tx i \<longleftrightarrow> ring_points_ok env i \<and>
     clsag_verify env (signing_hash (env_hash env) tx)
       (map (\<lambda>m. (rm_public_key m, rm_commitment m)) (ring_members i))
       (pseudo_output_commitment i) (signature i)"

definition verify_ring_signature ::
  "'g crypto_env \<Rightarrow> nat \<Rightarrow> transaction \<Rightarrow> tx_input \<Rightarrow> verification_cache \<Rightarrow> bool \<times> verification_cache" where
  "verify_ring_signature env now tx i c =
     (if sig_key_image (signature i) \<noteq> key_image i then (False, c)
      else case sig_to_bytes env (signature i) of
          None \<Rightarrow> (False, c)
        | Some sb \<Rightarrow>
            let key = ring_sig_cache_key (env_hash env) (signing_hash (env_hash env) tx) sb;
                (hit, c) = check_ring_sig key now c in
            case hit of
              Some b \<Rightarrow> (b, c)
            | None \<Rightarrow> let valid = ring_signature_valid env tx i in (valid, cache_ring_sig key valid now c))"

fun ring_signature_loop ::
  "'g crypto_env \<Rightarrow> nat \<Rightarrow> transaction \<Rightarrow> tx_input list \<Rightarrow> verification_cache \<Rightarrow> unit result \<times> verification_cache" where
  "ring_signature_loop env now tx [] c = (Inr (), c)"
| "ring_signature_loop env now tx (i # is) c = (let (ok, c) = verify_ring_signature env now tx i c in
     if ok then ring_signature_loop env now tx is c
     else (Inl (InvalidSignature ''Ring signature verification failed for input''), c))"

definition check_tx_ring_signatures ::
  "'g crypto_env \<Rightarrow> nat \<Rightarrow> transaction \<Rightarrow> verification_cache \<Rightarrow> unit result \<times> verification_cache" where
  "check_tx_ring_signatures env now tx c = ring_signature_loop env now tx (inputs tx) c"

definition verify_range_proofs_dispatch :: "'g crypto_env \<Rightarrow> bytes list \<Rightarrow> range_proof_data \<Rightarrow> nat \<Rightarrow> bool" where
  "verify_range_proofs_dispatch env cs p h = (let bp_plus_active = (BULLETPROOFS_PLUS_HEIGHT \<le> h) in
     if unat (rp_version p) = RANGE_PROOF_VERSION \<and> \<not> bp_plus_active then rp_verify_v2 env cs p
     else if unat (rp_version p) = RANGE_PROOF_VERSION_BP_PLUS \<and> bp_plus_active then rp_verify_bp_plus env cs p
     else False)"

definition verify_output_range_proofs ::
  "'g crypto_env \<Rightarrow> nat \<Rightarrow> transaction \<Rightarrow> nat \<Rightarrow> verification_cache \<Rightarrow> bool \<times> verification_cache" where
  "verify_output_range_proofs env now tx h c =
     (if is_coinbase tx then (True, c)
      else if range_proof tx = [] then (False, c)
      else case rp_from_bytes env (range_proof tx) of
          None \<Rightarrow> (False, c)
        | Some p \<Rightarrow>
            let cs = map commitment (outputs tx) in
            if list_ex (\<lambda>b. decompress env b = None) cs then (False, c)
            else let key = proof_cache_key (env_hash env) (range_proof tx) (concat cs);
                     (hit, c) = check_bulletproof key now c in
              case hit of
                Some b \<Rightarrow> (b, c)
              | None \<Rightarrow> let valid = verify_range_proofs_dispatch env cs p h in
                  (valid, cache_bulletproof key valid now c))"

definition check_tx_range_proofs ::
  "'g crypto_env \<Rightarrow> nat \<Rightarrow> transaction \<Rightarrow> nat \<Rightarrow> verification_cache \<Rightarrow> unit result \<times> verification_cache" where
  "check_tx_range_proofs env now tx h c = (let (ok, c) = verify_output_range_proofs env now tx h c in
     (guard_err (\<not> ok) RangeProofInvalid, c))"

fun sum_points :: "'g::ab_group_add crypto_env \<Rightarrow> bool \<Rightarrow> bytes list \<Rightarrow> 'g \<Rightarrow> 'g option" where
  "sum_points env reject_identity [] acc = Some acc"
| "sum_points env reject_identity (b # bs) acc = (case decompress env b of
     None \<Rightarrow> None
   | Some p \<Rightarrow> if reject_identity \<and> p = 0 then None else sum_points env reject_identity bs (acc + p))"

definition verify_balance_proof :: "'g::ab_group_add crypto_env \<Rightarrow> transaction \<Rightarrow> bool" where
  "verify_balance_proof env tx =
     (if is_coinbase tx then True
      else if inputs tx = [] then False
      else if outputs tx = [] then False
      else case sum_points env True (map pseudo_output_commitment (inputs tx)) 0 of
          None \<Rightarrow> False
        | Some input_sum \<Rightarrow> (case sum_points env False (map commitment (outputs tx)) 0 of
              None \<Rightarrow> False
            | Some output_sum \<Rightarrow> (case decompress env (value_commitment env (fee tx)) of
                  None \<Rightarrow> False
                | Some fee_point \<Rightarrow> input_sum = output_sum + fee_point)))"

definition check_tx_balance_proof :: "'g::ab_group_add crypto_env \<Rightarrow> transaction \<Rightarrow> unit result" where
  "check_tx_balance_proof env tx = guard_err (\<not> verify_balance_proof env tx) CommitmentMismatch"

definition verify_transparent_shielded_balance ::
  "'g::ab_group_add crypto_env \<Rightarrow> bytes list \<Rightarrow> bytes list \<Rightarrow> nat \<Rightarrow> int \<Rightarrow> unit result" where
  "verify_transparent_shielded_balance env pseudo_outputs output_commitments tx_fee vb =
     (case sum_points env True pseudo_outputs 0 of
        None \<Rightarrow> Inl SparkVerifyFailed
      | Some input_sum \<Rightarrow> (case sum_points env False output_commitments 0 of
          None \<Rightarrow> Inl SparkVerifyFailed
        | Some output_sum \<Rightarrow> (case decompress env (value_commitment env tx_fee) of
            None \<Rightarrow> Inl SparkVerifyFailed
          | Some fee_pt \<Rightarrow> (case decompress env (value_commitment env (nat \<bar>vb\<bar>)) of
              None \<Rightarrow> Inl SparkVerifyFailed
            | Some vb_pt \<Rightarrow>
                let expected = (if 0 \<le> vb then output_sum + fee_pt - vb_pt else output_sum + fee_pt + vb_pt) in
                guard_err (input_sum \<noteq> expected)
                  (CryptoError ''shielded value bridge: transparent commitments do not back value_balance'')))))"

section \<open>Curve points\<close>

definition check_point :: "'g crypto_env \<Rightarrow> bytes \<Rightarrow> string \<Rightarrow> string \<Rightarrow> unit result" where
  "check_point env b zero_msg point_msg =
     andthen (guard_err (b = zero32) (InvalidTransaction zero_msg))
       (guard_err (decompress env b = None) (InvalidTransaction point_msg))"

definition check_output_points :: "'g crypto_env \<Rightarrow> tx_output \<Rightarrow> unit result" where
  "check_output_points env out =
     andthen (check_point env (stealth_address out) ''output stealth address is zero''
       ''output stealth address is not a valid Ristretto point (unspendable)'')
     (andthen (check_point env (tx_public_key out) ''output tx_public_key is zero''
       ''output tx_public_key is not a valid Ristretto point (unspendable)'')
     (check_point env (commitment out) ''output commitment is zero''
       ''output commitment is not a valid Ristretto point''))"

definition check_output_curve_points :: "'g crypto_env \<Rightarrow> transaction \<Rightarrow> unit result" where
  "check_output_curve_points env tx = check_all (check_output_points env) (outputs tx)"

definition check_revealed_output :: "'g crypto_env \<Rightarrow> tx_output \<Rightarrow> unit result" where
  "check_revealed_output env out =
     andthen (guard_err (length (encrypted_amount out) \<noteq> 8)
         (InvalidTransaction ''unshield output: a value-revealing output must carry an 8-byte plaintext LE amount''))
       (guard_err (commitment out \<noteq> value_commitment env (from_le_bytes (take 8 (encrypted_amount out))))
         (InvalidTransaction ''unshield output: commitment != commit(declared, 0)''))"

definition check_unshield_outputs_revealed :: "'g crypto_env \<Rightarrow> transaction \<Rightarrow> unit result" where
  "check_unshield_outputs_revealed env tx =
     (if inputs tx \<noteq> [] \<or> outputs tx = [] then Inr () else check_all (check_revealed_output env) (outputs tx))"

section \<open>Validation of a transaction\<close>

text \<open>The \<open>?\<close> operator on checks that read and update the cache.\<close>

definition then_cached ::
  "unit result \<Rightarrow> ('c \<Rightarrow> unit result \<times> 'c) \<Rightarrow> 'c \<Rightarrow> unit result \<times> 'c" where
  "then_cached r k c = (case r of Inl e \<Rightarrow> (Inl e, c) | Inr _ \<Rightarrow> k c)"

definition seq_cached ::
  "('c \<Rightarrow> unit result \<times> 'c) \<Rightarrow> ('c \<Rightarrow> unit result \<times> 'c) \<Rightarrow> 'c \<Rightarrow> unit result \<times> 'c" where
  "seq_cached f g c = (case f c of (r, c) \<Rightarrow> then_cached r g c)"

definition check_tx_against_set :: "network_type \<Rightarrow> transaction \<Rightarrow> utxo_set \<Rightarrow> nat \<Rightarrow> bool \<Rightarrow> unit result" where
  "check_tx_against_set net tx u h active =
     andthen (check_tx_no_double_spend tx u)
     (andthen (check_tx_ring_members net tx u h active)
       (check_tx_ring_size_and_unique_members tx u h active))"

definition check_tx_stateless :: "'g crypto_env \<Rightarrow> transaction \<Rightarrow> nat \<Rightarrow> bool \<Rightarrow> unit result" where
  "check_tx_stateless env tx h active =
     andthen (check_tx_v2_activation tx h)
     (andthen (check_output_curve_points env tx)
     (andthen (check_tx_input_output_counts tx active)
     (andthen (check_tx_io_ratio_legacy tx)
       (check_tx_uniform_shape tx h))))"

definition check_bridged_parts ::
  "'g crypto_env \<Rightarrow> nat \<Rightarrow> network_type \<Rightarrow> utxo_set \<Rightarrow> nat \<Rightarrow> transaction \<Rightarrow> verification_cache \<Rightarrow>
   unit result \<times> verification_cache" where
  "check_bridged_parts env now net u h tx =
     then_cached (check_output_curve_points env tx)
       (seq_cached
         (if inputs tx \<noteq> []
          then then_cached (andthen (check_tx_against_set net tx u h (v1_0_12_rules_active net h)) (check_tx_ring_size_cap tx))
            (seq_cached (check_tx_ring_signatures env now tx) (check_tx_range_proofs env now tx h))
          else Pair (Inr ()))
         (Pair (check_unshield_outputs_revealed env tx)))"

definition validate_transaction_for_network_ctx ::
  "'g::ab_group_add crypto_env \<Rightarrow> nat \<Rightarrow> transaction \<Rightarrow> utxo_set \<Rightarrow> nat \<Rightarrow> network_type \<Rightarrow> bool \<Rightarrow>
   verification_cache \<Rightarrow> unit result \<times> verification_cache" where
  "validate_transaction_for_network_ctx env now tx u h net contextual =
     then_cached (check_tx_version_range tx)
      (if is_coinbase tx then Pair (Inr ())
       else if is_shielded tx
       then then_cached (check_shielded_tx env net h tx)
         (if contextual \<and> shield_bridge_enabled (spark_build env) net h \<and> (inputs tx \<noteq> [] \<or> outputs tx \<noteq> [])
          then check_bridged_parts env now net u h tx else Pair (Inr ()))
       else then_cached
         (andthen (check_tx_stateless env tx h (v1_0_12_rules_active net h))
           (andthen (if contextual then check_tx_against_set net tx u h (v1_0_12_rules_active net h) else Inr ())
             (check_tx_ring_size_cap tx)))
         (seq_cached (check_tx_ring_signatures env now tx)
           (seq_cached (check_tx_range_proofs env now tx h)
             (Pair (check_tx_balance_proof env tx)))))"

definition validate_transaction_for_network ::
  "'g::ab_group_add crypto_env \<Rightarrow> nat \<Rightarrow> transaction \<Rightarrow> utxo_set \<Rightarrow> nat \<Rightarrow> network_type \<Rightarrow>
   verification_cache \<Rightarrow> unit result \<times> verification_cache" where
  "validate_transaction_for_network env now tx u h net = validate_transaction_for_network_ctx env now tx u h net True"

text \<open>\<open>testnet_build\<close> is the compile-time feature that selects the network.\<close>

definition validate_transaction ::
  "bool \<Rightarrow> 'g::ab_group_add crypto_env \<Rightarrow> nat \<Rightarrow> transaction \<Rightarrow> utxo_set \<Rightarrow> nat \<Rightarrow>
   verification_cache \<Rightarrow> unit result \<times> verification_cache" where
  "validate_transaction testnet_build env now tx u h =
     validate_transaction_for_network env now tx u h (if testnet_build then Testnet else Mainnet)"

section \<open>Stateless admission rules\<close>

definition check_basic_shielded :: "'g crypto_env \<Rightarrow> transaction \<Rightarrow> unit result" where
  "check_basic_shielded env tx = (case spark_decode (spark_borsh env) (extra tx) of
       Inl e \<Rightarrow> Inl e
     | Inr p \<Rightarrow> andthen (guard_err (spark_spend p = None \<and> spark_mint p = None \<and> spark_outputs p = [])
           (InvalidTransaction ''shielded tx carries neither a mint nor a spend''))
         (check_unshield_outputs_revealed env tx))"

definition check_basic_size :: "nat \<Rightarrow> bool \<Rightarrow> unit result" where
  "check_basic_size sz min_applies =
     andthen (guard_err (MAX_TX_SIZE < sz) (TransactionTooLarge sz MAX_TX_SIZE))
       (guard_err (sz < MIN_TX_SIZE \<and> min_applies) (TransactionTooSmall sz MIN_TX_SIZE))"

definition check_basic_fee :: "nat \<Rightarrow> transaction \<Rightarrow> unit result" where
  "check_basic_fee sz tx = guard_err (fee tx < sz * MIN_FEE_PER_BYTE \<and> \<not> is_coinbase tx)
     (FeeTooLow (fee tx) (sz * MIN_FEE_PER_BYTE))"

definition check_basic_privacy :: "bool \<Rightarrow> transaction \<Rightarrow> unit result" where
  "check_basic_privacy shielded tx =
     (if is_coinbase tx then Inr ()
      else andthen (check_all (\<lambda>i. guard_err (length (ring_members i) < BOOTSTRAP_MIN_RING_SIZE)
             (InvalidTransaction ''UNCONSTITUTIONAL: ring size below minimum'')) (inputs tx))
        (guard_err (range_proof tx = [] \<and> (\<not> shielded \<or> (inputs tx \<noteq> [] \<and> outputs tx \<noteq> [])))
          (InvalidTransaction ''UNCONSTITUTIONAL: missing range proof'')))"

definition check_basic_output :: "tx_output \<Rightarrow> unit result" where
  "check_basic_output out =
     andthen (guard_err (encrypted_amount out = []) (OutputTooSmall 0 MIN_OUTPUT_AMOUNT))
     (andthen (guard_err (64 < length (encrypted_amount out)) (InvalidTransaction ''encrypted_amount too large''))
       (guard_err (256 < length (encrypted_memo out)) (InvalidTransaction ''encrypted_memo too large'')))"

definition check_counts_max :: "transaction \<Rightarrow> unit result" where
  "check_counts_max tx =
     andthen (guard_err (MAX_TX_INPUTS < length (inputs tx)) (InvalidInputCount (length (inputs tx)) MAX_TX_INPUTS))
       (guard_err (MAX_TX_OUTPUTS < length (outputs tx)) (InvalidOutputCount (length (outputs tx)) MAX_TX_OUTPUTS))"

definition check_key_image_points :: "'g crypto_env \<Rightarrow> transaction \<Rightarrow> unit result" where
  "check_key_image_points env tx =
     (if is_coinbase tx then Inr ()
      else check_all (\<lambda>i. check_point env (key_image i) ''input has zero key image''
        ''input key image is not a valid curve point'') (inputs tx))"

definition validate_transaction_basic :: "'g crypto_env \<Rightarrow> transaction \<Rightarrow> unit result" where
  "validate_transaction_basic env tx = (let shielded = (spark_build env \<and> is_shielded tx); sz = tx_size (env_ser env) tx in
     andthen (check_tx_version_range tx)
     (andthen (if shielded then check_basic_shielded env tx else Inr ())
     (andthen (guard_err (inputs tx = [] \<and> \<not> shielded) (InvalidTransaction ''transaction has no inputs''))
     (andthen (guard_err (outputs tx = [] \<and> \<not> shielded) (InvalidTransaction ''transaction has no outputs''))
     (andthen (check_basic_size sz True)
     (andthen (check_basic_fee sz tx)
     (andthen (check_basic_privacy shielded tx)
     (andthen (guard_err (first_dup {} (key_images tx)) (InvalidTransaction ''duplicate key image within transaction''))
     (andthen (check_counts_max tx)
     (andthen (check_all check_basic_output (outputs tx))
     (andthen (check_output_curve_points env tx)
       (check_key_image_points env tx))))))))))))"

section \<open>Mandatory privacy\<close>

definition point_hidden :: "'g::ab_group_add crypto_env \<Rightarrow> bytes \<Rightarrow> bool" where
  "point_hidden env b = (case decompress env b of None \<Rightarrow> False | Some p \<Rightarrow> p \<noteq> 0)"

definition check_tx_privacy :: "'g::ab_group_add crypto_env \<Rightarrow> transaction \<Rightarrow> unit result" where
  "check_tx_privacy env tx =
     (if tx_type tx = Shielded then Inr ()
      else andthen (check_all (\<lambda>out. guard_err (\<not> point_hidden env (commitment out)) TransparentOutputForbidden) (outputs tx))
        (andthen (check_all (\<lambda>out. guard_err (\<not> point_hidden env (stealth_address out)) RawPubkeyForbidden) (outputs tx))
          (guard_err (inputs tx = []) UnshieldedForbidden)))"

definition enforce_privacy_policy :: "'g::ab_group_add crypto_env \<Rightarrow> block \<Rightarrow> unit result" where
  "enforce_privacy_policy env b = check_all (\<lambda>tx.
     if tx_type tx = Coinbase then Inr () else if tx_type tx = Shielded then Inr () else check_tx_privacy env tx)
     (transactions b)"

section \<open>The structural validator\<close>

definition check_lock_height :: "nat \<Rightarrow> tx_output \<Rightarrow> unit result" where
  "check_lock_height h out = (case lock_height out of
       Some lh \<Rightarrow> guard_err (as_u64 (h + 525960) < lh) (InvalidTransaction ''lock_height is too far in the future'')
     | None \<Rightarrow> Inr ())"

definition check_structural_input :: "nat \<Rightarrow> tx_input \<Rightarrow> unit result" where
  "check_structural_input h i = (let actual = length (ring_members i); target_ring_size = ring_size_at_height h in
     andthen (if h < 10000
              then guard_err (actual < 2 \<or> target_ring_size < actual) (InvalidRingSize target_ring_size actual)
              else guard_err (actual \<noteq> target_ring_size) (InvalidRingSize target_ring_size actual))
     (andthen (guard_err (length (responses (signature i)) \<noteq> actual) (InvalidSignature ''ring signature size mismatch''))
       (guard_err (sig_key_image (signature i) \<noteq> key_image i) (InvalidSignature ''key image mismatch''))))"

definition validate_transaction_structure :: "tx_codec \<Rightarrow> transaction \<Rightarrow> nat \<Rightarrow> unit result" where
  "validate_transaction_structure ser tx h = (let sz = tx_size ser tx in
     andthen (guard_err (version tx \<noteq> 1) (InvalidTxVersion (unat (version tx))))
     (andthen (check_basic_size sz (\<not> is_coinbase tx))
     (andthen (check_counts_max tx)
     (andthen (guard_err (outputs tx = []) (InvalidOutputCount 0 MAX_TX_OUTPUTS))
     (andthen (check_all (check_lock_height h) (outputs tx))
     (andthen (guard_err (first_dup {} (key_images tx)) (DuplicateKeyImage ''duplicate key image detected''))
     (andthen (check_all (check_structural_input h) (inputs tx))
     (andthen (check_basic_fee sz tx)
     (andthen (guard_err (MAX_TX_SIZE < length (range_proof tx)) RangeProofInvalid)
     (andthen (guard_err (256 < length (extra tx)) (InvalidMessage ''extra data too large''))
       (if extra tx = [] then Inr ()
        else case validate_recovery_extra (extra tx) (length (outputs tx)) of
            Inl _ \<Rightarrow> Inl (InvalidTransaction ''invalid recovery metadata'')
          | Inr _ \<Rightarrow> Inr ())))))))))))"

section \<open>What the loops decide\<close>

lemma double_spend_loop_ok:
  "double_spend_loop u seen is = Inr () \<longleftrightarrow>
     distinct (map key_image is) \<and> set (map key_image is) \<inter> seen = {} \<and>
     (\<forall>i\<in>set is. \<not> contains_key_image (key_image i) u)"
  by (induction "is" arbitrary: seen) auto

lemma check_tx_no_double_spend_ok [tx_checks]:
  "check_tx_no_double_spend tx u = Inr () \<longleftrightarrow>
     distinct (key_images tx) \<and> (\<forall>i\<in>set (inputs tx). \<not> contains_key_image (key_image i) u)"
  by (simp add: check_tx_no_double_spend_def double_spend_loop_ok key_images_def)

lemma fresh_address_loop_ok [tx_checks]:
  "fresh_address_loop u seen outs = Inr () \<longleftrightarrow>
     distinct (map stealth_address outs) \<and> set (map stealth_address outs) \<inter> seen = {} \<and>
     (\<forall>out\<in>set outs. get_output_index_entry (stealth_address out) u = None)"
  by (induction outs arbitrary: seen) (auto simp: Let_def)

lemma then_cached_simps [simp]:
  "then_cached (Inl e) k c = (Inl e, c)" "then_cached (Inr u) k c = k c"
  by (simp_all add: then_cached_def)

definition point_of :: "'g crypto_env \<Rightarrow> bytes \<Rightarrow> 'g" where
  "point_of env b = the (decompress env b)"

lemma sum_points_spec:
  "sum_points env rej bs acc = Some s \<longleftrightarrow>
     (\<forall>b\<in>set bs. decompress env b \<noteq> None \<and> (rej \<longrightarrow> decompress env b \<noteq> Some 0)) \<and>
     s = acc + (\<Sum>b\<leftarrow>bs. point_of env b)"
  by (induction bs arbitrary: acc) (auto simp: point_of_def add.assoc split: option.splits)

section \<open>The cache in front of the verifiers\<close>

text \<open>
  What the two keys stand for. A ring-signature statement is a transaction with one of its
  inputs, a range-proof statement a transaction. \<open>T\<close> is the set of transactions the node
  has checked; the hash function has no collision among the texts hashed for them.
\<close>

definition ring_pre :: "'g crypto_env \<Rightarrow> transaction \<times> tx_input \<Rightarrow> bytes" where
  "ring_pre env s = ring_sig_preimage (signing_hash (env_hash env) (fst s))
     (case sig_to_bytes env (signature (snd s)) of Some sb \<Rightarrow> sb | None \<Rightarrow> [])"

definition ring_truth :: "'g crypto_env \<Rightarrow> transaction \<times> tx_input \<Rightarrow> bool" where
  "ring_truth env s = ring_signature_valid env (fst s) (snd s)"

definition sig_codec_ok :: "'g crypto_env \<Rightarrow> bool" where
  "sig_codec_ok env \<longleftrightarrow> (\<forall>s t b. sig_to_bytes env s = Some b \<longrightarrow> sig_to_bytes env t = Some b \<longrightarrow> s = t)"

definition strict_parser :: "(bytes \<Rightarrow> 'a option) \<Rightarrow> bool" where
  "strict_parser parse \<longleftrightarrow> (\<forall>a b. parse a \<noteq> None \<longrightarrow> parse (a @ b) \<noteq> None \<longrightarrow> b = [])"

definition ring_wf :: "'g crypto_env \<Rightarrow> transaction set \<Rightarrow> transaction \<times> tx_input \<Rightarrow> bool" where
  "ring_wf env T s \<longleftrightarrow> fst s \<in> T \<and> snd s \<in> set (inputs (fst s)) \<and> wf_tx (fst s) \<and>
     distinct (key_images (fst s)) \<and> sig_key_image (signature (snd s)) = key_image (snd s) \<and>
     sig_to_bytes env (signature (snd s)) \<noteq> None \<and> sig_codec_ok env \<and>
     (\<forall>x. is32 (env_hash env x)) \<and> collision_free (env_hash env) (tx_signing_data ` T)"

definition range_pre :: "transaction \<Rightarrow> bytes" where
  "range_pre tx = proof_preimage (range_proof tx) (concat (map commitment (outputs tx)))"

definition range_truth :: "'g crypto_env \<Rightarrow> transaction \<Rightarrow> bool" where
  "range_truth env tx = (case rp_from_bytes env (range_proof tx) of
     None \<Rightarrow> False | Some p \<Rightarrow> verify_range_proofs_dispatch env (map commitment (outputs tx)) p 0)"

definition range_wf :: "'g crypto_env \<Rightarrow> transaction \<Rightarrow> bool" where
  "range_wf env tx \<longleftrightarrow> wf_tx tx \<and> strict_parser (rp_from_bytes env) \<and> rp_from_bytes env (range_proof tx) \<noteq> None"

lemma dispatch_height: "verify_range_proofs_dispatch env cs p h = verify_range_proofs_dispatch env cs p 0"
  by (simp add: verify_range_proofs_dispatch_def BULLETPROOFS_PLUS_HEIGHT_def)

lemma concat32_inject:
  "list_all is32 xs \<Longrightarrow> list_all is32 ys \<Longrightarrow> concat xs = concat ys \<Longrightarrow> xs = ys"
proof (induction xs arbitrary: ys)
  case Nil
  then show ?case by (cases ys) (simp_all add: is32_def)
next
  case (Cons x xs)
  show ?case
  proof (cases ys)
    case Nil
    then show ?thesis using Cons.prems by (simp add: is32_def)
  next
    case (Cons y zs)
    then have "x = y" "concat xs = concat zs" using Cons.prems by (simp_all add: is32_prefix)
    then show ?thesis using Cons Cons.IH [of zs] Cons.prems by simp
  qed
qed

lemma strict_parser_split:
  assumes "strict_parser parse" "parse a \<noteq> None" "parse b \<noteq> None" "a @ r = b @ s"
  shows "a = b \<and> r = s"
proof -
  obtain us where "a = b @ us \<and> us @ r = s \<or> a @ us = b \<and> r = us @ s"
    using assms(4) unfolding append_eq_append_conv2 by blast
  moreover from this have "us = []" using assms(1-3) unfolding strict_parser_def by blast
  ultimately show ?thesis by simp
qed

lemma wf_tx_commitments: "wf_tx tx \<Longrightarrow> list_all is32 (map commitment (outputs tx))"
  by (auto simp: wf_tx_def wf_output_def list_all_iff)

lemma range_pre_inject:
  assumes "range_wf env s" "range_wf env t" "range_pre s = range_pre t"
  shows "range_proof s = range_proof t \<and> map commitment (outputs s) = map commitment (outputs t)"
proof -
  have "range_proof s @ concat (map commitment (outputs s)) = range_proof t @ concat (map commitment (outputs t))"
    using assms(3) unfolding range_pre_def proof_preimage_def by simp
  then have eq: "range_proof s = range_proof t \<and> concat (map commitment (outputs s)) = concat (map commitment (outputs t))"
    using assms(1,2) unfolding range_wf_def by (intro strict_parser_split [of "rp_from_bytes env"]) blast+
  have "list_all is32 (map commitment (outputs s))" "list_all is32 (map commitment (outputs t))"
    using assms(1,2) wf_tx_commitments unfolding range_wf_def by blast+
  then show ?thesis using eq concat32_inject by blast
qed

lemma range_pre_determines:
  assumes "range_wf env s" "range_wf env t" "range_pre s = range_pre t"
  shows "range_truth env s = range_truth env t"
proof -
  have "range_proof s = range_proof t" "map commitment (outputs s) = map commitment (outputs t)"
    using range_pre_inject [OF assms] by blast+
  then show ?thesis unfolding range_truth_def by (simp only: cong: option.case_cong)
qed

interpretation range_cache: positive_cache range_pre "range_truth env" "range_wf env" for env :: "'g crypto_env"
  by unfold_locales (rule range_pre_determines)

lemma distinct_key_image_unique:
  "distinct (key_images tx) \<Longrightarrow> i \<in> set (inputs tx) \<Longrightarrow> j \<in> set (inputs tx) \<Longrightarrow> key_image i = key_image j \<Longrightarrow> i = j"
  by (auto simp: key_images_def distinct_map inj_on_def)

lemma ring_pre_split:
  assumes "ring_wf env T s" "ring_wf env T t" "ring_pre env s = ring_pre env t"
  shows "signing_hash (env_hash env) (fst s) = signing_hash (env_hash env) (fst t) \<and>
    signature (snd s) = signature (snd t)"
proof -
  obtain a b where ab: "sig_to_bytes env (signature (snd s)) = Some a" "sig_to_bytes env (signature (snd t)) = Some b"
    using assms(1,2) by (auto simp: ring_wf_def)
  have "is32 (signing_hash (env_hash env) tx)" for tx
    using assms(1) by (simp add: ring_wf_def signing_hash_def compute_signing_hash_def hash_concat_def)
  then have "signing_hash (env_hash env) (fst s) = signing_hash (env_hash env) (fst t) \<and> a = b"
    using assms(3) ab by (simp add: ring_pre_def ring_sig_preimage_def is32_prefix)
  then show ?thesis using ab assms(1) by (auto simp: ring_wf_def sig_codec_ok_def)
qed

lemma ring_pre_inject:
  assumes "ring_wf env T s" "ring_wf env T t" "ring_pre env s = ring_pre env t"
  shows "ring_truth env s = ring_truth env t"
proof -
  obtain a i b j where st: "s = (a, i)" "t = (b, j)" by fastforce
  have eq: "signing_hash (env_hash env) a = signing_hash (env_hash env) b" "signature i = signature j"
    using ring_pre_split [OF assms] st by simp_all
  have wf: "wf_tx a" "wf_tx b" "i \<in> set (inputs a)" "j \<in> set (inputs b)" "distinct (key_images b)" "a \<in> T" "b \<in> T"
    "sig_key_image (signature i) = key_image i" "sig_key_image (signature j) = key_image j"
    "collision_free (env_hash env) (tx_signing_data ` T)"
    using assms(1,2) st by (simp_all add: ring_wf_def)
  have "env_hash env (tx_signing_data a) = env_hash env (tx_signing_data b)"
    using eq(1) by (simp add: signing_hash_def compute_signing_hash_def hash_concat_def tx_signing_data_def)
  then have "tx_signing_data a = tx_signing_data b" using wf by (auto simp: collision_free_def inj_on_def)
  from signing_data_inject [OF wf(1,2) this]
  have "map from_txinput (inputs a) = map from_txinput (inputs b)" by blast
  then have "from_txinput i \<in> from_txinput ` set (inputs b)" using wf(3) by (metis image_eqI set_map)
  then obtain k where k: "k \<in> set (inputs b)" "from_txinput i = from_txinput k" by blast
  then have "key_image k = key_image j" using eq(2) wf by (simp add: from_txinput_def)
  then have "k = j" using distinct_key_image_unique wf k by blast
  then show ?thesis
    using k(2) eq st by (simp add: ring_truth_def ring_signature_valid_def ring_points_ok_def from_txinput_def)
qed

interpretation ring_cache: positive_cache "ring_pre env" "ring_truth env" "ring_wf env T"
  for env :: "'g crypto_env" and T
  by unfold_locales (rule ring_pre_inject)

definition ring_statements :: "'g crypto_env \<Rightarrow> transaction set \<Rightarrow> (transaction \<times> tx_input) set" where
  "ring_statements env T = {s. ring_wf env T s}"

definition range_statements :: "'g crypto_env \<Rightarrow> transaction set \<Rightarrow> transaction set" where
  "range_statements env T = {tx \<in> T. range_wf env tx}"

definition env_ok :: "'g crypto_env \<Rightarrow> transaction set \<Rightarrow> bool" where
  "env_ok env T \<longleftrightarrow> (\<forall>tx\<in>T. wf_tx tx) \<and> sig_codec_ok env \<and> strict_parser (rp_from_bytes env) \<and>
     (\<forall>x. is32 (env_hash env x)) \<and>
     collision_free (env_hash env)
       (tx_signing_data ` T \<union> ring_pre env ` (SIGMA tx:T. set (inputs tx)) \<union> range_pre ` T)"

definition cache_sound :: "'g crypto_env \<Rightarrow> transaction set \<Rightarrow> verification_cache \<Rightarrow> bool" where
  "cache_sound env T c \<longleftrightarrow> entries_ok (ring_sig_cache c) \<and> entries_ok (bulletproof_cache c) \<and>
     sound_entries (env_hash env) (ring_pre env) (ring_truth env) (ring_statements env T) (ring_sig_cache c) \<and>
     sound_entries (env_hash env) range_pre (range_truth env) (range_statements env T) (bulletproof_cache c)"

lemma cache_sound_new: "cache_sound env T cache_new"
  by (simp add: cache_sound_def cache_new_def entries_ok_def sound_entries_def cache_keys_def)

lemma collision_free_subset: "collision_free H S \<Longrightarrow> R \<subseteq> S \<Longrightarrow> collision_free H R"
  by (auto simp: collision_free_def intro: inj_on_subset)

lemma env_ok_rings:
  assumes "env_ok env T"
  shows "collision_free (env_hash env) (ring_pre env ` ring_statements env T)"
proof -
  have "ring_statements env T \<subseteq> (SIGMA tx:T. set (inputs tx))"
    by (auto simp: ring_statements_def ring_wf_def)
  then show ?thesis using assms unfolding env_ok_def by (blast intro: collision_free_subset)
qed

lemma env_ok_ranges:
  assumes "env_ok env T"
  shows "collision_free (env_hash env) (range_pre ` range_statements env T)"
proof -
  have "range_statements env T \<subseteq> T" by (auto simp: range_statements_def)
  then show ?thesis using assms unfolding env_ok_def by (blast intro: collision_free_subset)
qed

definition ring_ok :: "'g crypto_env \<Rightarrow> transaction \<Rightarrow> tx_input \<Rightarrow> bool" where
  "ring_ok env tx i \<longleftrightarrow> sig_key_image (signature i) = key_image i \<and> sig_to_bytes env (signature i) \<noteq> None \<and>
     ring_signature_valid env tx i"

definition range_ok :: "'g crypto_env \<Rightarrow> transaction \<Rightarrow> bool" where
  "range_ok env tx \<longleftrightarrow> is_coinbase tx \<or> range_proof tx \<noteq> [] \<and>
     (\<forall>out\<in>set (outputs tx). decompress env (commitment out) \<noteq> None) \<and> range_truth env tx"

lemma verify_ring_signature_cached:
  assumes "sig_key_image (signature i) = key_image i" "sig_to_bytes env (signature i) = Some sb"
  shows "fst (verify_ring_signature env now tx i c) =
      fst (cached_verify (env_hash env) (ring_pre env) (ring_truth env) now (tx, i) (ring_sig_cache c))"
    "ring_sig_cache (snd (verify_ring_signature env now tx i c)) =
      snd (cached_verify (env_hash env) (ring_pre env) (ring_truth env) now (tx, i) (ring_sig_cache c))"
    "bulletproof_cache (snd (verify_ring_signature env now tx i c)) = bulletproof_cache c"
  using assms by (simp_all add: verify_ring_signature_def cached_verify_def check_ring_sig_def
      cache_ring_sig_def ring_sig_cache_key_def ring_pre_def ring_truth_def Let_def)

lemma verify_ring_signature_correct:
  assumes "env_ok env T" "cache_sound env T c" "tx \<in> T" "distinct (key_images tx)" "i \<in> set (inputs tx)"
  shows "fst (verify_ring_signature env now tx i c) = ring_ok env tx i"
    "cache_sound env T (snd (verify_ring_signature env now tx i c))"
proof -
  have "fst (verify_ring_signature env now tx i c) = ring_ok env tx i \<and>
    cache_sound env T (snd (verify_ring_signature env now tx i c))"
  proof (cases "sig_key_image (signature i) = key_image i \<and> sig_to_bytes env (signature i) \<noteq> None")
    case True
    then obtain sb where sb: "sig_to_bytes env (signature i) = Some sb" by blast
    have wf: "ring_wf env T (tx, i)"
      using assms True unfolding env_ok_def ring_wf_def by (auto elim: collision_free_subset)
    have ins: "insert (tx, i) (ring_statements env T) = ring_statements env T"
      using wf by (auto simp: ring_statements_def)
    have all: "\<forall>t\<in>ring_statements env T. ring_wf env T t" by (simp add: ring_statements_def)
    note cv = verify_ring_signature_cached [OF conjunct1 [OF True] sb, of now tx c]
    have s: "sound_entries (env_hash env) (ring_pre env) (ring_truth env) (ring_statements env T) (ring_sig_cache c)"
      "entries_ok (ring_sig_cache c)" using assms(2) by (simp_all add: cache_sound_def)
    note ok = ring_cache.cached_verify_correct [OF s wf all, unfolded ins, OF env_ok_rings [OF assms(1)], of now]
    show ?thesis
      using ok assms(2) True by (simp add: cv cache_sound_def ring_ok_def) (simp add: ring_truth_def)
  next
    case False
    then have "verify_ring_signature env now tx i c = (False, c)"
      by (auto simp: verify_ring_signature_def split: option.split)
    then show ?thesis using False assms(2) by (simp add: ring_ok_def)
  qed
  then show "fst (verify_ring_signature env now tx i c) = ring_ok env tx i"
    "cache_sound env T (snd (verify_ring_signature env now tx i c))" by blast+
qed

lemma verify_output_range_proofs_cached:
  assumes "\<not> is_coinbase tx" "range_proof tx \<noteq> []" "rp_from_bytes env (range_proof tx) = Some p"
    "\<not> list_ex (\<lambda>b. decompress env b = None) (map commitment (outputs tx))"
  shows "fst (verify_output_range_proofs env now tx h c) =
      fst (cached_verify (env_hash env) range_pre (range_truth env) now tx (bulletproof_cache c))"
    "bulletproof_cache (snd (verify_output_range_proofs env now tx h c)) =
      snd (cached_verify (env_hash env) range_pre (range_truth env) now tx (bulletproof_cache c))"
    "ring_sig_cache (snd (verify_output_range_proofs env now tx h c)) = ring_sig_cache c"
proof -
  have t: "verify_range_proofs_dispatch env (map commitment (outputs tx)) p h = range_truth env tx"
    using assms(3) dispatch_height [of env _ p h] by (simp add: range_truth_def)
  have e: "verify_output_range_proofs env now tx h c =
    (case check_bulletproof (proof_cache_key (env_hash env) (range_proof tx) (concat (map commitment (outputs tx)))) now c of
       (hit, c) \<Rightarrow> (case hit of Some b \<Rightarrow> (b, c)
         | None \<Rightarrow> (range_truth env tx, cache_bulletproof
             (proof_cache_key (env_hash env) (range_proof tx) (concat (map commitment (outputs tx)))) (range_truth env tx) now c)))"
    using assms unfolding verify_output_range_proofs_def Let_def t [symmetric] by simp
  show "fst (verify_output_range_proofs env now tx h c) =
      fst (cached_verify (env_hash env) range_pre (range_truth env) now tx (bulletproof_cache c))"
    "bulletproof_cache (snd (verify_output_range_proofs env now tx h c)) =
      snd (cached_verify (env_hash env) range_pre (range_truth env) now tx (bulletproof_cache c))"
    "ring_sig_cache (snd (verify_output_range_proofs env now tx h c)) = ring_sig_cache c"
    unfolding e
    by (simp_all add: cached_verify_def check_bulletproof_def cache_bulletproof_def proof_cache_key_def range_pre_def)
qed

lemma verify_output_range_proofs_correct:
  assumes "env_ok env T" "cache_sound env T c" "tx \<in> T"
  shows "fst (verify_output_range_proofs env now tx h c) = range_ok env tx \<and>
    cache_sound env T (snd (verify_output_range_proofs env now tx h c))"
proof (cases "\<not> is_coinbase tx \<and> range_proof tx \<noteq> [] \<and> rp_from_bytes env (range_proof tx) \<noteq> None \<and>
    \<not> list_ex (\<lambda>b. decompress env b = None) (map commitment (outputs tx))")
  case True
  then obtain p where p: "rp_from_bytes env (range_proof tx) = Some p" by blast
  have wf: "range_wf env tx" using assms(1,3) True unfolding env_ok_def range_wf_def by blast
  have ins: "insert tx (range_statements env T) = range_statements env T"
    using wf assms(3) by (auto simp: range_statements_def)
  have all: "\<forall>t\<in>range_statements env T. range_wf env t" by (simp add: range_statements_def)
  have nc: "\<not> is_coinbase tx" "range_proof tx \<noteq> []"
    "\<not> list_ex (\<lambda>b. decompress env b = None) (map commitment (outputs tx))" using True by blast+
  note cv = verify_output_range_proofs_cached [OF nc(1,2) p nc(3), of now h c]
  have s: "sound_entries (env_hash env) range_pre (range_truth env) (range_statements env T) (bulletproof_cache c)"
    "entries_ok (bulletproof_cache c)" using assms(2) by (simp_all add: cache_sound_def)
  note ok = range_cache.cached_verify_correct [OF s wf all, unfolded ins, OF env_ok_ranges [OF assms(1)], of now]
  have "range_ok env tx = range_truth env tx" using nc by (auto simp: range_ok_def list_ex_iff)
  then show ?thesis using ok assms(2) by (simp add: cv cache_sound_def)
next
  case False
  then have "verify_output_range_proofs env now tx h c = (is_coinbase tx, c)"
    by (auto simp: verify_output_range_proofs_def Let_def split: option.split)
  moreover have "range_ok env tx = is_coinbase tx"
    using False by (auto simp: range_ok_def range_truth_def list_ex_iff split: option.splits)
  ultimately show ?thesis using assms(2) by simp
qed

text \<open>
  \<open>implements P f v\<close>: from every state satisfying \<open>P\<close> the cached check \<open>f\<close> returns the
  result \<open>v\<close> and keeps \<open>P\<close>.
\<close>

definition implements :: "('c \<Rightarrow> bool) \<Rightarrow> ('c \<Rightarrow> 'r \<times> 'c) \<Rightarrow> 'r \<Rightarrow> bool" where
  "implements P f v \<longleftrightarrow> (\<forall>c. P c \<longrightarrow> fst (f c) = v \<and> P (snd (f c)))"

lemma implements_Pair [intro]: "implements P (Pair r) r"
  by (simp add: implements_def)

lemma implements_then: "(r = Inr () \<Longrightarrow> implements P k v) \<Longrightarrow> implements P (then_cached r k) (andthen r v)"
  by (cases r) (simp_all add: implements_def)

lemma implements_seq:
  assumes "implements P f a" "a = Inr () \<Longrightarrow> implements P g b"
  shows "implements P (seq_cached f g) (andthen a b)"
  unfolding implements_def
proof (intro allI impI)
  fix c assume "P c"
  then have f: "fst (f c) = a" "P (snd (f c))" using assms(1) by (simp_all add: implements_def)
  have e: "seq_cached f g c = then_cached a g (snd (f c))" using f(1) by (simp add: seq_cached_def split_beta)
  show "fst (seq_cached f g c) = andthen a b \<and> P (snd (seq_cached f g c))"
  proof (cases a)
    case (Inl err)
    then show ?thesis using f(2) by (simp add: e)
  next
    case (Inr x)
    then have "implements P g b" by (intro assms(2)) simp
    then show ?thesis using Inr f(2) by (simp add: e implements_def)
  qed
qed

definition ring_check :: "'g crypto_env \<Rightarrow> transaction \<Rightarrow> unit result" where
  "ring_check env tx = check_all (\<lambda>i. guard_err (\<not> ring_ok env tx i)
     (InvalidSignature ''Ring signature verification failed for input'')) (inputs tx)"

lemma ring_signature_loop_correct:
  assumes "env_ok env T" "tx \<in> T" "distinct (key_images tx)" "set is \<subseteq> set (inputs tx)" "cache_sound env T c"
  shows "fst (ring_signature_loop env now tx is c) = check_all (\<lambda>i. guard_err (\<not> ring_ok env tx i)
     (InvalidSignature ''Ring signature verification failed for input'')) is \<and>
     cache_sound env T (snd (ring_signature_loop env now tx is c))"
  using assms(4,5)
proof (induction "is" arbitrary: c)
  case (Cons i "is")
  have i: "i \<in> set (inputs tx)" using Cons.prems by simp
  note v = verify_ring_signature_correct [OF assms(1) Cons.prems(2) assms(2,3) i, of now]
  show ?case
  proof (cases "ring_ok env tx i")
    case True
    then have "ring_signature_loop env now tx (i # is) c =
        ring_signature_loop env now tx is (snd (verify_ring_signature env now tx i c))"
      using v(1) by (simp add: split_beta Let_def)
    then show ?thesis using Cons.IH [OF _ v(2)] Cons.prems(1) True by (simp add: guard_err_def)
  next
    case False
    then show ?thesis using v by (simp add: split_beta Let_def guard_err_def)
  qed
qed simp

lemma implements_rings:
  "env_ok env T \<Longrightarrow> tx \<in> T \<Longrightarrow> distinct (key_images tx) \<Longrightarrow>
   implements (cache_sound env T) (check_tx_ring_signatures env now tx) (ring_check env tx)"
  using ring_signature_loop_correct [of env T tx "inputs tx"]
  by (simp add: implements_def check_tx_ring_signatures_def ring_check_def)

lemma implements_ranges:
  "env_ok env T \<Longrightarrow> tx \<in> T \<Longrightarrow>
   implements (cache_sound env T) (check_tx_range_proofs env now tx h) (guard_err (\<not> range_ok env tx) RangeProofInvalid)"
  using verify_output_range_proofs_correct [of env T _ tx now h]
  by (simp add: implements_def check_tx_range_proofs_def split_beta Let_def)

section \<open>Validation without a cache\<close>

definition bridged_reference :: "'g crypto_env \<Rightarrow> network_type \<Rightarrow> utxo_set \<Rightarrow> nat \<Rightarrow> transaction \<Rightarrow> unit result" where
  "bridged_reference env net u h tx =
     andthen (check_output_curve_points env tx)
     (andthen (if inputs tx \<noteq> []
          then andthen (andthen (check_tx_against_set net tx u h (v1_0_12_rules_active net h)) (check_tx_ring_size_cap tx))
            (andthen (ring_check env tx) (guard_err (\<not> range_ok env tx) RangeProofInvalid))
          else Inr ())
         (check_unshield_outputs_revealed env tx))"

definition validate_reference ::
  "'g::ab_group_add crypto_env \<Rightarrow> transaction \<Rightarrow> utxo_set \<Rightarrow> nat \<Rightarrow> network_type \<Rightarrow> bool \<Rightarrow> unit result" where
  "validate_reference env tx u h net contextual =
     andthen (check_tx_version_range tx)
      (if is_coinbase tx then Inr ()
       else if is_shielded tx
       then andthen (check_shielded_tx env net h tx)
         (if contextual \<and> shield_bridge_enabled (spark_build env) net h \<and> (inputs tx \<noteq> [] \<or> outputs tx \<noteq> [])
          then bridged_reference env net u h tx else Inr ())
       else andthen
         (andthen (check_tx_stateless env tx h (v1_0_12_rules_active net h))
           (andthen (if contextual then check_tx_against_set net tx u h (v1_0_12_rules_active net h) else Inr ())
             (check_tx_ring_size_cap tx)))
         (andthen (ring_check env tx)
           (andthen (guard_err (\<not> range_ok env tx) RangeProofInvalid) (check_tx_balance_proof env tx))))"

lemma against_set_distinct: "check_tx_against_set net tx u h a = Inr () \<Longrightarrow> distinct (key_images tx)"
  by (simp add: check_tx_against_set_def check_tx_no_double_spend_ok)

lemma implements_bridged:
  assumes "env_ok env T" "tx \<in> T"
  shows "implements (cache_sound env T) (check_bridged_parts env now net u h tx) (bridged_reference env net u h tx)"
  unfolding check_bridged_parts_def bridged_reference_def
  by (intro implements_then implements_seq implements_Pair)
    (auto intro!: implements_then implements_seq implements_rings implements_ranges assms dest: against_set_distinct)

lemma implements_validate:
  assumes "env_ok env T" "tx \<in> T" "contextual \<or> distinct (key_images tx)"
  shows "implements (cache_sound env T) (validate_transaction_for_network_ctx env now tx u h net contextual)
    (validate_reference env tx u h net contextual)"
  unfolding validate_transaction_for_network_ctx_def validate_reference_def using assms(3)
  by (intro implements_then)
    (auto intro!: implements_then implements_seq implements_rings implements_ranges implements_bridged assms(1,2)
      dest: against_set_distinct)

text \<open>A node's validations in the order they happen, sharing one cache.\<close>

type_synonym validation_request = "nat \<times> transaction \<times> utxo_set \<times> nat \<times> network_type \<times> bool"

fun validate_run :: "'g::ab_group_add crypto_env \<Rightarrow> validation_request list \<Rightarrow> verification_cache \<Rightarrow> unit result list" where
  "validate_run env [] c = []"
| "validate_run env ((now, tx, u, h, net, contextual) # rs) c =
     (let (r, c) = validate_transaction_for_network_ctx env now tx u h net contextual c in r # validate_run env rs c)"

definition request_ok :: "transaction set \<Rightarrow> validation_request \<Rightarrow> bool" where
  "request_ok T r = (case r of (now, tx, u, h, net, contextual) \<Rightarrow> tx \<in> T \<and> (contextual \<or> distinct (key_images tx)))"

definition request_reference :: "'g::ab_group_add crypto_env \<Rightarrow> validation_request \<Rightarrow> unit result" where
  "request_reference env r = (case r of (now, tx, u, h, net, contextual) \<Rightarrow> validate_reference env tx u h net contextual)"

lemma validate_run_reference:
  assumes "env_ok env T" "list_all (request_ok T) rs" "cache_sound env T c"
  shows "validate_run env rs c = map (request_reference env) rs"
  using assms(2,3)
proof (induction rs arbitrary: c)
  case (Cons r rs)
  obtain now tx u h net ctx where r: "r = (now, tx, u, h, net, ctx)" by (cases r) auto
  then have "tx \<in> T" "ctx \<or> distinct (key_images tx)" using Cons.prems(1) by (simp_all add: request_ok_def)
  then have "implements (cache_sound env T) (validate_transaction_for_network_ctx env now tx u h net ctx)
      (validate_reference env tx u h net ctx)"
    using implements_validate [OF assms(1)] by blast
  then have "fst (validate_transaction_for_network_ctx env now tx u h net ctx c) = validate_reference env tx u h net ctx"
    "cache_sound env T (snd (validate_transaction_for_network_ctx env now tx u h net ctx c))"
    using Cons.prems(2) unfolding implements_def by blast+
  then show ?case using Cons.IH Cons.prems(1) r by (simp add: split_beta Let_def request_reference_def)
qed simp

text \<open>
  C19 (the verification cache changes no verdict). Take any sequence of validations on any
  transactions, output sets, heights and networks, sharing one cache that starts empty. Each
  verdict is the one given by verifying every ring signature and range proof afresh. The hash
  must not collide on the texts hashed, the Borsh encodings must be injective and reject
  trailing bytes, and a non-contextual validation must be of a transaction with distinct key
  images.
\<close>

theorem validation_ignores_cache:
  assumes "env_ok env T" "list_all (request_ok T) rs"
  shows "validate_run env rs cache_new = map (request_reference env) rs"
  using assms cache_sound_new by (rule validate_run_reference)

section \<open>A concrete environment\<close>

definition demo_env :: "int crypto_env" where
  "demo_env = \<lparr>env_hash = (\<lambda>x. replicate 31 (x ! 9) @ [last x]), env_ser = (\<lambda>tx. [version tx]),
     decompress = (\<lambda>b. Some (int (unat (hd b)))), value_commitment = (\<lambda>v. replicate 32 (of_nat v)),
     clsag_verify = (\<lambda>m r p s. True),
     sig_to_bytes = (\<lambda>s. if s = \<lparr>sig_key_image = sig_key_image s, commitment_image = [], sig_c1 = [], responses = []\<rparr>
        then Some (sig_key_image s) else None),
     rp_from_bytes = (\<lambda>b. if length b = 1 then Some \<lparr>rp_version = 3, rp_data = b\<rparr> else None),
     rp_verify_v2 = (\<lambda>cs p. False), rp_verify_bp_plus = (\<lambda>cs p. True), spark_build = False,
     spark_borsh = (\<lambda>b. None), shielded_borsh = (\<lambda>b. None), shielded_encode = (\<lambda>p. []),
     spark_backend = stub_verify_spend\<rparr>"

definition demo_coin :: "u8 \<Rightarrow> nat \<Rightarrow> tx_output" where
  "demo_coin a v = \<lparr>stealth_address = replicate 32 a, tx_public_key = replicate 32 1, commitment = replicate 32 (of_nat v),
     encrypted_amount = replicate 8 0, view_tag = 0, lock_height = None, encrypted_memo = []\<rparr>"

definition demo_ring :: "ring_member_ref list" where
  "demo_ring = [\<lparr>rm_public_key = replicate 32 11, rm_commitment = replicate 32 4\<rparr>,
     \<lparr>rm_public_key = replicate 32 12, rm_commitment = replicate 32 5\<rparr>]"

definition demo_in :: "u8 \<Rightarrow> nat \<Rightarrow> tx_input" where
  "demo_in k v = \<lparr>key_image = replicate 32 k, ring_members = demo_ring,
     signature = \<lparr>sig_key_image = replicate 32 k, commitment_image = [], sig_c1 = [], responses = []\<rparr>,
     pseudo_output_commitment = replicate 32 (of_nat v)\<rparr>"

definition demo_spend :: transaction where
  "demo_spend = \<lparr>version = 1, tx_type = Transfer, inputs = [demo_in 1 4, demo_in 2 5],
     outputs = [demo_coin 13 3, demo_coin 14 1], fee = 5, range_proof = [3], extra = []\<rparr>"

definition demo_set :: utxo_set where
  "demo_set = add_output_ext [1] 1 (demo_coin 12 5) 1 False (add_output_ext [1] 0 (demo_coin 11 4) 1 False utxo_new)"

lemmas demo_simps = demo_env_def demo_spend_def demo_in_def demo_coin_def demo_ring_def

lemma demo_hash: "9 < length t \<Longrightarrow> env_hash demo_env (ascii t @ r) = replicate 31 (of_char (t ! 9)) @ [last (ascii t @ r)]"
  by (simp add: demo_env_def ascii_def nth_append)

lemma demo_hashes:
  "env_hash demo_env (tx_signing_data tx) = replicate 31 (of_char (CHR ''t'')) @ [last (tx_signing_data tx)]"
  "env_hash demo_env (ring_pre demo_env s) = replicate 31 (of_char (CHR ''R'')) @ [last (ring_pre demo_env s)]"
  "env_hash demo_env (range_pre tx) = replicate 31 (of_char (CHR ''P'')) @ [last (range_pre tx)]"
  "last (ring_pre demo_env (tx, demo_in k v)) = k"
  using demo_hash [of "''coincync/tx-sign/v1''"] demo_hash [of "''COINCYNC_RINGSIG_CACHE_v1''"]
    demo_hash [of "''COINCYNC_PROOF_CACHE_v1''"]
  by (simp_all add: tx_signing_data_def signing_data_def TX_SIGN_DOMAIN_TAG_def ring_pre_def ring_sig_preimage_def
      range_pre_def proof_preimage_def) (simp add: demo_env_def demo_in_def)

lemma demo_env_ok: "env_ok demo_env {demo_spend}"
proof -
  let ?texts = "[tx_signing_data demo_spend, ring_pre demo_env (demo_spend, demo_in 1 4),
    ring_pre demo_env (demo_spend, demo_in 2 5), range_pre demo_spend]"
  have "distinct [of_char (CHR ''t''), of_char (CHR ''R''), of_char (CHR ''P'') :: u8]" by (simp add: of_char_def)
  then have "distinct (map (env_hash demo_env) ?texts)" by (auto simp: demo_hashes)
  then have "inj_on (env_hash demo_env) (set ?texts)" by (simp only: distinct_map)
  moreover have "tx_signing_data ` {demo_spend} \<union> ring_pre demo_env ` (SIGMA tx:{demo_spend}. set (inputs tx)) \<union>
      range_pre ` {demo_spend} = set ?texts"
  proof -
    have "set (inputs demo_spend) = {demo_in 1 4, demo_in 2 5}" by (simp add: demo_spend_def)
    then have "(SIGMA tx:{demo_spend}. set (inputs tx)) = {(demo_spend, demo_in 1 4), (demo_spend, demo_in 2 5)}" by auto
    then show ?thesis by (simp only: image_insert image_empty list.set) blast
  qed
  ultimately have "collision_free (env_hash demo_env)
      (tx_signing_data ` {demo_spend} \<union> ring_pre demo_env ` (SIGMA tx:{demo_spend}. set (inputs tx)) \<union> range_pre ` {demo_spend})"
    by (simp only: collision_free_def)
  moreover have "wf_tx demo_spend"
    by (simp add: demo_simps wf_tx_def wf_output_def wf_siv_def wf_member_def from_txinput_def is32_def len_ok_def width_eqs)
  moreover have "sig_codec_ok demo_env" by (auto simp: demo_env_def sig_codec_ok_def split: if_splits)
  moreover have "strict_parser (rp_from_bytes demo_env)" by (auto simp: demo_env_def strict_parser_def split: if_splits)
  moreover have "\<forall>x. is32 (env_hash demo_env x)" by (simp add: demo_env_def is32_def)
  ultimately show ?thesis unfolding env_ok_def by blast
qed

lemma demo_set_lookups:
  "get_output_by_stealth (replicate 32 11) demo_set = Some \<lparr>or_tx_hash = [1], or_index = 0,
     or_output = demo_coin 11 4, or_height = 1, or_is_coinbase = False\<rparr>"
  "get_output_by_stealth (replicate 32 12) demo_set = Some \<lparr>or_tx_hash = [1], or_index = 1,
     or_output = demo_coin 12 5, or_height = 1, or_is_coinbase = False\<rparr>"
  "get_output_index_entry (replicate 32 13) demo_set = None" "get_output_index_entry (replicate 32 14) demo_set = None"
  "\<not> contains_key_image k demo_set" "available_outputs demo_set True = 2"
  by (simp_all add: demo_set_def add_output_ext_def utxo_new_def demo_coin_def or_insert_def Let_def as_u64_def width_eqs
      get_output_by_stealth_def get_output_def get_output_index_entry_def contains_key_image_def
      available_outputs_def sat_sub_def)

lemma demo_against_set: "h < 10000 \<Longrightarrow> check_tx_against_set Mainnet demo_spend demo_set h True = Inr ()"
  by (simp add: check_tx_against_set_def check_tx_ring_members_def check_tx_ring_size_and_unique_members_def
      check_input_ring_def demo_set_lookups demo_spend_def demo_in_def demo_ring_def key_images_def
      demo_coin_def [of 13] demo_coin_def [of 14] check_ring_member_def tx_checks effective_ring_size_def
      ring_size_at_height_def BOOTSTRAP_MIN_RING_SIZE_def) (simp add: demo_coin_def)

lemma demo_stateless: "h < 10000 \<Longrightarrow> check_tx_stateless demo_env demo_spend h True = Inr ()"
  by (simp add: check_tx_stateless_def tx_checks check_output_curve_points_def check_output_points_def check_point_def
      demo_simps zero32_def V2_TX_ACTIVATION_HEIGHT_def STANDARD_INPUT_COUNT_def STANDARD_OUTPUT_COUNT_def
      MAX_TX_INPUTS_def MAX_TX_OUTPUTS_def MAX_OUTPUT_MEMO_SIZE_def sat_mul64_def width_eqs)
    (simp add: word_le_nat_alt)

lemma demo_crypto:
  "check_tx_version_range demo_spend = Inr ()" "check_tx_ring_size_cap demo_spend = Inr ()"
  "ring_check demo_env demo_spend = Inr ()" "range_ok demo_env demo_spend"
  "check_tx_balance_proof demo_env demo_spend = Inr ()" "\<not> is_coinbase demo_spend" "\<not> is_shielded demo_spend"
  by (simp_all add: tx_checks demo_simps MAX_TX_VERSION_def MAX_RING_SIZE_def ring_check_def ring_ok_def
      ring_signature_valid_def ring_points_ok_def list_all_iff range_ok_def range_truth_def
      verify_range_proofs_dispatch_def RANGE_PROOF_VERSION_def RANGE_PROOF_VERSION_BP_PLUS_def
      BULLETPROOFS_PLUS_HEIGHT_def check_tx_balance_proof_def verify_balance_proof_def is_coinbase_def is_shielded_def)

lemma demo_accepted: "h < 10000 \<Longrightarrow> validate_reference demo_env demo_spend demo_set h Mainnet True = Inr ()"
  by (simp add: validate_reference_def demo_crypto demo_stateless demo_against_set)

theorem validation_ignores_cache_witness:
  "validate_run demo_env [(1, demo_spend, demo_set, 5, Mainnet, True), (2, demo_spend, demo_set, 6, Mainnet, True)]
     cache_new = [Inr (), Inr ()]"
  using validation_ignores_cache [OF demo_env_ok, of "[(1, demo_spend, demo_set, 5, Mainnet, True),
      (2, demo_spend, demo_set, 6, Mainnet, True)]"]
  by (simp add: request_ok_def request_reference_def demo_accepted)

section \<open>What acceptance means\<close>



section \<open>What the balance equations decide\<close>

text \<open>
  A Pedersen commitment to the amount \<open>v\<close> with blinding \<open>r\<close> is \<open>com v r\<close>; the only law
  used is that commitments add.
\<close>

definition additive :: "(int \<Rightarrow> int \<Rightarrow> 'g::ab_group_add) \<Rightarrow> bool" where
  "additive com \<longleftrightarrow> (\<forall>v r w s. com (v + w) (r + s) = com v r + com w s)"

definition opened :: "'g crypto_env \<Rightarrow> (int \<Rightarrow> int \<Rightarrow> 'g) \<Rightarrow> bytes list \<Rightarrow> (int \<times> int) list \<Rightarrow> bool" where
  "opened env com bs os \<longleftrightarrow> map (decompress env) bs = map (\<lambda>(v, r). Some (com v r)) os"

definition amounts :: "(int \<times> int) list \<Rightarrow> int" where "amounts os = sum_list (map fst os)"
definition blindings :: "(int \<times> int) list \<Rightarrow> int" where "blindings os = sum_list (map snd os)"

lemma additive_laws:
  assumes "additive com"
  shows "com 0 0 = 0" "com (v - w) (r - s) = com v r - com w s"
proof -
  have "com 0 0 = com 0 0 + com 0 0" using assms unfolding additive_def by (metis add_0)
  then show "com 0 0 = 0" by simp
  have "com v r = com (v - w) (r - s) + com w s" using assms unfolding additive_def by (metis diff_add_cancel)
  then show "com (v - w) (r - s) = com v r - com w s" by simp
qed

lemma opened_sum:
  assumes "additive com" "opened env com bs os"
  shows "sum_points env rej bs acc = (if rej \<and> list_ex (\<lambda>(v, r). com v r = 0) os then None
    else Some (acc + com (amounts os) (blindings os)))"
  using assms(2)
proof (induction bs arbitrary: os acc)
  case Nil
  then show ?case by (simp add: opened_def amounts_def blindings_def additive_laws [OF assms(1)])
next
  case (Cons b bs)
  then obtain v r os' where os: "os = (v, r) # os'" "decompress env b = Some (com v r)" "opened env com bs os'"
    by (cases os) (auto simp: opened_def)
  have "com (amounts os) (blindings os) = com v r + com (amounts os') (blindings os')"
    using assms(1) os(1) by (simp add: amounts_def blindings_def additive_def)
  then show ?case using Cons.IH [OF os(3)] os(1,2) by (auto simp: add.assoc)
qed

definition value_commitment_ok :: "'g crypto_env \<Rightarrow> (int \<Rightarrow> int \<Rightarrow> 'g) \<Rightarrow> bool" where
  "value_commitment_ok env com \<longleftrightarrow> (\<forall>n \<le> u64_max. decompress env (value_commitment env n) = Some (com (int n) 0))"

text \<open>
  C20 (what the balance equations decide). For commitments with known openings, the balance
  proof of a transfer is accepted exactly when no pseudo output is the identity and the
  difference between the input amounts and the output amounts plus the fee, with the
  difference of the blindings, opens the identity. The bridge equation of a shielded
  transaction decides the same with the value balance added to the inputs. So inflation needs
  an opening of the identity to a nonzero amount.
\<close>

theorem balance_equations_decide:
  assumes "additive com" "value_commitment_ok env com" "fee tx \<le> u64_max" "\<bar>vb\<bar> \<le> int u64_max" "\<not> is_coinbase tx"
    and "inputs tx \<noteq> []" "outputs tx \<noteq> []"
    and ins: "opened env com (map pseudo_output_commitment (inputs tx)) vin"
    and outs: "opened env com (map commitment (outputs tx)) vout"
  shows "(verify_balance_proof env tx \<longleftrightarrow> list_all (\<lambda>(v, r). com v r \<noteq> 0) vin \<and>
       com (amounts vin - (amounts vout + int (fee tx))) (blindings vin - blindings vout) = 0) \<and>
    (verify_transparent_shielded_balance env (map pseudo_output_commitment (inputs tx))
        (map commitment (outputs tx)) (fee tx) vb = Inr () \<longleftrightarrow> list_all (\<lambda>(v, r). com v r \<noteq> 0) vin \<and>
       com (amounts vin + vb - (amounts vout + int (fee tx))) (blindings vin - blindings vout) = 0)"
proof -
  have f: "decompress env (value_commitment env (fee tx)) = Some (com (int (fee tx)) 0)"
    using assms(2,3) by (simp add: value_commitment_ok_def)
  have b: "decompress env (value_commitment env (nat \<bar>vb\<bar>)) = Some (com \<bar>vb\<bar> 0)"
    using assms(2,4) unfolding value_commitment_ok_def by (metis abs_ge_zero nat_0_le nat_le_iff)
  have add: "com v r + com w s = com (v + w) (r + s)" for v r w s using assms(1) by (simp add: additive_def)
  have ex: "list_ex (\<lambda>(v, r). com v r = 0) vin \<longleftrightarrow> \<not> list_all (\<lambda>(v, r). com v r \<noteq> 0) vin"
    by (auto simp: list_ex_iff list_all_iff)
  note minus = additive_laws(2) [OF assms(1)]
  have eq: "com v r = com w s \<longleftrightarrow> com (v - w) (r - s) = 0" for v r w s by (simp add: minus)
  have sub: "com v r - com w 0 = com (v - w) r" for v r w using minus [of v w r 0] by simp
  have e1: "verify_balance_proof env tx \<longleftrightarrow> list_all (\<lambda>(v, r). com v r \<noteq> 0) vin \<and>
      com (amounts vin) (blindings vin) = com (amounts vout + int (fee tx)) (blindings vout)"
    using assms(5-7) by (auto simp: verify_balance_proof_def opened_sum [OF assms(1) ins] opened_sum [OF assms(1) outs] f add ex)
  have e2: "verify_transparent_shielded_balance env (map pseudo_output_commitment (inputs tx))
        (map commitment (outputs tx)) (fee tx) vb = Inr () \<longleftrightarrow> list_all (\<lambda>(v, r). com v r \<noteq> 0) vin \<and>
      com (amounts vin) (blindings vin) = com (amounts vout + int (fee tx) - vb) (blindings vout)"
    by (auto simp: verify_transparent_shielded_balance_def opened_sum [OF assms(1) ins] opened_sum [OF assms(1) outs]
        f b add sub ex Let_def)
  show ?thesis unfolding e1 e2 eq by (simp add: algebra_simps)
qed

definition length_env :: "int crypto_env" where
  "length_env = demo_env\<lparr>value_commitment := (\<lambda>n. replicate n 0), decompress := (\<lambda>b. Some (int (length b)))\<rparr>"

theorem balance_equations_decide_witness:
  "opened length_env (\<lambda>v r. v) (map pseudo_output_commitment (inputs demo_spend)) [(32, 0), (32, 0)] \<and>
   \<not> verify_balance_proof length_env (demo_spend\<lparr>fee := 7\<rparr>) \<and>
   verify_transparent_shielded_balance length_env (map pseudo_output_commitment (inputs demo_spend))
     (map commitment (outputs demo_spend)) 7 7 = Inr ()"
proof -
  have o: "opened length_env (\<lambda>v r. v) (map pseudo_output_commitment (inputs demo_spend)) [(32, 0), (32, 0)]"
    "opened length_env (\<lambda>v r. v) (map commitment (outputs demo_spend)) [(32, 0), (32, 0)]"
    by (simp_all add: opened_def length_env_def demo_simps)
  have "additive (\<lambda>v r. v :: int)" "value_commitment_ok length_env (\<lambda>v r. v)"
    by (simp_all add: additive_def value_commitment_ok_def length_env_def)
  from balance_equations_decide [OF this, of "demo_spend\<lparr>fee := 7\<rparr>" 7 "[(32, 0), (32, 0)]" "[(32, 0), (32, 0)]"] o
  show ?thesis by (simp add: width_eqs amounts_def blindings_def) (simp add: demo_spend_def is_coinbase_def)
qed

section \<open>Acceptance and the privacy policy\<close>

text \<open>
  Where the all-zero string is the only encoding of the identity, what the curve-point checks
  accept satisfies the privacy policy of the block level too.
\<close>

lemma curve_points_hidden:
  assumes "\<forall>b. decompress env b = Some 0 \<longrightarrow> b = zero32" "check_output_curve_points env tx = Inr ()" "out \<in> set (outputs tx)"
  shows "point_hidden env (commitment out)" "point_hidden env (stealth_address out)"
proof -
  have "check_output_points env out = Inr ()" using assms(2,3) by (simp add: check_output_curve_points_def)
  then show "point_hidden env (commitment out)" "point_hidden env (stealth_address out)"
    using assms(1) by (auto simp: check_output_points_def check_point_def point_hidden_def)
qed

lemma accepted_transfer_private:
  assumes "\<forall>b. decompress env b = Some 0 \<longrightarrow> b = zero32" "\<not> is_coinbase tx"
    and "validate_reference env tx u h net contextual = Inr ()"
  shows "check_tx_privacy env tx = Inr ()"
proof (cases "is_shielded tx")
  case True
  then show ?thesis by (simp add: check_tx_privacy_def is_shielded_def)
next
  case False
  then have s: "check_tx_stateless env tx h (v1_0_12_rules_active net h) = Inr ()"
    using assms(2,3) by (simp add: validate_reference_def)
  then have "check_output_curve_points env tx = Inr ()" "inputs tx \<noteq> []"
    by (simp_all add: check_tx_stateless_def check_tx_input_output_counts_def)
  then show ?thesis using curve_points_hidden [OF assms(1)] by (auto simp: check_tx_privacy_def)
qed

end
