(* ===== verification/Block_Validation.thy ===== *)
theory Block_Validation
  imports Tx_Validation
begin

text \<open>
  Block validation: \<^verbatim>\<open>validate_block_ctx\<close> of \<^verbatim>\<open>src/consensus/validation.rs\<close> with the header,
  difficulty, coinbase and block-wide checks it composes. Checks that fail add an error to
  the \<open>block_validation\<close> record and go on; the early returns of the source are the branches
  that stop. The proof of work, the clock, the checkpoint table of the network and the build
  features are fields of \<open>block_env\<close>. Transactions are validated in order, sharing the cache.
\<close>

named_theorems block_checks \<open>what a valid record says of each check\<close>

section \<open>The result of a validation\<close>

record block_validation =
  bv_valid :: bool
  bv_errors :: "string list"
  bv_warnings :: "string list"
  bv_codes :: "string list"

definition bv_ok :: block_validation where
  "bv_ok = \<lparr>bv_valid = True, bv_errors = [], bv_warnings = [], bv_codes = []\<rparr>"

definition add_error :: "string \<Rightarrow> block_validation \<Rightarrow> block_validation" where
  "add_error msg r = r\<lparr>bv_errors := bv_errors r @ [msg], bv_valid := False\<rparr>"

definition add_warning :: "string \<Rightarrow> block_validation \<Rightarrow> block_validation" where
  "add_warning msg r = r\<lparr>bv_warnings := bv_warnings r @ [msg]\<rparr>"

definition add_error_coded :: "string \<Rightarrow> string \<Rightarrow> block_validation \<Rightarrow> block_validation" where
  "add_error_coded code msg r =
     r\<lparr>bv_errors := bv_errors r @ [msg], bv_codes := bv_codes r @ [code], bv_valid := False\<rparr>"

definition error_if :: "bool \<Rightarrow> string \<Rightarrow> block_validation \<Rightarrow> block_validation" where
  "error_if c msg r = (if c then add_error msg r else r)"

definition coded_if :: "bool \<Rightarrow> string \<Rightarrow> string \<Rightarrow> block_validation \<Rightarrow> block_validation" where
  "coded_if c code msg r = (if c then add_error_coded code msg r else r)"

section \<open>The environment\<close>

record 'g block_env =
  be_crypto :: "'g crypto_env"
  verify_pow :: "hash \<Rightarrow> nat \<Rightarrow> nat \<Rightarrow> nat \<Rightarrow> hash \<Rightarrow> hash \<Rightarrow> hash \<Rightarrow> u8 \<Rightarrow> hash \<Rightarrow> bool"
  consensus_checkpoints :: "network_type \<Rightarrow> (nat \<times> hash) list"
  insecure_fast_sync :: bool
  unix_now :: nat
  clock_overridden :: bool
  offset_secs :: int

section \<open>Header checks\<close>

definition check_header_version_min :: "block_header \<Rightarrow> block_validation \<Rightarrow> block_validation" where
  "check_header_version_min hdr r =
     error_if (MAX_BLOCK_VERSION < unat (hdr_version hdr)) ''Block version exceeds maximum recognized version''
      (error_if (unat (hdr_version hdr) < block_version_at_height (height hdr)) ''Block version below minimum'' r)"

definition check_header_vs_prev ::
  "(bytes \<Rightarrow> hash) \<Rightarrow> block_header \<Rightarrow> block_header option \<Rightarrow> block_validation \<Rightarrow> block_validation" where
  "check_header_vs_prev H hdr prev_header r = (case prev_header of
       None \<Rightarrow> error_if (height hdr \<noteq> 0) ''Non-genesis block without parent'' r
     | Some prev \<Rightarrow>
         coded_if (timestamp hdr \<le> timestamp prev) ''CYNC_CONS_005'' ''Timestamp not greater than previous block''
          (error_if (prev_hash hdr \<noteq> header_hash H prev) ''Previous hash mismatch''
           (error_if (height hdr \<noteq> height_add (height prev) 1) ''Invalid height''
            (error_if (hdr_version hdr < hdr_version prev) ''Block version cannot decrease'' r))))"

definition check_header_checkpoint_vote :: "block_header \<Rightarrow> block_validation \<Rightarrow> block_validation" where
  "check_header_checkpoint_vote hdr r = (case checkpoint_vote hdr of
       Some (vote_height, _) \<Rightarrow> error_if (height hdr \<le> vote_height) ''checkpoint_vote references future height'' r
     | None \<Rightarrow> r)"

definition MIN_REASONABLE_TIME :: nat where "MIN_REASONABLE_TIME = 1577836800"

definition check_header_future_timestamp :: "'g block_env \<Rightarrow> block_header \<Rightarrow> block_validation \<Rightarrow> block_validation" where
  "check_header_future_timestamp be hdr r =
     (if unix_now be = 0 \<and> \<not> clock_overridden be
      then add_error ''System clock error: time is before the Unix epoch'' r
      else let r = (if unix_now be < MIN_REASONABLE_TIME
                    then add_warning ''System clock appears to be set incorrectly (before 2020)'' r else r);
               current_time = nat (max (int (unix_now be) + offset_secs be) 0) in
        coded_if (0 < height hdr \<and> as_u64 (current_time + MAX_TIMESTAMP_DRIFT) < timestamp hdr)
          ''CYNC_CONS_004'' ''Block timestamp too far in future'' r)"

definition validate_header ::
  "'g block_env \<Rightarrow> block_header \<Rightarrow> block_header option \<Rightarrow> block_validation \<Rightarrow> block_validation" where
  "validate_header be hdr prev_header r =
     check_header_future_timestamp be hdr (check_header_checkpoint_vote hdr
       (check_header_vs_prev (env_hash (be_crypto be)) hdr prev_header (check_header_version_min hdr r)))"

section \<open>The difficulty target\<close>

definition raw_target_to_u128 :: "hash \<Rightarrow> nat" where
  "raw_target_to_u128 b = from_be_bytes (take 16 b)"

definition target_ratio :: "nat \<Rightarrow> nat \<Rightarrow> nat" where
  "target_ratio target_value prev_value =
     (if u128_max div 1000 < target_value
      then (target_value div 2 ^ 10 * 1000) div max (prev_value div 2 ^ 10) 1
      else (target_value * 1000) div prev_value)"

definition validate_difficulty_target :: "block \<Rightarrow> block option \<Rightarrow> block_validation \<Rightarrow> block_validation" where
  "validate_difficulty_target b prev_block r =
     (let tgt = target (header b); target_value = raw_target_to_u128 tgt in
      if raw_target_to_u128 max_target < target_value
      then add_error_coded ''CYNC_POW_001'' ''Target easier than max_target (minimum difficulty)'' r
      else if list_all (\<lambda>x. x = 0) tgt
      then add_error_coded ''CYNC_POW_001'' ''Target is zero (impossible difficulty)'' r
      else case prev_block of
          None \<Rightarrow> r
        | Some prev \<Rightarrow>
            let prev_value = raw_target_to_u128 (target (header prev)) in
            if 0 < prev_value \<and> 0 < target_value
            then let ratio_scaled = target_ratio target_value prev_value;
                     time_diff = saturating_secs_since (timestamp (header b)) (timestamp (header prev));
                     (min_ratio, max_ratio) = (if TARGET_BLOCK_TIME * 5 \<le> time_diff then (4, 256000) else (31, 32000)) in
              error_if (ratio_scaled < min_ratio \<or> max_ratio < ratio_scaled) ''Difficulty adjustment out of bounds'' r
            else r)"

section \<open>Block-wide checks\<close>

definition check_block_network_magic :: "block \<Rightarrow> network_type \<Rightarrow> block_validation \<Rightarrow> bool \<times> block_validation" where
  "check_block_network_magic b net r =
     (if network_magic (header b) = [0, 0, 0, 0] \<and> block_height b = 0 then (True, r)
      else if network_magic (header b) \<noteq> magic_bytes net then (False, add_error ''Wrong network magic'' r)
      else (True, r))"

definition check_block_consensus_checkpoint ::
  "'g block_env \<Rightarrow> network_type \<Rightarrow> block \<Rightarrow> block_validation \<Rightarrow> bool \<times> block_validation" where
  "check_block_consensus_checkpoint be net b r = (case expected_checkpoint_hash (consensus_checkpoints be net) (block_height b) of
       Some expected_hash \<Rightarrow>
         if block_hash (env_hash (be_crypto be)) b \<noteq> expected_hash
         then (False, add_error ''consensus checkpoint mismatch'' r) else (True, r)
     | None \<Rightarrow> (True, r))"

definition check_block_size :: "nat \<Rightarrow> block_validation \<Rightarrow> block_validation" where
  "check_block_size sz r = error_if (MAX_BLOCK_SIZE < sz) ''Block too large'' r"

definition RING_SIG_WEIGHT :: nat where "RING_SIG_WEIGHT = 256"
definition MAX_BLOCK_WEIGHT :: nat where "MAX_BLOCK_WEIGHT = MAX_BLOCK_SIZE * 4"

definition block_weight :: "tx_codec \<Rightarrow> block \<Rightarrow> nat" where
  "block_weight ser b = sum_list (map (\<lambda>tx. tx_size ser tx +
     sum_list (map (\<lambda>i. length (ring_members i)) (inputs tx)) * RING_SIG_WEIGHT) (transactions b))"

definition check_block_weight :: "tx_codec \<Rightarrow> block \<Rightarrow> block_validation \<Rightarrow> block_validation" where
  "check_block_weight ser b r = error_if (MAX_BLOCK_WEIGHT < block_weight ser b) ''Block weight too high'' r"

definition check_block_tx_count :: "block \<Rightarrow> block_validation \<Rightarrow> block_validation" where
  "check_block_tx_count b r = error_if (MAX_TXS_PER_BLOCK < length (transactions b)) ''Too many transactions'' r"

definition check_block_has_coinbase :: "block \<Rightarrow> block_validation \<Rightarrow> bool \<times> block_validation" where
  "check_block_has_coinbase b r =
     (if transactions b = [] then (False, add_error ''Missing coinbase transaction'' r) else (True, r))"

definition check_block_first_tx_is_coinbase :: "block \<Rightarrow> block_validation \<Rightarrow> block_validation" where
  "check_block_first_tx_is_coinbase b r = (case transactions b of
       [] \<Rightarrow> add_error ''Block has no transactions'' r
     | tx # _ \<Rightarrow> error_if (\<not> is_coinbase tx) ''First transaction must be coinbase'' r)"

definition check_block_merkle_root :: "(bytes \<Rightarrow> hash) \<Rightarrow> block \<Rightarrow> hash list \<Rightarrow> block_validation \<Rightarrow> block_validation" where
  "check_block_merkle_root H b tx_hashes r =
     error_if (merkle_root H tx_hashes \<noteq> tx_root (header b)) ''Invalid merkle root'' r"

definition check_block_privacy_policy :: "'g::ab_group_add crypto_env \<Rightarrow> block \<Rightarrow> block_validation \<Rightarrow> block_validation" where
  "check_block_privacy_policy env b r =
     error_if (enforce_privacy_policy env b \<noteq> Inr ()) ''Privacy policy violation'' r"

definition check_block_tail_supply :: "amount \<Rightarrow> block_validation \<Rightarrow> block_validation" where
  "check_block_tail_supply expected_reward r =
     coded_if (calculate_block_reward 0 < expected_reward) ''CYNC_EMIT_001'' ''Emission reward exceeds the height-0 maximum''
      (error_if (expected_reward < TAIL_EMISSION) ''Emission reward below tail floor'' r)"

text \<open>One error for every element that occurred before.\<close>

fun repeat_errors :: "(block_validation \<Rightarrow> block_validation) \<Rightarrow> 'a set \<Rightarrow> 'a list \<Rightarrow> block_validation \<Rightarrow> block_validation" where
  "repeat_errors err seen [] r = r"
| "repeat_errors err seen (x # xs) r =
     (if x \<in> seen then repeat_errors err seen xs (err r) else repeat_errors err (insert x seen) xs r)"

definition check_block_duplicate_tx_hashes :: "hash list \<Rightarrow> block_validation \<Rightarrow> block_validation" where
  "check_block_duplicate_tx_hashes tx_hashes r =
     repeat_errors (add_error ''Duplicate transaction hash in block'') {} tx_hashes r"

definition check_block_duplicate_key_images :: "block \<Rightarrow> block_validation \<Rightarrow> block_validation" where
  "check_block_duplicate_key_images b r =
     repeat_errors (add_error_coded ''CYNC_CONS_002'' ''Duplicate key image in block'') {}
       (concat (map key_images (transactions b))) r"

definition check_block_output_addresses :: "block \<Rightarrow> block_validation \<Rightarrow> block_validation" where
  "check_block_output_addresses b r =
     repeat_errors (add_error ''Cross-tx duplicate stealth address in block'') {}
       (concat (map (\<lambda>tx. map stealth_address (outputs tx)) (transactions b))) r"

section \<open>The coinbase\<close>

definition block_congestion_pct :: "nat \<Rightarrow> nat" where
  "block_congestion_pct sz = as_u64 (as_u128 (sz * 100) div MAX_BLOCK_SIZE)"

definition max_coinbase :: "network_type \<Rightarrow> nat \<Rightarrow> nat \<Rightarrow> amount \<Rightarrow> amount \<Rightarrow> amount result" where
  "max_coinbase net h sz expected_reward fees =
     (if fee_distribution_height net \<le> h \<and> 0 < fees
      then amount_checked_add expected_reward
        (to_miner (distribute_fee fees (CONGESTION_THRESHOLD \<le> block_congestion_pct sz)))
      else amount_checked_add expected_reward fees)"

definition MAX_COINBASE_OUTPUTS :: nat where "MAX_COINBASE_OUTPUTS = 16"

definition check_coinbase_shape :: "transaction \<Rightarrow> amount \<Rightarrow> block_validation \<Rightarrow> block_validation" where
  "check_coinbase_shape cb max_cb r =
     error_if (1 < length (outputs cb) \<and> max_cb < sat_mul64 MIN_OUTPUT_AMOUNT (length (outputs cb)))
         ''Coinbase splits into outputs but reward is too small''
      (error_if (MAX_COINBASE_OUTPUTS < length (outputs cb)) ''Coinbase has too many outputs''
       (error_if (inputs cb \<noteq> [] \<and> \<not> is_coinbase cb) ''Coinbase transaction has invalid inputs''
        (error_if (outputs cb = []) ''Coinbase has no outputs'' r)))"

definition coinbase_length_ok :: "bool \<Rightarrow> tx_output \<Rightarrow> bool" where
  "coinbase_length_ok v1_0_12_active out =
     (if v1_0_12_active then length (encrypted_amount out) = 8 else 8 \<le> length (encrypted_amount out))"

definition declared_amount :: "tx_output \<Rightarrow> amount" where
  "declared_amount out = from_le_bytes (take 8 (encrypted_amount out))"

definition check_coinbase_commitment ::
  "'g::ab_group_add crypto_env \<Rightarrow> tx_output \<Rightarrow> bool \<times> block_validation \<Rightarrow> bool \<times> block_validation" where
  "check_coinbase_commitment env out st =
     (let (all_valid, r) = st;
          (all_valid, r) = (if commitment out \<noteq> value_commitment env (declared_amount out)
            then (False, add_error ''Coinbase output commitment mismatch'' r) else (all_valid, r)) in
      case decompress env (commitment out) of
        None \<Rightarrow> (False, add_error ''Coinbase output has invalid commitment (not on curve)'' r)
      | Some p \<Rightarrow> if p = 0 then (False, add_error ''Coinbase output has zero commitment (identity point)'' r)
          else (all_valid, r))"

fun check_coinbase_outputs ::
  "'g::ab_group_add crypto_env \<Rightarrow> bool \<Rightarrow> tx_output list \<Rightarrow> amount \<Rightarrow> bool \<times> block_validation \<Rightarrow>
   amount \<times> bool \<times> block_validation" where
  "check_coinbase_outputs env active [] total_declared st = (total_declared, st)"
| "check_coinbase_outputs env active (out # outs) total_declared st =
     (if \<not> coinbase_length_ok active out
      then check_coinbase_outputs env active outs total_declared
             (False, add_error ''Coinbase output has invalid amount encoding'' (snd st))
      else let st = check_coinbase_commitment env out st in
        case checked_add64 total_declared (declared_amount out) of
          Some next_total \<Rightarrow> check_coinbase_outputs env active outs next_total st
        | None \<Rightarrow> (total_declared, False, add_error ''Coinbase output sum overflow'' (snd st)))"

definition check_coinbase_amounts ::
  "'g::ab_group_add crypto_env \<Rightarrow> bool \<Rightarrow> transaction \<Rightarrow> amount \<Rightarrow> block_validation \<Rightarrow> block_validation" where
  "check_coinbase_amounts env active cb max_cb r =
     (let (total_declared, all_valid, r) = check_coinbase_outputs env active (outputs cb) 0 (True, r) in
      error_if (all_valid \<and> total_declared \<noteq> max_cb) ''Coinbase total does not match expected'' r)"

section \<open>The whole block\<close>

definition dynamic_min_fee :: "nat \<Rightarrow> nat \<Rightarrow> nat option" where
  "dynamic_min_fee multiplier_x100 sz = (case checked_mul64 sz MIN_FEE_PER_BYTE of
       None \<Rightarrow> None
     | Some v \<Rightarrow> map_option (\<lambda>w. w div 100) (checked_mul64 v multiplier_x100))"

fun check_dynamic_fees :: "tx_codec \<Rightarrow> nat \<Rightarrow> transaction list \<Rightarrow> block_validation \<Rightarrow> block_validation" where
  "check_dynamic_fees ser multiplier_x100 [] r = r"
| "check_dynamic_fees ser multiplier_x100 (tx # txs) r =
     check_dynamic_fees ser multiplier_x100 txs
       (case dynamic_min_fee multiplier_x100 (as_u64 (tx_size ser tx)) of
          None \<Rightarrow> add_error ''Transaction fee calculation overflow'' r
        | Some dynamic_min \<Rightarrow> error_if (fee tx < dynamic_min) ''Transaction fee too low for congestion'' r)"

fun check_no_coinbase :: "transaction list \<Rightarrow> block_validation \<Rightarrow> block_validation" where
  "check_no_coinbase [] r = r"
| "check_no_coinbase (tx # txs) r =
     check_no_coinbase txs (error_if (is_coinbase tx) ''Invalid transaction: Multiple coinbase transactions'' r)"

fun check_block_txs ::
  "'g::ab_group_add crypto_env \<Rightarrow> nat \<Rightarrow> utxo_set \<Rightarrow> nat \<Rightarrow> network_type \<Rightarrow> bool \<Rightarrow> transaction list \<Rightarrow>
   verification_cache \<Rightarrow> block_validation \<Rightarrow> block_validation \<times> verification_cache" where
  "check_block_txs env now u h net contextual [] c r = (r, c)"
| "check_block_txs env now u h net contextual (tx # txs) c r =
     (if is_coinbase tx
      then check_block_txs env now u h net contextual txs c
             (add_error ''Invalid transaction: Multiple coinbase transactions'' r)
      else let (v, c) = validate_transaction_for_network_ctx env now tx u h net contextual c in
        check_block_txs env now u h net contextual txs c (error_if (v \<noteq> Inr ()) ''Invalid transaction'' r))"

definition check_block_pow ::
  "'g block_env \<Rightarrow> bool \<Rightarrow> block \<Rightarrow> block option \<Rightarrow> block_validation \<Rightarrow> block_validation" where
  "check_block_pow be fast_sync b prev_block r =
     (if block_height b = 0 then r
      else case prev_block of
          None \<Rightarrow> add_error ''Cannot verify PoW without previous block'' r
        | Some prev \<Rightarrow>
            let H = env_hash (be_crypto be); hdr = header b;
                r = coded_if (\<not> fast_sync \<and> \<not> verify_pow be (header_hash H (header prev)) (height hdr) (timestamp hdr)
                      (nonce hdr) (tx_root hdr) (target hdr) (anchor hdr) (algorithm hdr) (pow_binding H hdr))
                    ''CYNC_CONS_001'' ''Proof of work validation error'' r in
            validate_difficulty_target b prev_block r)"

text \<open>The checks between the size limits and the coinbase.\<close>

definition check_block_structure :: "'g::ab_group_add block_env \<Rightarrow> block \<Rightarrow> block_validation \<Rightarrow> block_validation" where
  "check_block_structure be b r =
     (let env = be_crypto be in
      check_block_privacy_policy env b
       (check_block_merkle_root (env_hash env) b (map (tx_hash (env_hash env) (env_ser env)) (transactions b))
        (check_block_first_tx_is_coinbase b r)))"

definition check_block_limits :: "'g block_env \<Rightarrow> block \<Rightarrow> block_validation \<Rightarrow> block_validation" where
  "check_block_limits be b r =
     check_block_tx_count b (check_block_weight (env_ser (be_crypto be)) b
       (check_block_size (block_size (env_ser (be_crypto be)) b) r))"

definition block_duplicates :: "'g block_env \<Rightarrow> bool \<Rightarrow> block \<Rightarrow> block_validation \<Rightarrow> block_validation" where
  "block_duplicates be active b r =
     (let env = be_crypto be;
          r = check_block_duplicate_key_images b (check_block_duplicate_tx_hashes
                (map (tx_hash (env_hash env) (env_ser env)) (transactions b)) r) in
      if active then check_block_output_addresses b r else r)"

definition check_block_coinbase ::
  "'g::ab_group_add block_env \<Rightarrow> network_type \<Rightarrow> bool \<Rightarrow> block \<Rightarrow> amount \<Rightarrow> block_validation \<Rightarrow> block_validation" where
  "check_block_coinbase be net fast_sync b max_cb r = (case coinbase b of
       None \<Rightarrow> r
     | Some cb \<Rightarrow>
         let r = check_coinbase_shape cb max_cb r in
         if 0 < block_height b \<and> \<not> fast_sync
         then check_coinbase_amounts (be_crypto be) (v1_0_12_rules_active net (block_height b)) cb max_cb r
         else r)"

definition check_block_fees :: "'g block_env \<Rightarrow> bool \<Rightarrow> block \<Rightarrow> block_validation \<Rightarrow> block_validation" where
  "check_block_fees be fast_sync b r =
     (if 0 < block_height b \<and> \<not> fast_sync
      then let ser = env_ser (be_crypto be) in
        check_dynamic_fees ser (congestion_multiplier (block_congestion_pct (block_size ser b)))
          (non_coinbase_transactions b) r
      else r)"

definition validate_block_body ::
  "'g::ab_group_add block_env \<Rightarrow> nat \<Rightarrow> block \<Rightarrow> utxo_set \<Rightarrow> bool \<Rightarrow> network_type \<Rightarrow> bool \<Rightarrow>
   verification_cache \<Rightarrow> block_validation \<Rightarrow> block_validation \<times> verification_cache" where
  "validate_block_body be now b u fast_sync net contextual c r =
     (let h = block_height b; expected_reward = calculate_block_reward h in
      case max_coinbase net h (block_size (env_ser (be_crypto be)) b) expected_reward (block_total_fees b) of
        Inl _ \<Rightarrow> (add_error ''Coinbase max overflow'' r, c)
      | Inr max_cb \<Rightarrow>
          let r = block_duplicates be (v1_0_12_rules_active net h) b
                    (check_block_coinbase be net fast_sync b max_cb (check_block_tail_supply expected_reward r)) in
          if \<not> bv_valid r then (r, c)
          else let r = check_block_fees be fast_sync b r in
            if fast_sync then (check_no_coinbase (non_coinbase_transactions b) r, c)
            else check_block_txs (be_crypto be) now u h net contextual (non_coinbase_transactions b) c r)"

definition validate_block_ctx ::
  "'g::ab_group_add block_env \<Rightarrow> nat \<Rightarrow> block \<Rightarrow> block option \<Rightarrow> utxo_set \<Rightarrow> nat option \<Rightarrow> network_type \<Rightarrow> bool \<Rightarrow>
   verification_cache \<Rightarrow> block_validation \<times> verification_cache" where
  "validate_block_ctx be now b prev_block u checkpoint_height net contextual c =
     (let (ok, r) = check_block_network_magic b net bv_ok in
      if \<not> ok then (r, c)
      else let (ok, r) = check_block_consensus_checkpoint be net b r in
      if \<not> ok then (r, c)
      else let fast_sync_requested = (case checkpoint_height of Some cp \<Rightarrow> block_height b \<le> cp | None \<Rightarrow> False);
               fast_sync = (fast_sync_requested \<and> insecure_fast_sync be);
               r = validate_header be (header b) (map_option header prev_block) r in
      if \<not> shielded_root_permitted (spark_build (be_crypto be)) (spark_set_root (header b)) net (block_height b)
      then (add_error ''spark_set_root must be zero while shielded transactions are inactive'' r, c)
      else let r = check_block_limits be b (check_block_pow be fast_sync b prev_block r);
               (ok, r) = check_block_has_coinbase b r in
      if \<not> ok then (r, c)
      else validate_block_body be now b u fast_sync net contextual c (check_block_structure be b r))"

definition validate_block_with_checkpoint_for_network ::
  "'g::ab_group_add block_env \<Rightarrow> nat \<Rightarrow> block \<Rightarrow> block option \<Rightarrow> utxo_set \<Rightarrow> nat option \<Rightarrow> network_type \<Rightarrow>
   verification_cache \<Rightarrow> block_validation \<times> verification_cache" where
  "validate_block_with_checkpoint_for_network be now b prev_block u checkpoint_height net c =
     validate_block_ctx be now b prev_block u checkpoint_height net True c"

definition validate_block_with_checkpoint ::
  "bool \<Rightarrow> 'g::ab_group_add block_env \<Rightarrow> nat \<Rightarrow> block \<Rightarrow> block option \<Rightarrow> utxo_set \<Rightarrow> nat option \<Rightarrow>
   verification_cache \<Rightarrow> block_validation \<times> verification_cache" where
  "validate_block_with_checkpoint testnet_build be now b prev_block u checkpoint_height c =
     validate_block_with_checkpoint_for_network be now b prev_block u checkpoint_height
       (if testnet_build then Testnet else Mainnet) c"

definition validate_block ::
  "bool \<Rightarrow> 'g::ab_group_add block_env \<Rightarrow> nat \<Rightarrow> block \<Rightarrow> block option \<Rightarrow> utxo_set \<Rightarrow>
   verification_cache \<Rightarrow> block_validation \<times> verification_cache" where
  "validate_block testnet_build be now b prev_block u c =
     validate_block_with_checkpoint testnet_build be now b prev_block u None c"

section \<open>When the record stays valid\<close>

lemma valid_simps [simp, block_checks]:
  "bv_valid bv_ok" "\<not> bv_valid (add_error m r)" "\<not> bv_valid (add_error_coded k m r)"
  "bv_valid (add_warning m r) \<longleftrightarrow> bv_valid r"
  "bv_valid (error_if b m r) \<longleftrightarrow> \<not> b \<and> bv_valid r" "bv_valid (coded_if b k m r) \<longleftrightarrow> \<not> b \<and> bv_valid r"
  by (simp_all add: bv_ok_def add_error_def add_error_coded_def add_warning_def error_if_def coded_if_def)

lemma repeat_errors_valid [block_checks]:
  assumes "\<And>r. \<not> bv_valid (err r)"
  shows "bv_valid (repeat_errors err seen xs r) \<longleftrightarrow> bv_valid r \<and> distinct xs \<and> set xs \<inter> seen = {}"
proof (induction xs arbitrary: seen r)
  case (Cons x xs)
  show ?case using assms [of r] by (auto simp: Cons.IH)
qed simp

lemma block_duplicates_valid [block_checks]:
  "bv_valid (block_duplicates be active b r) \<longleftrightarrow> bv_valid r \<and>
     distinct (map (tx_hash (env_hash (be_crypto be)) (env_ser (be_crypto be))) (transactions b)) \<and>
     distinct (concat (map key_images (transactions b))) \<and>
     (active \<longrightarrow> distinct (concat (map (\<lambda>tx. map stealth_address (outputs tx)) (transactions b))))"
  by (auto simp: block_duplicates_def Let_def check_block_duplicate_key_images_def check_block_duplicate_tx_hashes_def
      check_block_output_addresses_def repeat_errors_valid)

lemma check_block_structure_valid [block_checks]:
  "bv_valid (check_block_structure be b r) \<longleftrightarrow> bv_valid r \<and> transactions b \<noteq> [] \<and> is_coinbase (hd (transactions b)) \<and>
     merkle_root (env_hash (be_crypto be)) (map (tx_hash (env_hash (be_crypto be)) (env_ser (be_crypto be))) (transactions b))
       = tx_root (header b) \<and>
     enforce_privacy_policy (be_crypto be) b = Inr ()"
  by (cases "transactions b") (auto simp: check_block_structure_def Let_def check_block_privacy_policy_def
      check_block_merkle_root_def check_block_first_tx_is_coinbase_def)

lemma check_block_limits_valid [block_checks]:
  "bv_valid (check_block_limits be b r) \<longleftrightarrow> bv_valid r \<and> length (transactions b) \<le> MAX_TXS_PER_BLOCK \<and>
     block_weight (env_ser (be_crypto be)) b \<le> MAX_BLOCK_WEIGHT \<and> block_size (env_ser (be_crypto be)) b \<le> MAX_BLOCK_SIZE"
  by (auto simp: check_block_limits_def check_block_tx_count_def check_block_weight_def check_block_size_def)

lemma check_block_tail_supply_valid [block_checks]:
  "bv_valid (check_block_tail_supply v r) \<longleftrightarrow> bv_valid r \<and> TAIL_EMISSION \<le> v \<and> v \<le> calculate_block_reward 0"
  by (auto simp: check_block_tail_supply_def)

lemma check_coinbase_shape_valid [block_checks]:
  "bv_valid (check_coinbase_shape cb m r) \<longleftrightarrow> bv_valid r \<and> outputs cb \<noteq> [] \<and> length (outputs cb) \<le> 16 \<and>
     (inputs cb = [] \<or> is_coinbase cb) \<and>
     (1 < length (outputs cb) \<longrightarrow> sat_mul64 MIN_OUTPUT_AMOUNT (length (outputs cb)) \<le> m)"
  by (auto simp: check_coinbase_shape_def MAX_COINBASE_OUTPUTS_def)

definition coinbase_output_ok :: "'g::ab_group_add crypto_env \<Rightarrow> bool \<Rightarrow> tx_output \<Rightarrow> bool" where
  "coinbase_output_ok env active out \<longleftrightarrow> coinbase_length_ok active out \<and>
     commitment out = value_commitment env (declared_amount out) \<and> point_hidden env (commitment out)"

lemma check_coinbase_commitment_valid:
  "bv_valid (snd (check_coinbase_commitment env out st)) \<longleftrightarrow> bv_valid (snd st) \<and>
     commitment out = value_commitment env (declared_amount out) \<and> point_hidden env (commitment out)"
  "bv_valid (snd (check_coinbase_commitment env out st)) \<Longrightarrow> check_coinbase_commitment env out st = st"
  by (cases st; auto simp: check_coinbase_commitment_def Let_def point_hidden_def split: option.split)+

lemma check_coinbase_outputs_invalid:
  "\<not> bv_valid (snd st) \<Longrightarrow> \<not> bv_valid (snd (snd (check_coinbase_outputs env active outs t st)))"
  by (induction outs arbitrary: t st)
    (auto simp: Let_def check_coinbase_commitment_valid split: option.split)

lemma check_coinbase_outputs_valid:
  assumes "bv_valid (snd (snd (check_coinbase_outputs env active outs t st)))" "t \<le> u64_max"
  shows "check_coinbase_outputs env active outs t st = (t + sum_list (map declared_amount outs), st) \<and>
    t + sum_list (map declared_amount outs) \<le> u64_max \<and> list_all (coinbase_output_ok env active) outs"
  using assms
proof (induction outs arbitrary: t)
  case (Cons out outs)
  let ?st = "check_coinbase_commitment env out st"
  have len: "coinbase_length_ok active out"
  proof (rule ccontr)
    assume "\<not> coinbase_length_ok active out"
    then show False
      using Cons.prems(1) check_coinbase_outputs_invalid
        [of "(False, add_error ''Coinbase output has invalid amount encoding'' (snd st))" env active outs t] by simp
  qed
  show ?case
  proof (cases "checked_add64 t (declared_amount out)")
    case None
    then show ?thesis using Cons.prems len by (simp add: Let_def)
  next
    case (Some n)
    then have n: "n = t + declared_amount out" "n \<le> u64_max" by (auto simp: checked_add64_def split: if_splits)
    have eq: "check_coinbase_outputs env active (out # outs) t st = check_coinbase_outputs env active outs n ?st"
      using len Some by (simp add: Let_def)
    then have v: "bv_valid (snd ?st)" using Cons.prems(1) check_coinbase_outputs_invalid by fastforce
    then have st: "?st = st" by (rule check_coinbase_commitment_valid)
    have cm: "commitment out = value_commitment env (declared_amount out)" "point_hidden env (commitment out)"
      using v check_coinbase_commitment_valid(1) [of env out st] by blast+
    have "bv_valid (snd (snd (check_coinbase_outputs env active outs n st)))" using Cons.prems(1) eq st by simp
    from Cons.IH [OF this n(2)] show ?thesis
      using eq st n cm len by (simp add: coinbase_output_ok_def add.assoc)
  qed
qed simp

lemma check_coinbase_amounts_valid:
  assumes "bv_valid (check_coinbase_amounts env active cb m r)"
  shows "bv_valid r \<and> sum_list (map declared_amount (outputs cb)) = m \<and> list_all (coinbase_output_ok env active) (outputs cb)"
proof -
  have "bv_valid (snd (snd (check_coinbase_outputs env active (outputs cb) 0 (True, r))))"
    using assms by (simp add: check_coinbase_amounts_def split_beta Let_def)
  from check_coinbase_outputs_valid [OF this] show ?thesis
    using assms \<open>bv_valid (snd (snd _))\<close> by (simp add: check_coinbase_amounts_def)
qed

lemma check_dynamic_fees_valid: "bv_valid (check_dynamic_fees ser m txs r) \<Longrightarrow> bv_valid r"
  by (induction txs arbitrary: r) (fastforce split: option.splits)+

lemma check_no_coinbase_valid:
  "bv_valid (check_no_coinbase txs r) \<longleftrightarrow> bv_valid r \<and> list_all (\<lambda>tx. \<not> is_coinbase tx) txs"
  by (induction txs arbitrary: r) auto

lemma check_block_txs_correct:
  assumes "env_ok env T" "set txs \<subseteq> T" "cache_sound env T c" "contextual \<or> list_all (\<lambda>tx. distinct (key_images tx)) txs"
  shows "(bv_valid (fst (check_block_txs env now u h net contextual txs c r)) \<longleftrightarrow> bv_valid r \<and>
      list_all (\<lambda>tx. \<not> is_coinbase tx \<and> validate_reference env tx u h net contextual = Inr ()) txs) \<and>
    cache_sound env T (snd (check_block_txs env now u h net contextual txs c r))"
  using assms(2-4)
proof (induction txs arbitrary: c r)
  case (Cons tx txs)
  let ?v = "validate_transaction_for_network_ctx env now tx u h net contextual c"
  have "contextual \<or> distinct (key_images tx)" "tx \<in> T" using Cons.prems by auto
  then have v: "fst ?v = validate_reference env tx u h net contextual" "cache_sound env T (snd ?v)"
    using implements_validate [OF assms(1)] Cons.prems(2) unfolding implements_def by blast+
  have p: "set txs \<subseteq> T" "contextual \<or> list_all (\<lambda>tx. distinct (key_images tx)) txs" using Cons.prems by auto
  show ?case using Cons.IH [OF p(1) Cons.prems(2) p(2)] Cons.IH [OF p(1) v(2) p(2)] v(1)
    by (cases "is_coinbase tx") (auto simp: Let_def split_beta)
qed simp

section \<open>What an accepted block satisfies\<close>

lemma check_block_coinbase_valid:
  assumes "bv_valid (check_block_coinbase be net fast_sync b m r)" "coinbase b = Some cb"
  shows "bv_valid r \<and> outputs cb \<noteq> [] \<and> length (outputs cb) \<le> 16 \<and> (0 < block_height b \<and> \<not> fast_sync \<longrightarrow>
      sum_list (map declared_amount (outputs cb)) = m \<and>
      list_all (coinbase_output_ok (be_crypto be) (v1_0_12_rules_active net (block_height b))) (outputs cb))"
  using assms check_coinbase_amounts_valid
  by (fastforce simp: check_block_coinbase_def block_checks Let_def split: if_splits)

lemma check_block_fees_valid: "bv_valid (check_block_fees be fast_sync b r) \<Longrightarrow> bv_valid r"
  by (auto simp: check_block_fees_def Let_def dest: check_dynamic_fees_valid split: if_splits)

lemma check_block_txs_mono: "bv_valid (fst (check_block_txs env now u h net contextual txs c r)) \<Longrightarrow> bv_valid r"
  by (induction txs arbitrary: c r) (fastforce simp: Let_def split_beta split: if_splits)+

text \<open>The facts about an accepted block, for a node that does not skip cryptography.\<close>

lemma validate_block_body_valid:
  assumes "bv_valid (fst (validate_block_body be now b u False net contextual c r))" "coinbase b = Some cb"
  obtains m r' where "max_coinbase net (block_height b) (block_size (env_ser (be_crypto be)) b)
        (calculate_block_reward (block_height b)) (block_total_fees b) = Inr m"
    "bv_valid r" "outputs cb \<noteq> []" "length (outputs cb) \<le> 16"
    "0 < block_height b \<Longrightarrow> sum_list (map declared_amount (outputs cb)) = m \<and>
       list_all (coinbase_output_ok (be_crypto be) (v1_0_12_rules_active net (block_height b))) (outputs cb)"
    "bv_valid (block_duplicates be (v1_0_12_rules_active net (block_height b)) b bv_ok)"
    "bv_valid (fst (check_block_txs (be_crypto be) now u (block_height b) net contextual
       (non_coinbase_transactions b) c r'))"
proof -
  obtain m where m: "max_coinbase net (block_height b) (block_size (env_ser (be_crypto be)) b)
        (calculate_block_reward (block_height b)) (block_total_fees b) = Inr m"
    using assms by (auto simp: validate_block_body_def Let_def split: sum.splits)
  define r1 where "r1 = check_block_tail_supply (calculate_block_reward (block_height b)) r"
  define r2 where "r2 = check_block_coinbase be net False b m r1"
  define r3 where "r3 = block_duplicates be (v1_0_12_rules_active net (block_height b)) b r2"
  have body: "validate_block_body be now b u False net contextual c r =
     (if \<not> bv_valid r3 then (r3, c)
      else check_block_txs (be_crypto be) now u (block_height b) net contextual (non_coinbase_transactions b) c
        (check_block_fees be False b r3))"
    unfolding validate_block_body_def Let_def m r3_def r2_def r1_def by simp
  have v3: "bv_valid r3" using assms(1) body by (auto split: if_splits)
  have dup: "bv_valid (block_duplicates be (v1_0_12_rules_active net (block_height b)) b bv_ok)" and "bv_valid r2"
    using v3 by (simp_all add: r3_def block_checks)
  note cb = check_block_coinbase_valid [OF \<open>bv_valid r2\<close> [unfolded r2_def] assms(2)]
  then have "bv_valid r" by (simp add: r1_def block_checks)
  moreover have "bv_valid (fst (check_block_txs (be_crypto be) now u (block_height b) net contextual
      (non_coinbase_transactions b) c (check_block_fees be False b r3)))"
    using assms(1) v3 by (simp add: body)
  ultimately show thesis using that [OF m] cb dup by blast
qed

lemma validate_difficulty_target_mono: "bv_valid (validate_difficulty_target b prev r) \<Longrightarrow> bv_valid r"
  by (auto simp: validate_difficulty_target_def Let_def split: option.splits if_splits)

lemma check_block_pow_mono: "bv_valid (check_block_pow be fast_sync b prev r) \<Longrightarrow> bv_valid r"
  by (auto simp: check_block_pow_def Let_def dest!: validate_difficulty_target_mono split: option.splits if_splits)

lemma check_block_network_magic_cases:
  "check_block_network_magic b net r = (True, r) \<or> (\<exists>m. check_block_network_magic b net r = (False, add_error m r))"
  by (auto simp: check_block_network_magic_def)

lemma check_block_consensus_checkpoint_cases:
  "check_block_consensus_checkpoint be net b r = (True, r) \<or>
   (\<exists>m. check_block_consensus_checkpoint be net b r = (False, add_error m r))"
  by (auto simp: check_block_consensus_checkpoint_def split: option.split)

lemma coinbase_Some: "transactions b \<noteq> [] \<Longrightarrow> coinbase b = Some (hd (transactions b))"
  by (cases "transactions b") (simp_all add: coinbase_def)

lemma validate_block_ctx_valid:
  assumes "bv_valid (fst (validate_block_ctx be now b prev_block u cp net contextual c))" "\<not> insecure_fast_sync be"
  obtains r where "bv_valid (validate_header be (header b) (map_option header prev_block) bv_ok)"
    "bv_valid r" "transactions b \<noteq> []" "length (transactions b) \<le> MAX_TXS_PER_BLOCK"
    "bv_valid (fst (validate_block_body be now b u False net contextual c (check_block_structure be b r)))"
proof -
  define r1 where "r1 = validate_header be (header b) (map_option header prev_block) bv_ok"
  define r2 where "r2 = check_block_limits be b (check_block_pow be False b prev_block r1)"
  have step: "fst (validate_block_ctx be now b prev_block u cp net contextual c) =
      (if transactions b = [] then add_error ''Missing coinbase transaction'' r2
       else fst (validate_block_body be now b u False net contextual c (check_block_structure be b r2)))"
    using assms check_block_network_magic_cases [of b net bv_ok] check_block_consensus_checkpoint_cases [of be net b bv_ok]
    by (auto simp: validate_block_ctx_def Let_def split_beta check_block_has_coinbase_def r2_def r1_def
        split: if_splits)
  then have ne: "transactions b \<noteq> []"
    and body: "bv_valid (fst (validate_block_body be now b u False net contextual c (check_block_structure be b r2)))"
    using assms(1) by (auto split: if_splits)
  have "bv_valid (check_block_structure be b r2)"
    using body coinbase_Some [OF ne] by (rule validate_block_body_valid)
  then have "bv_valid r2" by (simp add: block_checks)
  then have "length (transactions b) \<le> MAX_TXS_PER_BLOCK" "bv_valid r1"
    using check_block_pow_mono by (auto simp: r2_def block_checks)
  then show thesis using that [OF _ \<open>bv_valid r2\<close> ne _ body] by (simp add: r1_def)
qed

text \<open>The same facts in the form the properties use.\<close>

lemma accepted_block_structure:
  assumes "bv_valid (fst (validate_block_ctx be now b prev_block u cp net contextual c))" "\<not> insecure_fast_sync be"
  shows "transactions b \<noteq> []" "is_coinbase (hd (transactions b))"
    "merkle_root (env_hash (be_crypto be)) (map (tx_hash (env_hash (be_crypto be)) (env_ser (be_crypto be))) (transactions b))
       = tx_root (header b)"
    "distinct (map (tx_hash (env_hash (be_crypto be)) (env_ser (be_crypto be))) (transactions b))"
    "distinct (concat (map key_images (transactions b)))"
    "length (outputs (hd (transactions b))) \<le> 16"
proof -
  obtain r where ne: "transactions b \<noteq> []"
    and body: "bv_valid (fst (validate_block_body be now b u False net contextual c (check_block_structure be b r)))"
    using assms by (rule validate_block_ctx_valid)
  show "transactions b \<noteq> []" by (rule ne)
  have "bv_valid (check_block_structure be b r)" "length (outputs (hd (transactions b))) \<le> 16"
    "bv_valid (block_duplicates be (v1_0_12_rules_active net (block_height b)) b bv_ok)"
    using validate_block_body_valid [OF body coinbase_Some [OF ne]] by blast+
  then show "is_coinbase (hd (transactions b))" "length (outputs (hd (transactions b))) \<le> 16"
    "merkle_root (env_hash (be_crypto be)) (map (tx_hash (env_hash (be_crypto be)) (env_ser (be_crypto be))) (transactions b))
       = tx_root (header b)"
    "distinct (map (tx_hash (env_hash (be_crypto be)) (env_ser (be_crypto be))) (transactions b))"
    "distinct (concat (map key_images (transactions b)))"
    by (simp_all add: check_block_structure_valid block_duplicates_valid)
qed

lemma accepted_block_txs:
  assumes "bv_valid (fst (validate_block_ctx be now b prev_block u cp net True c))" "\<not> insecure_fast_sync be"
    and "env_ok (be_crypto be) T" "cache_sound (be_crypto be) T c" "set (non_coinbase_transactions b) \<subseteq> T"
    and "tx \<in> set (non_coinbase_transactions b)"
  shows "\<not> is_coinbase tx \<and> validate_reference (be_crypto be) tx u (block_height b) net True = Inr ()"
proof -
  obtain r where ne: "transactions b \<noteq> []"
    and body: "bv_valid (fst (validate_block_body be now b u False net True c (check_block_structure be b r)))"
    using assms(1,2) by (rule validate_block_ctx_valid)
  obtain r' where "bv_valid (fst (check_block_txs (be_crypto be) now u (block_height b) net True
      (non_coinbase_transactions b) c r'))"
    using validate_block_body_valid [OF body coinbase_Some [OF ne]] by blast
  then show ?thesis using check_block_txs_correct [OF assms(3,5,4)] assms(6) by (simp add: list_all_iff)
qed

section \<open>Properties\<close>

text \<open>
  C8 (what an accepted block mints). The first transaction of an accepted block is a coinbase
  whose outputs commit, without blinding, to the amounts they declare. The amounts add up, in
  exact arithmetic, to the reward of the height plus the share of the fees that goes to the
  miner, so to at most 50 CYNC plus the fees.
\<close>

theorem accepted_block_mints:
  assumes "bv_valid (fst (validate_block_ctx be now b prev_block u cp net contextual c))"
    and "\<not> insecure_fast_sync be" "0 < block_height b"
  shows "let cb = hd (transactions b); h = block_height b; fees = block_total_fees b;
           share = (if fee_distribution_height net \<le> h \<and> 0 < fees
             then to_miner (distribute_fee fees (80 \<le> block_congestion_pct (block_size (env_ser (be_crypto be)) b)))
             else fees) in
    is_coinbase cb \<and> list_all (coinbase_output_ok (be_crypto be) (v1_0_12_rules_active net h)) (outputs cb) \<and>
    sum_list (map declared_amount (outputs cb)) = base_reward h + share \<and>
    sum_list (map declared_amount (outputs cb)) \<le> 50 * COIN + fees"
proof -
  obtain r where ne: "transactions b \<noteq> []"
    and body: "bv_valid (fst (validate_block_body be now b u False net contextual c (check_block_structure be b r)))"
    using assms(1,2) by (rule validate_block_ctx_valid)
  obtain m where m: "max_coinbase net (block_height b) (block_size (env_ser (be_crypto be)) b)
        (calculate_block_reward (block_height b)) (block_total_fees b) = Inr m"
    and sums: "sum_list (map declared_amount (outputs (hd (transactions b)))) = m"
      "list_all (coinbase_output_ok (be_crypto be) (v1_0_12_rules_active net (block_height b))) (outputs (hd (transactions b)))"
    using validate_block_body_valid [OF body coinbase_Some [OF ne]] assms(3) by metis
  define fees where "fees = block_total_fees b"
  define share where "share = (if fee_distribution_height net \<le> block_height b \<and> 0 < fees
     then to_miner (distribute_fee fees (80 \<le> block_congestion_pct (block_size (env_ser (be_crypto be)) b))) else fees)"
  have "checked_add64 (base_reward (block_height b)) share = Some m"
    using m by (auto simp: max_coinbase_def amount_checked_add_def calculate_block_reward_def CONGESTION_THRESHOLD_def
        share_def fees_def split: if_splits option.splits)
  then have "m = base_reward (block_height b) + share" by (auto simp: checked_add64_def split: if_splits)
  moreover have "share \<le> fees" by (simp add: share_def distribute_fee_def Let_def)
  moreover have "base_reward (block_height b) \<le> 50 * COIN" by (simp add: base_reward_def base_reward_from_supply_bounds)
  ultimately show ?thesis
    using accepted_block_structure(2) [OF assms(1,2)] sums
    unfolding Let_def fees_def [symmetric] share_def [symmetric] by simp
qed

definition block_texts :: "'g crypto_env \<Rightarrow> block \<Rightarrow> bytes set" where
  "block_texts env b = {header_data (header b)} \<union> env_ser env ` set (transactions b) \<union>
     merkle_inputs (env_hash env) (map (tx_hash (env_hash env) (env_ser env)) (transactions b))"

text \<open>
  C7 (a block hash determines the block). Two blocks that a node accepts, at any time and on
  any chain, and that have the same block hash are the same block, transactions included, if
  the hash has no collision among the headers, the transactions and the tree nodes of the two.
  The rejection of repeated transactions closes the ambiguity of the Merkle tree.
\<close>

theorem block_hash_binds:
  fixes be :: "'g::ab_group_add block_env"
  defines "env \<equiv> be_crypto be"
  assumes "bv_valid (fst (validate_block_ctx be now a prev u cp net contextual c))"
    and "bv_valid (fst (validate_block_ctx be now' b prev' u' cp' net' contextual' c'))" "\<not> insecure_fast_sync be"
    and "wf_header (header a)" "wf_header (header b)" "inj_on (env_ser env) (set (transactions a) \<union> set (transactions b))"
    and "\<forall>x. length (env_hash env x) = 32" "collision_free (env_hash env) (block_texts env a \<union> block_texts env b)"
    and "block_hash (env_hash env) a = block_hash (env_hash env) b"
  shows "a = b"
proof -
  let ?H = "env_hash env" and ?ser = "env_ser env"
  note sa = accepted_block_structure [OF assms(2,4), folded env_def]
    and sb = accepted_block_structure [OF assms(3,4), folded env_def]
  have inj: "inj_on ?H (block_texts env a \<union> block_texts env b)" using assms(9) by (simp add: collision_free_def)
  have texts: "header_data (header a) \<in> block_texts env a \<union> block_texts env b"
    "header_data (header b) \<in> block_texts env a \<union> block_texts env b"
    "?ser t \<in> block_texts env a \<union> block_texts env b" if "t \<in> set (transactions a) \<union> set (transactions b)" for t
    using that unfolding block_texts_def by blast+
  have "?H (header_data (header a)) = ?H (header_data (header b))"
    using assms(10) by (simp add: block_hash_def header_hash_def hash_concat_def)
  then have "header_data (header a) = header_data (header b)"
    using inj_onD [OF inj] texts(1,2) sa(1) by (metis Un_iff list.set_sel(1))
  then have hdr: "header a = header b" using header_data_inject assms(5,6) by blast
  have "inj_on ?H (merkle_inputs ?H (map (tx_hash ?H ?ser) (transactions a)) \<union>
      merkle_inputs ?H (map (tx_hash ?H ?ser) (transactions b)))"
    using inj by (rule inj_on_subset) (simp add: block_texts_def, blast)
  from merkle_root_inject [OF this assms(8)]
  have txs: "map (tx_hash ?H ?ser) (transactions a) = map (tx_hash ?H ?ser) (transactions b)"
    using sa(1,3,4) sb(1,3,4) hdr by simp
  have "inj_on (tx_hash ?H ?ser) (set (transactions a) \<union> set (transactions b))"
  proof (rule inj_onI)
    fix s t
    assume st: "s \<in> set (transactions a) \<union> set (transactions b)" "t \<in> set (transactions a) \<union> set (transactions b)"
      "tx_hash ?H ?ser s = tx_hash ?H ?ser t"
    then have "?H (?ser s) = ?H (?ser t)" by (simp add: tx_hash_def hash_concat_def)
    then have "?ser s = ?ser t" using inj_onD [OF inj] texts(3) st(1,2) by blast
    then show "s = t" using inj_onD [OF assms(7)] st by blast
  qed
  then have "transactions a = transactions b" using txs by (simp add: inj_on_map_eq_map)
  then show ?thesis using hdr by simp
qed

section \<open>Computed targets are accepted\<close>

lemma target_ratio_bounds:
  assumes "1 \<le> t" "max (t div 2) 1 \<le> r" "r \<le> 8 * t"
  shows "31 \<le> target_ratio r t \<and> target_ratio r t \<le> 32000"
proof (cases "u128_max div 1000 < r")
  case True
  define a q where "a = r div 2 ^ 10" and "q = t div 2 ^ 10"
  have "2 ^ 20 \<le> r" using True by (simp add: width_eqs)
  then have "2 ^ 17 \<le> t" using assms(3) by simp
  then have q: "1 \<le> q" unfolding q_def by simp
  have a: "1 \<le> a" using \<open>2 ^ 20 \<le> r\<close> unfolding a_def by simp
  have "r = 1024 * a + r mod 1024" "t = 1024 * q + t mod 1024" "r mod 1024 < 1024" "t mod 1024 < 1024"
    unfolding a_def q_def by simp_all
  moreover have "t \<le> 2 * r + 1" using assms(2) by linarith
  ultimately have "q \<le> 2 * a + 1" "a \<le> 8 * q + 7" using assms(3) by linarith+
  then have "31 * q \<le> a * 1000" "a * 1000 \<le> 32000 * q" using q a by linarith+
  then have "31 \<le> a * 1000 div q" "a * 1000 div q \<le> 32000"
    using q div_le_mono [of "a * 1000" "32000 * q" q] by (simp_all add: less_eq_div_iff_mult_less_eq)
  then show ?thesis using True q by (simp add: target_ratio_def a_def q_def max_def)
next
  case False
  have "31 * t \<le> r * 1000" "r * 1000 \<le> 32000 * t" using assms by linarith+
  then have "31 \<le> r * 1000 div t" "r * 1000 div t \<le> 32000"
    using assms(1) div_le_mono [of "r * 1000" "32000 * t" t] by (simp_all add: less_eq_div_iff_mult_less_eq)
  then show ?thesis using False by (simp add: target_ratio_def)
qed

lemma from_be_bytes_zeros: "list_all (\<lambda>x. x = 0) bs \<Longrightarrow> from_be_bytes bs = 0"
proof -
  have "list_all (\<lambda>x. x = 0) cs \<Longrightarrow> from_le_bytes cs = 0" for cs by (induction cs) auto
  then show "list_all (\<lambda>x. x = 0) bs \<Longrightarrow> from_be_bytes bs = 0" by (simp add: from_be_bytes_def list_all_iff)
qed

lemma from_le_bytes_ones: "from_le_bytes (replicate n 0xFF) = 256 ^ n - 1"
proof (induction n)
  case (Suc n)
  have u: "unat (0xFF :: u8) = 255" by code_simp
  have "(256 :: nat) ^ n \<ge> 1" by simp
  then show ?case unfolding replicate_Suc from_le_bytes.simps u Suc power_Suc by linarith
qed simp

lemma raw_target_bound: "raw_target_to_u128 b \<le> raw_target_to_u128 max_target"
proof -
  have "raw_target_to_u128 b < 256 ^ length (take 16 b)" unfolding raw_target_to_u128_def by (rule from_be_bytes_less)
  also have "\<dots> \<le> 256 ^ 16" by (rule power_increasing) simp_all
  finally show ?thesis
    using from_le_bytes_ones [of 16] by (simp add: raw_target_to_u128_def max_target_def from_be_bytes_def)
qed

lemma raw_u128_to_target: "1 \<le> raw_target_to_u128 (u128_to_target v)"
proof -
  let ?c = "clamp_nat v 1 u128_max"
  have c: "1 \<le> ?c" "?c < 256 ^ 16" by (simp_all add: clamp_nat_def width_eqs)
  have "raw_target_to_u128 (u128_to_target v) = from_be_bytes (be_bytes 16 ?c)"
    by (simp add: raw_target_to_u128_def u128_to_target_def be_bytes_def)
  also have "\<dots> = ?c" using c(2) unfolding from_be_be_bytes by (rule mod_less)
  finally show ?thesis using c(1) by simp
qed

text \<open>
  C10 (honest targets pass). The target the difficulty adjustment computes from a history is
  never refused by the target check of block validation against the tip of that history,
  whatever the timestamps: the step bounds of the one lie within the ratio bounds of the other.
\<close>

theorem computed_target_accepted:
  assumes "2 \<le> length blocks" "target_to_u128 (db_target (last blocks)) \<le> 2 * (u128_max div MIN_DIFFICULTY)"
    and "target (header b) = calculate_difficulty blocks h" "target (header prev) = db_target (last blocks)"
  shows "validate_difficulty_target b (Some prev) r = r"
proof -
  let ?new = "calculate_difficulty blocks h" and ?old = "db_target (last blocks)"
  have "target_to_u128 ?old \<le> 2 * max_t" using assms(2) by (simp add: max_t_def MIN_DIFFICULTY_def)
  note bounds = calculate_difficulty_bounds [OF assms(1) this, of h]
  have raw: "1 \<le> raw_target_to_u128 ?new"
    by (rule calculate_difficulty_eq [OF assms(1), of h]) (simp only: Let_def raw_u128_to_target)
  then have new: "target_to_u128 ?new = raw_target_to_u128 ?new" by (simp add: target_to_u128_def raw_target_to_u128_def)
  have nz: "\<not> list_all (\<lambda>x. x = 0) ?new"
    using raw from_be_bytes_zeros [of "take 16 ?new"]
    by (auto simp: raw_target_to_u128_def list_all_iff dest: in_set_takeD)
  have "31 \<le> target_ratio (raw_target_to_u128 ?new) (raw_target_to_u128 ?old) \<and>
      target_ratio (raw_target_to_u128 ?new) (raw_target_to_u128 ?old) \<le> 32000" if "0 < raw_target_to_u128 ?old"
  proof -
    have "target_to_u128 ?old = raw_target_to_u128 ?old" using that by (simp add: target_to_u128_def raw_target_to_u128_def)
    then show ?thesis using bounds new that by (intro target_ratio_bounds) (simp_all add: mult.commute)
  qed
  then show ?thesis
    using nz raw_target_bound [of ?new] assms(3,4) by (auto simp: validate_difficulty_target_def Let_def error_if_def)
qed

section \<open>An accepted block connects and disconnects cleanly\<close>

lemma accepted_tx_connectable:
  assumes "validate_reference env tx u h net True = Inr ()" "v1_0_12_rules_active net h"
    and "\<not> is_coinbase tx" "\<not> is_shielded tx"
    and "\<forall>out\<in>set (outputs tx). in_step u (stealth_address out)" "\<forall>d a. utxo_db u = Some d \<longrightarrow> db_read_ok d a"
  shows "length (outputs tx) \<le> 256 \<and> (\<forall>out\<in>set (outputs tx). addr_free u (stealth_address out)) \<and>
    (\<forall>ki\<in>set (key_images tx). ki \<notin> spent_images u)"
proof -
  have c: "check_tx_input_output_counts tx True = Inr ()" "check_tx_against_set net tx u h True = Inr ()"
    using assms(1-4) by (simp_all add: validate_reference_def check_tx_stateless_def)
  then have "\<forall>out\<in>set (outputs tx). get_output_index_entry (stealth_address out) u = None"
    by (simp add: check_tx_against_set_def check_tx_ring_members_def fresh_address_loop_ok)
  moreover have "addr_free u a" if "get_output_index_entry a u = None" "in_step u a" for a
    using that assms(6) by (auto simp: get_output_index_entry_def addr_free_def in_step_def split: option.splits if_splits)
  ultimately have "\<forall>out\<in>set (outputs tx). addr_free u (stealth_address out)" using assms(5) by blast
  moreover have "length (outputs tx) \<le> 256" using c(1) by (simp add: check_tx_input_output_counts_def MAX_TX_OUTPUTS_def)
  moreover have "\<forall>ki\<in>set (key_images tx). ki \<notin> spent_images u"
    using c(2) by (simp add: check_tx_against_set_def check_tx_no_double_spend_ok key_images_def contains_key_image_def)
  ultimately show ?thesis by blast
qed

text \<open>
  C9 (accepted blocks can be undone). Take an accepted block without shielded transactions, on
  an output set whose indexes agree. Consensus does not check that its transaction hashes are
  new, nor that the addresses of its coinbase are free; with these two facts, connecting the
  block and disconnecting it again gives back the output set, up to the two running totals.
\<close>

theorem accepted_block_reversible:
  fixes be :: "'g::ab_group_add block_env" and b :: block
  defines "env \<equiv> be_crypto be" and "h \<equiv> block_height b" and "txs \<equiv> transactions b"
  assumes "bv_valid (fst (validate_block_ctx be now b prev u cp net True c))" "\<not> insecure_fast_sync be"
    and "env_ok env T" "cache_sound env T c" "set (tl txs) \<subseteq> T" "v1_0_12_rules_active net h"
    and "\<forall>tx\<in>set (tl txs). \<not> is_shielded tx" "indexes_inv u"
    and "\<forall>tx\<in>set txs. \<forall>k\<in>set (tx_keys (env_hash env) (env_ser env) tx). locator_outputs u k = None"
    and "\<forall>tx\<in>set txs. \<forall>out\<in>set (outputs tx). in_step u (stealth_address out)"
    and "\<forall>out\<in>set (outputs (hd txs)). addr_free u (stealth_address out)"
    and "\<forall>d a. utxo_db u = Some d \<longrightarrow> db_read_ok d a"
  shows "(disconnect_block (env_hash env) (env_ser env) txs (connect_block (env_hash env) (env_ser env) h txs u))
    \<lparr>total_outputs_ever := total_outputs_ever u, reorg_disconnects_total := reorg_disconnects_total u\<rparr> = u"
proof -
  note s = accepted_block_structure [OF assms(4,5), folded env_def txs_def]
  have tl: "non_coinbase_transactions b = tl txs" by (simp add: non_coinbase_transactions_def txs_def drop_Suc)
  have tx: "length (outputs tx) \<le> 256 \<and> (\<forall>out\<in>set (outputs tx). addr_free u (stealth_address out)) \<and>
    (\<forall>ki\<in>set (key_images tx). is_coinbase tx \<or> ki \<notin> spent_images u)" if "tx \<in> set txs" for tx
  proof (cases "tx \<in> set (tl txs)")
    case True
    then have v: "\<not> is_coinbase tx" "validate_reference env tx u h net True = Inr ()"
      using accepted_block_txs [OF assms(4,5), folded env_def h_def, OF assms(6,7)] assms(8) by (simp_all add: tl)
    then show ?thesis
      using accepted_tx_connectable [OF v(2) assms(9) v(1)] assms(10,13,15) True that by blast
  next
    case False
    then have "tx = hd txs" using that by (cases txs) auto
    then show ?thesis using s(2,6) assms(14) by simp
  qed
  then have "connectable (env_hash env) (env_ser env) u txs" using s(4) assms(12) unfolding connectable_def by blast
  with assms(11) show ?thesis by (rule disconnect_connect)
qed

section \<open>A concrete block\<close>

definition sum_env :: "int crypto_env" where
  "sum_env = demo_env\<lparr>env_hash := (\<lambda>x. replicate 30 (x ! 9) @ [of_nat (length x), last x]),
     env_ser := (\<lambda>tx. replicate 10 0), decompress := (\<lambda>b. Some (int (from_le_bytes b))), value_commitment := le_bytes 32\<rparr>"

definition demo_be :: "int block_env" where
  "demo_be = \<lparr>be_crypto = sum_env, verify_pow = (\<lambda>p h t n r tg a k b. True), consensus_checkpoints = (\<lambda>n. []),
     insecure_fast_sync = False, unix_now = 1800000000, clock_overridden = False, offset_secs = 0\<rparr>"

definition demo_coinbase :: transaction where
  "demo_coinbase = \<lparr>version = 1, tx_type = Coinbase, inputs = [], outputs = [\<lparr>stealth_address = [7], tx_public_key = [],
     commitment = le_bytes 32 (base_reward 1), encrypted_amount = le_bytes 8 (base_reward 1), view_tag = 0,
     lock_height = None, encrypted_memo = []\<rparr>], fee = 0, range_proof = [], extra = []\<rparr>"

definition demo_header :: "nat \<Rightarrow> hash \<Rightarrow> hash \<Rightarrow> u8 \<Rightarrow> block_header" where
  "demo_header h p r k = \<lparr>network_magic = magic_bytes Mainnet, hdr_version = 1, height = h, timestamp = 1700000000 + 120 * h,
     prev_hash = p, tx_root = r, anchor = zero32, algorithm = 0, nonce = 0, target = u128_to_target 1000,
     miner_pubkey = zero32, supply_commitment = zero32, checkpoint_vote = None, spark_set_root = zero32,
     mw_kernel_root = replicate 32 k\<rparr>"

definition demo_genesis :: block where
  "demo_genesis = \<lparr>header = demo_header 0 zero32 zero32 0, transactions = []\<rparr>"

definition demo_block :: "u8 \<Rightarrow> block" where
  "demo_block k = \<lparr>header = demo_header 1 (header_hash (env_hash sum_env) (header demo_genesis))
     (merkle_root (env_hash sum_env) [tx_hash (env_hash sum_env) (env_ser sum_env) demo_coinbase]) k,
     transactions = [demo_coinbase]\<rparr>"

lemma reward_range: "0 < base_reward h" "base_reward h \<le> u64_max" "TAIL_EMISSION \<le> base_reward h"
  "base_reward h \<le> base_reward 0"
proof -
  have "TAIL_EMISSION \<le> base_reward h" "base_reward h \<le> 50 * COIN" "base_reward h \<le> base_reward 0"
    by (simp_all add: base_reward_def base_reward_from_supply_bounds base_reward_from_supply_antimono estimate_supply_mono)
  then show "0 < base_reward h" "base_reward h \<le> u64_max" "TAIL_EMISSION \<le> base_reward h" "base_reward h \<le> base_reward 0"
    by (simp_all add: TAIL_EMISSION_def COIN_def width_eqs)
qed

lemmas demo_block_simps = demo_block_def demo_genesis_def demo_header_def demo_coinbase_def demo_be_def

lemma demo_block_permitted:
  "check_block_network_magic (demo_block k) Mainnet bv_ok = (True, bv_ok)"
  "check_block_consensus_checkpoint demo_be Mainnet (demo_block k) bv_ok = (True, bv_ok)"
  "shielded_root_permitted (spark_build (be_crypto demo_be)) (spark_set_root (header (demo_block k))) Mainnet
     (block_height (demo_block k))"
  by (simp_all add: check_block_network_magic_def check_block_consensus_checkpoint_def expected_checkpoint_hash_def
      shielded_root_permitted_def demo_block_simps)

lemma demo_block_header: "validate_header demo_be (header (demo_block k)) (Some (header demo_genesis)) bv_ok = bv_ok"
  by (simp add: validate_header_def check_header_future_timestamp_def check_header_checkpoint_vote_def
      check_header_vs_prev_def check_header_version_min_def error_if_def coded_if_def demo_block_simps
      MAX_BLOCK_VERSION_def block_version_at_height_def V2_TX_ACTIVATION_HEIGHT_def MIN_REASONABLE_TIME_def
      MAX_TIMESTAMP_DRIFT_def as_u64_def height_add_def sat_add64_def width_eqs Let_def)

lemma demo_target: "raw_target_to_u128 (u128_to_target 1000) = 1000" "\<not> list_all (\<lambda>x. x = 0) (u128_to_target 1000)"
proof -
  show r: "raw_target_to_u128 (u128_to_target 1000) = 1000"
    using target_roundtrip [of 1000] raw_u128_to_target [of 1000]
    by (simp add: width_eqs target_to_u128_def raw_target_to_u128_def)
  show "\<not> list_all (\<lambda>x. x = 0) (u128_to_target 1000)"
    using r from_be_bytes_zeros [of "take 16 (u128_to_target 1000)"]
    by (auto simp: raw_target_to_u128_def list_all_iff dest: in_set_takeD)
qed

lemma demo_block_checks:
  "check_block_pow demo_be False (demo_block k) (Some demo_genesis) bv_ok = bv_ok"
  "check_block_limits demo_be (demo_block k) bv_ok = bv_ok"
  "check_block_structure demo_be (demo_block k) bv_ok = bv_ok"
proof -
  show "check_block_pow demo_be False (demo_block k) (Some demo_genesis) bv_ok = bv_ok"
    using demo_target raw_target_bound [of "u128_to_target 1000"]
    by (simp add: check_block_pow_def validate_difficulty_target_def Let_def error_if_def coded_if_def demo_block_simps
        block_height_def target_ratio_def saturating_secs_since_def TARGET_BLOCK_TIME_def sat_sub_def width_eqs)
  show "check_block_limits demo_be (demo_block k) bv_ok = bv_ok"
    by (simp add: check_block_limits_def check_block_tx_count_def check_block_weight_def check_block_size_def
        block_weight_def block_size_def block_size_from_txs_def tx_size_def error_if_def demo_block_simps sum_env_def
        MAX_BLOCK_SIZE_def MAX_BLOCK_WEIGHT_def MAX_TXS_PER_BLOCK_def sat_add64_def BLOCK_HEADER_SIZE_ESTIMATE_def width_eqs)
  show "check_block_structure demo_be (demo_block k) bv_ok = bv_ok"
    by (simp add: check_block_structure_def check_block_privacy_policy_def check_block_merkle_root_def
        check_block_first_tx_is_coinbase_def Let_def error_if_def demo_block_simps enforce_privacy_policy_def is_coinbase_def)
qed

lemma demo_block_body:
  "validate_block_body demo_be 0 (demo_block k) utxo_new False Mainnet True cache_new bv_ok = (bv_ok, cache_new)"
  using reward_range [of 1]
  by (simp add: validate_block_body_def Let_def max_coinbase_def amount_checked_add_def calculate_block_reward_def
      checked_add64_def block_total_fees_def non_coinbase_transactions_def block_height_def demo_block_simps
      check_block_tail_supply_def error_if_def coded_if_def check_block_coinbase_def coinbase_def check_coinbase_shape_def
      check_coinbase_amounts_def coinbase_length_ok_def check_coinbase_commitment_def declared_amount_def from_le_le_bytes
      sum_env_def block_duplicates_def check_block_duplicate_key_images_def check_block_duplicate_tx_hashes_def
      check_block_output_addresses_def key_images_def check_block_fees_def MAX_COINBASE_OUTPUTS_def width_eqs is_coinbase_def)

lemma demo_block_accepted:
  "bv_valid (fst (validate_block_ctx demo_be 0 (demo_block k) (Some demo_genesis) utxo_new None Mainnet True cache_new))"
  by (simp add: validate_block_ctx_def Let_def demo_block_permitted demo_block_header demo_block_checks demo_block_body
      check_block_has_coinbase_def)
    (simp add: demo_block_def)

lemma demo_be_simps [simp]: "be_crypto demo_be = sum_env" "\<not> insecure_fast_sync demo_be" "transactions (demo_block k) = [demo_coinbase]"
  "block_height (demo_block k) = 1"
  by (simp_all add: demo_be_def demo_block_def demo_header_def block_height_def)

theorem accepted_block_mints_witness:
  "is_coinbase demo_coinbase \<and> sum_list (map declared_amount (outputs demo_coinbase)) = base_reward 1"
  using accepted_block_mints [OF demo_block_accepted [of 0]]
  by (simp add: Let_def block_total_fees_def non_coinbase_transactions_def)

theorem computed_target_accepted_witness:
  "let d = (\<lambda>h. \<lparr>db_height = h, db_timestamp = 120 * h, db_target = u128_to_target 1000\<rparr>);
       b = (demo_block 0)\<lparr>header := (header (demo_block 0))\<lparr>target := calculate_difficulty [d 1, d 2] 3\<rparr>\<rparr> in
   validate_difficulty_target b (Some demo_genesis) bv_ok = bv_ok"
proof -
  define d where "d h = \<lparr>db_height = h, db_timestamp = 120 * h, db_target = u128_to_target 1000\<rparr>" for h
  have "target_to_u128 (db_target (last [d 1, d 2])) \<le> 2 * (u128_max div MIN_DIFFICULTY)"
    using target_roundtrip [of 1000] by (simp add: d_def width_eqs MIN_DIFFICULTY_def)
  from computed_target_accepted [OF _ this] show ?thesis
    unfolding Let_def d_def by (simp add: demo_genesis_def demo_header_def)
qed

lemma demo_texts:
  "block_texts sum_env (demo_block k) = {header_data (header (demo_block k)), replicate 10 0, 0 # replicate 30 0 @ [10, 0]}"
  by (auto simp: block_texts_def merkle_inputs_def leaf_def level_inputs.simps tx_hash_def hash_concat_def sum_env_def)

lemma demo_hdr_hash:
  "env_hash sum_env (header_data (header (demo_block k))) =
     replicate 30 (of_char (CHR ''h'')) @ [of_nat (length (header_data (header (demo_block k)))), k]"
  by (simp add: sum_env_def header_data_def HEADER_HASH_DOMAIN_TAG_def ascii_def nth_append demo_block_simps)

lemma demo_collision_free:
  "collision_free (env_hash sum_env) (block_texts sum_env (demo_block 0) \<union> block_texts sum_env (demo_block 1))"
proof -
  let ?texts = "[header_data (header (demo_block 0)), header_data (header (demo_block 1)), replicate 10 0, 0 # replicate 30 0 @ [10, 0]]"
  have "of_char (CHR ''h'') \<noteq> (0 :: u8)" by (simp add: of_char_def)
  moreover have "env_hash sum_env (replicate 10 0) = replicate 30 0 @ [10, 0]"
    "env_hash sum_env (0 # replicate 30 0 @ [10, 0]) = replicate 30 0 @ [33, 0]"
    by (simp_all add: sum_env_def nth_append)
  ultimately have "distinct (map (env_hash sum_env) ?texts)" by (auto simp: demo_hdr_hash replicate_eq_replicate)
  then have "inj_on (env_hash sum_env) (set ?texts)" by (simp only: distinct_map)
  then show ?thesis unfolding collision_free_def demo_texts by (rule inj_on_subset) auto
qed

theorem block_hash_binds_witness:
  "block_hash (env_hash sum_env) (demo_block 0) \<noteq> block_hash (env_hash sum_env) (demo_block 1)"
proof
  assume eq: "block_hash (env_hash sum_env) (demo_block 0) = block_hash (env_hash sum_env) (demo_block 1)"
  have len: "\<forall>x. length (env_hash sum_env x) = 32" by (simp add: sum_env_def)
  then have "is32 (merkle_root (env_hash sum_env) [h])" for h
    by (simp add: merkle_root_def hash_concat_def is32_def)
  then have wf: "wf_header (header (demo_block k))" for k
    using len by (simp add: wf_header_def demo_block_def demo_header_def is32_def zero32_def header_hash_def hash_concat_def
        width_eqs u128_to_target_def be_bytes_def magic_bytes_def MAINNET_MAGIC_def)
  have "demo_block 0 = demo_block 1"
    using block_hash_binds [OF demo_block_accepted [of 0] demo_block_accepted [of 1] _ wf wf] len demo_collision_free eq
    by simp
  then show False by (simp add: demo_block_def demo_header_def)
qed

theorem accepted_block_reversible_witness:
  "(disconnect_block (env_hash sum_env) (env_ser sum_env) [demo_coinbase]
     (connect_block (env_hash sum_env) (env_ser sum_env) 1 [demo_coinbase] utxo_new))
    \<lparr>total_outputs_ever := 0, reorg_disconnects_total := 0\<rparr> = utxo_new"
proof -
  have "env_ok sum_env {}"
    using demo_env_ok by (simp add: env_ok_def sum_env_def collision_free_def sig_codec_ok_def is32_def)
  then show ?thesis
    using accepted_block_reversible [OF demo_block_accepted [of 0], of "{}"] utxo_inv_new cache_sound_new [of sum_env "{}"]
    by (simp add: utxo_inv_def) (simp add: utxo_new_def in_step_def addr_free_def tx_keys_def)
qed

end
