(* ===== verification/Mempool.thy ===== *)
theory Mempool
  imports Block_Validation "HOL-Library.Multiset" "HOL-Library.Sublist" "HOL-Library.List_Lexorder" "HOL-Library.Product_Lexorder"
begin

text \<open>
  The mempool: \<^verbatim>\<open>src/mempool.rs\<close>. The \<^verbatim>\<open>HashMap\<close> of entries is an association list with
  distinct keys whose order stands for the unspecified iteration order; the \<^verbatim>\<open>BTreeMap\<close> from
  fee rate and hash to hash is the sorted list of its keys, whose second component is the
  value. The clock is a parameter of the operations that read it; one call reads it once in the model. An audited rejection keeps the
  error value, not its rendering. The verification cache is
  threaded through admission. What the mempool asks of the chain is a parameter of the
  operations that ask.
\<close>

section \<open>Entries and the audit log\<close>

definition AUDIT_LOG_CAPACITY :: nat where "AUDIT_LOG_CAPACITY = 4096"
definition RBF_FEE_BUMP_NUMERATOR :: nat where "RBF_FEE_BUMP_NUMERATOR = 125"
definition RBF_FEE_BUMP_DENOMINATOR :: nat where "RBF_FEE_BUMP_DENOMINATOR = 100"
definition MAX_MEMPOOL_BYTES :: nat where "MAX_MEMPOOL_BYTES = 300 * 1024 * 1024"
definition MAX_MEMPOOL_TXS :: nat where "MAX_MEMPOOL_TXS = 100000"
definition TX_EXPIRY_BLOCKS :: nat where "TX_EXPIRY_BLOCKS = 288"
definition MAX_EVICTION_ATTEMPTS :: nat where "MAX_EVICTION_ATTEMPTS = 100"
definition MAX_CHAIN_GENERATION_ATTEMPTS :: nat where "MAX_CHAIN_GENERATION_ATTEMPTS = 4"

datatype evict_reason = Confirmed | DoubleSpend | ReplacedByFee | LowFee | Expired

datatype audit_event =
    TxAdded hash amount nat nat
  | TxRejected hash error nat
  | TxRemoved hash evict_reason nat

fun audit_timestamp :: "audit_event \<Rightarrow> nat" where
  "audit_timestamp (TxAdded h f s t) = t"
| "audit_timestamp (TxRejected h e t) = t"
| "audit_timestamp (TxRemoved h r t) = t"

fun audit_hash :: "audit_event \<Rightarrow> hash" where
  "audit_hash (TxAdded h f s t) = h"
| "audit_hash (TxRejected h e t) = h"
| "audit_hash (TxRemoved h r t) = h"

record mempool_entry =
  me_tx :: transaction
  me_hash :: hash
  me_fee :: amount
  me_fee_per_byte :: nat
  me_size :: nat
  me_added_time :: nat
  me_height_added :: nat

record mempool =
  mp_entries :: "(hash \<times> mempool_entry) list"
  by_fee :: "(nat \<times> hash) list"
  mp_key_images :: "key_image set"
  mp_linking_tags :: "bytes set"
  mp_max_size :: nat
  mp_current_size :: nat
  mp_chain_height :: nat
  audit_log :: "audit_event list"

text \<open>\<open>spend_ltags\<close> is the foreign function that reads the linking tags of a spend bundle.\<close>

record 'g pool_env =
  pe_crypto :: "'g crypto_env"
  spend_ltags :: "bytes \<Rightarrow> bytes list option"

text \<open>A 64-bit fee times a million fits in the 128 bits the code computes with.\<close>

definition scaled_fee_per_byte :: "nat \<Rightarrow> nat \<Rightarrow> nat" where
  "scaled_fee_per_byte fee_atomic sz = min (fee_atomic * 1000000 div max sz 1) u64_max"

definition mempool_entry_new :: "'g pool_env \<Rightarrow> transaction \<Rightarrow> nat \<Rightarrow> nat \<Rightarrow> mempool_entry" where
  "mempool_entry_new env tx h now = (let sz = max (tx_size (env_ser (pe_crypto env)) tx) 1 in
     \<lparr>me_tx = tx, me_hash = tx_hash (env_hash (pe_crypto env)) (env_ser (pe_crypto env)) tx, me_fee = fee tx,
      me_fee_per_byte = (if 0 < sz then min (fee tx * 1000000 div sz) u64_max else 0),
      me_size = sz, me_added_time = now, me_height_added = h\<rparr>)"

definition with_max_size :: "nat \<Rightarrow> mempool" where
  "with_max_size m = \<lparr>mp_entries = [], by_fee = [], mp_key_images = {}, mp_linking_tags = {}, mp_max_size = m,
     mp_current_size = 0, mp_chain_height = 0, audit_log = []\<rparr>"

definition mempool_new :: mempool where "mempool_new = with_max_size MAX_MEMPOOL_BYTES"

definition audit :: "audit_event \<Rightarrow> mempool \<Rightarrow> mempool" where
  "audit ev p = p\<lparr>audit_log :=
     (if AUDIT_LOG_CAPACITY \<le> length (audit_log p) then tl (audit_log p) else audit_log p) @ [ev]\<rparr>"

definition reject :: "hash \<Rightarrow> error \<Rightarrow> nat \<Rightarrow> mempool \<Rightarrow> mempool" where
  "reject h err now p = audit (TxRejected h err now) p"

definition spend_linking_tags :: "'g pool_env \<Rightarrow> spark_payload \<Rightarrow> bytes list result" where
  "spend_linking_tags env p = (case spark_spend p of
       None \<Rightarrow> Inr []
     | Some sb \<Rightarrow> (case spend_ltags env (spend_bytes sb) of
         None \<Rightarrow> Inl (SerializationError ''spark v2 spend bundle: unparseable linking tags'')
       | Some tags \<Rightarrow> Inr tags))"

definition shielded_linking_tags :: "'g pool_env \<Rightarrow> transaction \<Rightarrow> bytes list result" where
  "shielded_linking_tags env tx =
     (if spark_build (pe_crypto env) \<and> is_shielded tx
      then case spark_decode (spark_borsh (pe_crypto env)) (extra tx) of
          Inl e \<Rightarrow> Inl e
        | Inr p \<Rightarrow> spend_linking_tags env p
      else Inr [])"

text \<open>The tags with \<^verbatim>\<open>unwrap_or_default\<close>.\<close>

definition tags_or_default :: "'g pool_env \<Rightarrow> transaction \<Rightarrow> bytes list" where
  "tags_or_default env tx = (case shielded_linking_tags env tx of Inl _ \<Rightarrow> [] | Inr tags \<Rightarrow> tags)"

section \<open>Removal\<close>

definition remove_tx :: "'g pool_env \<Rightarrow> hash \<Rightarrow> mempool \<Rightarrow> transaction option \<times> mempool" where
  "remove_tx env h p = (case map_of (mp_entries p) h of
       Some e \<Rightarrow> (Some (me_tx e),
         p\<lparr>mp_entries := filter (\<lambda>(k, _). k \<noteq> h) (mp_entries p),
           mp_key_images := mp_key_images p - set (key_images (me_tx e)),
           mp_linking_tags := mp_linking_tags p - set (tags_or_default env (me_tx e)),
           by_fee := remove1 (me_fee_per_byte e, h) (by_fee p),
           mp_current_size := sat_sub (mp_current_size p) (me_size e)\<rparr>)
     | None \<Rightarrow> (None, p))"

definition drop_tx :: "'g pool_env \<Rightarrow> evict_reason \<Rightarrow> nat \<Rightarrow> hash \<Rightarrow> mempool \<Rightarrow> mempool" where
  "drop_tx env why now h p = snd (remove_tx env h (audit (TxRemoved h why now) p))"

fun drop_all :: "'g pool_env \<Rightarrow> evict_reason \<Rightarrow> nat \<Rightarrow> hash list \<Rightarrow> mempool \<Rightarrow> mempool" where
  "drop_all env why now [] p = p"
| "drop_all env why now (h # hs) p = drop_all env why now hs (drop_tx env why now h p)"

definition evict_lowest_fee :: "'g pool_env \<Rightarrow> nat \<Rightarrow> mempool \<Rightarrow> mempool" where
  "evict_lowest_fee env now p = (case by_fee p of
       [] \<Rightarrow> p
     | (_, h) # _ \<Rightarrow> drop_tx env LowFee now h p)"

definition hashes_where :: "(mempool_entry \<Rightarrow> bool) \<Rightarrow> mempool \<Rightarrow> hash list" where
  "hashes_where P p = map fst (filter (\<lambda>(_, e). P e) (mp_entries p))"

definition expire_old_transactions :: "'g pool_env \<Rightarrow> nat \<Rightarrow> nat \<Rightarrow> mempool \<Rightarrow> mempool" where
  "expire_old_transactions env now current_height p =
     drop_all env Expired now
       (hashes_where (\<lambda>e. TX_EXPIRY_BLOCKS < sat_sub current_height (me_height_added e)) p) p"

definition set_height :: "'g pool_env \<Rightarrow> nat \<Rightarrow> nat \<Rightarrow> mempool \<Rightarrow> mempool" where
  "set_height env now h p = expire_old_transactions env now h (p\<lparr>mp_chain_height := h\<rparr>)"

definition expire_old :: "'g pool_env \<Rightarrow> nat \<Rightarrow> nat \<Rightarrow> mempool \<Rightarrow> nat \<times> mempool" where
  "expire_old env now max_age_secs p =
     (let expired = hashes_where (\<lambda>e. max_age_secs < sat_sub now (me_added_time e)) p in
      (length expired, drop_all env Expired now expired p))"

definition mempool_clear :: "mempool \<Rightarrow> mempool" where
  "mempool_clear p = p\<lparr>mp_entries := [], by_fee := [], mp_key_images := {}, mp_linking_tags := {}, mp_current_size := 0\<rparr>"

definition remove_conflicts :: "'g pool_env \<Rightarrow> key_image list \<Rightarrow> mempool \<Rightarrow> mempool" where
  "remove_conflicts env kis p =
     fold (\<lambda>h p. snd (remove_tx env h p))
       (hashes_where (\<lambda>e. list_ex (\<lambda>ki. ki \<in> set kis) (key_images (me_tx e))) p) p"

definition find_conflict :: "key_image \<Rightarrow> mempool \<Rightarrow> (hash \<times> mempool_entry) option" where
  "find_conflict ki p = find (\<lambda>(_, e). list_ex (\<lambda>k. k = ki) (key_images (me_tx e))) (mp_entries p)"

fun conflicting_hashes :: "mempool \<Rightarrow> key_image list \<Rightarrow> hash list \<Rightarrow> hash list" where
  "conflicting_hashes p [] acc = acc"
| "conflicting_hashes p (ki # kis) acc = conflicting_hashes p kis
     (case find_conflict ki p of
        Some (h, _) \<Rightarrow> if h \<in> set acc then acc else acc @ [h]
      | None \<Rightarrow> acc)"

definition remove_confirmed :: "'g pool_env \<Rightarrow> nat \<Rightarrow> transaction list \<Rightarrow> mempool \<Rightarrow> mempool" where
  "remove_confirmed env now txs p =
     (let H = env_hash (pe_crypto env); ser = env_ser (pe_crypto env);
          p = drop_all env Confirmed now (map (tx_hash H ser) txs) p in
      drop_all env DoubleSpend now (conflicting_hashes p (concat (map key_images txs)) []) p)"

text \<open>\<open>chain_valid\<close> and \<open>unminable\<close> are the answers of the chain.\<close>

definition shadow_evict_invalid ::
  "'g pool_env \<Rightarrow> nat \<Rightarrow> (transaction \<Rightarrow> bool) \<Rightarrow> (transaction \<Rightarrow> bool) \<Rightarrow> mempool \<Rightarrow> mempool" where
  "shadow_evict_invalid env now chain_valid unminable p =
     drop_all env DoubleSpend now (hashes_where (\<lambda>e. \<not> chain_valid (me_tx e) \<or> unminable (me_tx e)) p) p"

section \<open>Admission\<close>

text \<open>Error messages leave out the suffix that says the mempool rejected and the input index.\<close>

definition preflight_check :: "'g::ab_group_add pool_env \<Rightarrow> transaction \<Rightarrow> unit result" where
  "preflight_check env tx =
     (if is_coinbase tx then Inl (InvalidMessage ''coinbase transactions cannot enter mempool'')
      else andthen (validate_transaction_basic (pe_crypto env) tx) (check_tx_privacy (pe_crypto env) tx))"

fun admission_ring_loop ::
  "'g crypto_env \<Rightarrow> nat \<Rightarrow> string \<Rightarrow> transaction \<Rightarrow> tx_input list \<Rightarrow> verification_cache \<Rightarrow> unit result \<times> verification_cache" where
  "admission_ring_loop env now msg tx [] c = (Inr (), c)"
| "admission_ring_loop env now msg tx (i # is) c = (let (ok, c) = verify_ring_signature env now tx i c in
     if ok then admission_ring_loop env now msg tx is c else (Inl (InvalidTransaction msg), c))"

definition verify_crypto_for_admission ::
  "'g::ab_group_add crypto_env \<Rightarrow> nat \<Rightarrow> transaction \<Rightarrow> nat \<Rightarrow> verification_cache \<Rightarrow> unit result \<times> verification_cache" where
  "verify_crypto_for_admission env now tx h c =
     (if is_coinbase tx then (Inr (), c)
      else if spark_build env \<and> is_shielded tx
      then let (ok, c) = (if inputs tx \<noteq> [] \<and> outputs tx \<noteq> [] then verify_output_range_proofs env now tx h c else (True, c)) in
        if \<not> ok then (Inl (InvalidTransaction ''Range proof verification failed (shielded tx transparent output)''), c)
        else admission_ring_loop env now ''Ring signature verification failed (shielded tx transparent input)'' tx (inputs tx) c
      else let (ok, c) = verify_output_range_proofs env now tx h c in
        if \<not> ok then (Inl (InvalidTransaction ''Range proof verification failed''), c)
        else if \<not> verify_balance_proof env tx then (Inl (InvalidTransaction ''Balance proof verification failed''), c)
        else admission_ring_loop env now ''Ring signature verification failed on input'' tx (inputs tx) c)"

definition fullness_pct :: "mempool \<Rightarrow> nat" where
  "fullness_pct p = (if 0 < mp_max_size p then mp_current_size p * 100 div mp_max_size p else 0)"

definition fee_multiplier :: "nat \<Rightarrow> nat" where
  "fee_multiplier pct = (if pct \<le> 24 then 1 else if pct \<le> 49 then 2 else if pct \<le> 74 then 4 else 8)"

definition replaceable :: "nat \<Rightarrow> nat \<Rightarrow> bool" where
  "replaceable new_rate old_rate \<longleftrightarrow>
     min (old_rate * RBF_FEE_BUMP_NUMERATOR) u128_max \<le> min (new_rate * RBF_FEE_BUMP_DENOMINATOR) u128_max \<and>
     old_rate < new_rate"

fun collect_replaced :: "mempool \<Rightarrow> nat \<Rightarrow> key_image list \<Rightarrow> hash list \<Rightarrow> hash list result" where
  "collect_replaced p new_rate [] acc = Inr acc"
| "collect_replaced p new_rate (ki # kis) acc =
     (if ki \<in> mp_key_images p
      then case find_conflict ki p of
          Some (h, e) \<Rightarrow> if replaceable new_rate (me_fee_per_byte e)
            then collect_replaced p new_rate kis (if h \<in> set acc then acc else acc @ [h])
            else Inl (DuplicateKeyImage ''duplicate key image; fee too low to replace'')
        | None \<Rightarrow> Inl (DuplicateKeyImage ''duplicate key image; fee too low to replace'')
      else collect_replaced p new_rate kis acc)"

definition replaced_entries :: "mempool \<Rightarrow> hash list \<Rightarrow> mempool_entry list" where
  "replaced_entries p hs = List.map_filter (map_of (mp_entries p)) hs"

definition replaced_tags :: "'g pool_env \<Rightarrow> mempool \<Rightarrow> hash list \<Rightarrow> bytes set" where
  "replaced_tags env p hs = set (concat (map (\<lambda>e. tags_or_default env (me_tx e)) (replaced_entries p hs)))"

fun simulate_eviction ::
  "mempool \<Rightarrow> hash list \<Rightarrow> nat \<Rightarrow> nat \<Rightarrow> (nat \<times> hash) list \<Rightarrow> nat \<Rightarrow> nat \<Rightarrow> nat" where
  "simulate_eviction p to_replace new_rate sz [] simulated attempts = simulated"
| "simulate_eviction p to_replace new_rate sz ((rate, h) # cands) simulated attempts =
     (if simulated + sz \<le> mp_max_size p \<or> MAX_EVICTION_ATTEMPTS \<le> attempts then simulated
      else if h \<in> set to_replace then simulate_eviction p to_replace new_rate sz cands simulated attempts
      else if new_rate \<le> rate then simulated
      else case map_of (mp_entries p) h of
          Some e \<Rightarrow> simulate_eviction p to_replace new_rate sz cands (sat_sub simulated (me_size e)) (attempts + 1)
        | None \<Rightarrow> simulate_eviction p to_replace new_rate sz cands simulated attempts)"

definition simulated_size :: "mempool \<Rightarrow> hash list \<Rightarrow> nat \<Rightarrow> nat \<Rightarrow> nat" where
  "simulated_size p to_replace new_rate sz =
     (let simulated = sat_sub (mp_current_size p) (sum_list (map me_size (replaced_entries p to_replace))) in
      if mp_max_size p < simulated + sz
      then simulate_eviction p to_replace new_rate sz (by_fee p) simulated 0 else simulated)"

text \<open>The checks of \<open>admit_after_checks\<close> before its first change: the hashes to replace, or the error.\<close>

definition check_admission :: "'g pool_env \<Rightarrow> transaction \<Rightarrow> mempool \<Rightarrow> hash list result" where
  "check_admission env tx p =
     (let sz = tx_size (env_ser (pe_crypto env)) tx; min_fee = sz * MIN_FEE_PER_BYTE * fee_multiplier (fullness_pct p);
          new_rate = scaled_fee_per_byte (fee tx) sz in
      if MAX_TX_SIZE < sz then Inl (TransactionTooLarge sz MAX_TX_SIZE)
      else case shielded_linking_tags env tx of Inl e \<Rightarrow> Inl e | Inr tags \<Rightarrow>
        if fee tx < min_fee then Inl (FeeTooLow (fee tx) min_fee)
        else case collect_replaced p new_rate (key_images tx) [] of Inl e \<Rightarrow> Inl e | Inr to_replace \<Rightarrow>
          if list_ex (\<lambda>t. t \<in> mp_linking_tags p \<and> t \<notin> replaced_tags env p to_replace) tags
          then Inl (InvalidTransaction ''duplicate shielded linking tag in mempool (double-spend)'')
          else if mp_max_size p < simulated_size p to_replace new_rate sz + sz then Inl MempoolFull
          else Inr to_replace)"

function evict_loop :: "'g pool_env \<Rightarrow> nat \<Rightarrow> nat \<Rightarrow> nat \<Rightarrow> mempool \<Rightarrow> bool \<times> mempool" where
  "evict_loop env now sz attempts p =
     (if mp_max_size p < mp_current_size p + sz \<and> mp_entries p \<noteq> []
      then let p' = evict_lowest_fee env now p in
        if mp_current_size p \<le> mp_current_size p' \<or>
           (mp_max_size p' < mp_current_size p' + sz \<and> MAX_EVICTION_ATTEMPTS \<le> attempts + 1)
        then (False, p') else evict_loop env now sz (attempts + 1) p'
      else (True, p))"
  by pat_completeness auto
termination by (relation "measure (\<lambda>(env, now, sz, attempts, p). mp_current_size p)") auto

declare evict_loop.simps [simp del]

definition insert_entry :: "'g pool_env \<Rightarrow> nat \<Rightarrow> transaction \<Rightarrow> hash \<Rightarrow> mempool \<Rightarrow> mempool" where
  "insert_entry env now tx h p = (let e = mempool_entry_new env tx (mp_chain_height p) now;
       p = audit (TxAdded h (me_fee e) (me_size e) now) p in
     p\<lparr>mp_key_images := mp_key_images p \<union> set (key_images tx),
       mp_linking_tags := mp_linking_tags p \<union> set (tags_or_default env tx),
       by_fee := insort (me_fee_per_byte e, h) (by_fee p),
       mp_current_size := mp_current_size p + me_size e,
       mp_entries := (h, e) # mp_entries p\<rparr>)"

definition admit_after_checks :: "'g pool_env \<Rightarrow> nat \<Rightarrow> transaction \<Rightarrow> hash \<Rightarrow> mempool \<Rightarrow> hash result \<times> mempool" where
  "admit_after_checks env now tx h p = (case check_admission env tx p of
       Inl e \<Rightarrow> (Inl e, reject h e now p)
     | Inr to_replace \<Rightarrow>
         let p = drop_all env ReplacedByFee now to_replace p;
             (ok, p) = evict_loop env now (tx_size (env_ser (pe_crypto env)) tx) 0 p in
         if ok then (Inr h, insert_entry env now tx h p) else (Inl MempoolFull, reject h MempoolFull now p))"

definition mempool_add ::
  "'g::ab_group_add pool_env \<Rightarrow> nat \<Rightarrow> transaction \<Rightarrow> mempool \<times> verification_cache \<Rightarrow>
   hash result \<times> mempool \<times> verification_cache" where
  "mempool_add env now tx = (\<lambda>(p, c).
     let h = tx_hash (env_hash (pe_crypto env)) (env_ser (pe_crypto env)) tx in
     case preflight_check env tx of
       Inl e \<Rightarrow> (Inl e, reject h e now p, c)
     | Inr _ \<Rightarrow>
         if map_of (mp_entries p) h \<noteq> None then (Inr h, p, c)
         else case verify_crypto_for_admission (pe_crypto env) now tx (mp_chain_height p) c of
             (Inl e, c) \<Rightarrow> (Inl e, reject h e now p, c)
           | (Inr _, c) \<Rightarrow> (case admit_after_checks env now tx h p of (r, p) \<Rightarrow> (r, p, c)))"

section \<open>Block templates and queries\<close>

definition contains_linking_tag :: "bytes \<Rightarrow> mempool \<Rightarrow> bool" where
  "contains_linking_tag t p \<longleftrightarrow> t \<in> mp_linking_tags p"

definition has_shielded :: "mempool \<Rightarrow> bool" where
  "has_shielded p = list_ex (\<lambda>(_, e). is_shielded (me_tx e)) (mp_entries p)"

definition pool_contains :: "hash \<Rightarrow> mempool \<Rightarrow> bool" where
  "pool_contains h p \<longleftrightarrow> map_of (mp_entries p) h \<noteq> None"

definition pool_get :: "hash \<Rightarrow> mempool \<Rightarrow> transaction option" where
  "pool_get h p = map_option me_tx (map_of (mp_entries p) h)"

definition verify_size_invariant :: "mempool \<Rightarrow> bool" where
  "verify_size_invariant p \<longleftrightarrow> sum_list (map (\<lambda>(_, e). me_size e) (mp_entries p)) = mp_current_size p"

text \<open>The loop the block template and the summaries share; \<open>n\<close> counts the entries taken.\<close>

fun select_loop ::
  "'g pool_env \<Rightarrow> mempool \<Rightarrow> nat \<Rightarrow> nat \<Rightarrow> (nat \<times> hash) list \<Rightarrow> nat \<Rightarrow> nat \<Rightarrow> key_image set \<Rightarrow> bytes set \<Rightarrow> mempool_entry list" where
  "select_loop env p max_sz max_count [] n total_sz kis tags = []"
| "select_loop env p max_sz max_count ((_, h) # cands) n total_sz kis tags =
     (if max_count \<le> n then []
      else case map_of (mp_entries p) h of
          None \<Rightarrow> select_loop env p max_sz max_count cands n total_sz kis tags
        | Some e \<Rightarrow>
            if total_sz + me_size e \<le> max_sz \<and>
               \<not> (list_ex (\<lambda>ki. ki \<in> kis) (key_images (me_tx e)) \<or>
                  list_ex (\<lambda>t. t \<in> tags) (tags_or_default env (me_tx e)))
            then e # select_loop env p max_sz max_count cands (n + 1) (total_sz + me_size e)
              (kis \<union> set (key_images (me_tx e))) (tags \<union> set (tags_or_default env (me_tx e)))
            else select_loop env p max_sz max_count cands n total_sz kis tags)"

definition select_entries :: "'g pool_env \<Rightarrow> nat \<Rightarrow> nat \<Rightarrow> mempool \<Rightarrow> mempool_entry list" where
  "select_entries env max_sz max_count p = select_loop env p max_sz max_count (rev (by_fee p)) 0 0 {} {}"

definition get_block_transactions :: "'g pool_env \<Rightarrow> nat \<Rightarrow> nat \<Rightarrow> mempool \<Rightarrow> transaction list" where
  "get_block_transactions env max_sz max_count p = map me_tx (select_entries env max_sz max_count p)"

record tx_summary =
  ts_hash :: hash
  ts_type :: tx_type
  ts_inputs :: nat
  ts_outputs :: nat
  ts_fee :: amount
  ts_size :: nat

definition get_transaction_summaries :: "'g pool_env \<Rightarrow> nat \<Rightarrow> nat \<Rightarrow> mempool \<Rightarrow> tx_summary list" where
  "get_transaction_summaries env max_sz max_count p = map (\<lambda>e. \<lparr>ts_hash = me_hash e, ts_type = tx_type (me_tx e),
     ts_inputs = length (inputs (me_tx e)), ts_outputs = length (outputs (me_tx e)), ts_fee = me_fee e, ts_size = me_size e\<rparr>)
     (select_entries env max_sz max_count p)"

definition get_all :: "'g pool_env \<Rightarrow> mempool \<Rightarrow> transaction list" where
  "get_all env p = get_block_transactions env u64_max u64_max p"

definition get_hashes :: "mempool \<Rightarrow> hash list" where "get_hashes p = map fst (mp_entries p)"

record fee_percentile_snapshot =
  fp25 :: nat
  fp50 :: nat
  fp75 :: nat
  fp90 :: nat
  fp_count :: nat

definition fee_percentiles :: "mempool \<Rightarrow> fee_percentile_snapshot" where
  "fee_percentiles p =
     (if mp_entries p = []
      then \<lparr>fp25 = MIN_FEE_PER_BYTE, fp50 = MIN_FEE_PER_BYTE, fp75 = MIN_FEE_PER_BYTE, fp90 = MIN_FEE_PER_BYTE, fp_count = 0\<rparr>
      else let fees = map fst (by_fee p); n = length fees;
               percentile = (\<lambda>pct. max (fees ! min (n * pct div 100) (n - 1)) MIN_FEE_PER_BYTE) in
        \<lparr>fp25 = percentile 25, fp50 = percentile 50, fp75 = percentile 75, fp90 = percentile 90, fp_count = n\<rparr>)"

record mempool_stats =
  st_tx_count :: nat
  st_size_bytes :: nat
  st_total_fee :: amount
  st_max_size :: nat

definition pool_stats :: "mempool \<Rightarrow> mempool_stats" where
  "pool_stats p = \<lparr>st_tx_count = length (mp_entries p), st_size_bytes = mp_current_size p,
     st_total_fee = amount_sum (map (\<lambda>(_, e). me_fee e) (mp_entries p)), st_max_size = mp_max_size p\<rparr>"

definition pool_total_fees :: "mempool \<Rightarrow> amount" where "pool_total_fees p = st_total_fee (pool_stats p)"

definition oldest_timestamp :: "mempool \<Rightarrow> nat" where
  "oldest_timestamp p = (case mp_entries p of [] \<Rightarrow> 0
     | _ # _ \<Rightarrow> Min (set (map (\<lambda>(_, e). me_added_time e) (mp_entries p))))"

definition clear_audit_log :: "mempool \<Rightarrow> mempool" where "clear_audit_log p = p\<lparr>audit_log := []\<rparr>"

definition mempool_pressure :: "nat \<Rightarrow> nat \<Rightarrow> nat \<Rightarrow> nat option" where
  "mempool_pressure current_bytes max_bytes warn_pct =
     (if max_bytes = 0 then None
      else let pct = as_u64 (current_bytes * 100 div max_bytes) in if warn_pct \<le> pct then Some pct else None)"

section \<open>Admission against the chain\<close>

definition needs_full_revalidation_after_block :: "bool \<Rightarrow> network_type \<Rightarrow> nat \<Rightarrow> bool" where
  "needs_full_revalidation_after_block is_reorg net new_height \<longleftrightarrow>
     is_reorg \<or> min_output_age net new_height \<noteq> min_output_age net (sat_sub new_height 1)"

datatype 'a admission_attempt = Retry | Complete 'a

text \<open>
  The chain is shared with other threads, so its answers are given per attempt: \<open>gen i\<close> is the
  stable generation read at the start of attempt \<open>i\<close>, if there is one.
\<close>

fun retry_loop ::
  "nat \<Rightarrow> nat \<Rightarrow> (nat \<Rightarrow> nat option) \<Rightarrow> (nat \<Rightarrow> nat \<Rightarrow> 's \<Rightarrow> 'a result admission_attempt \<times> 's) \<Rightarrow> 's \<Rightarrow> 'a result \<times> 's" where
  "retry_loop 0 i gen attempt s = (Inl (InvalidState ''chain state changed during mempool admission''), s)"
| "retry_loop (Suc k) i gen attempt s = (case gen i of
     None \<Rightarrow> retry_loop k (i + 1) gen attempt s
   | Some g \<Rightarrow> (case attempt i g s of
       (Retry, s) \<Rightarrow> retry_loop k (i + 1) gen attempt s
     | (Complete r, s) \<Rightarrow> (r, s)))"

definition retry_stable_admission ::
  "(nat \<Rightarrow> nat option) \<Rightarrow> (nat \<Rightarrow> nat \<Rightarrow> 's \<Rightarrow> 'a result admission_attempt \<times> 's) \<Rightarrow> 's \<Rightarrow> 'a result \<times> 's" where
  "retry_stable_admission gen attempt s = retry_loop MAX_CHAIN_GENERATION_ATTEMPTS 0 gen attempt s"

text \<open>Per attempt: the generation before, the verdict of the chain, the generation under the lock.\<close>

record chain_view =
  cv_before :: "nat \<Rightarrow> nat option"
  cv_verdict :: "nat \<Rightarrow> transaction \<Rightarrow> unit result"
  cv_locked :: "nat \<Rightarrow> nat option"

definition try_admission ::
  "'g::ab_group_add pool_env \<Rightarrow> nat \<Rightarrow> chain_view \<Rightarrow> transaction \<Rightarrow> nat \<Rightarrow> nat \<Rightarrow> mempool \<times> verification_cache \<Rightarrow>
   hash result admission_attempt \<times> mempool \<times> verification_cache" where
  "try_admission env now v tx i g s =
     (if cv_locked v i \<noteq> Some g then (Retry, s)
      else case cv_verdict v i tx of
          Inl e \<Rightarrow> (Complete (Inl e), s)
        | Inr _ \<Rightarrow> (case mempool_add env now tx s of (r, s) \<Rightarrow> (Complete r, s)))"

definition add_with_chain ::
  "'g::ab_group_add pool_env \<Rightarrow> nat \<Rightarrow> chain_view \<Rightarrow> transaction \<Rightarrow> mempool \<times> verification_cache \<Rightarrow>
   hash result \<times> mempool \<times> verification_cache" where
  "add_with_chain env now v tx s = (case preflight_check env tx of
       Inl e \<Rightarrow> (Inl e, s)
     | Inr _ \<Rightarrow> retry_stable_admission (cv_before v) (try_admission env now v tx) s)"

fun restore_orphaned ::
  "'g::ab_group_add pool_env \<Rightarrow> nat \<Rightarrow> (chain_view \<times> transaction) list \<Rightarrow> mempool \<times> verification_cache \<Rightarrow>
   nat \<times> mempool \<times> verification_cache" where
  "restore_orphaned env now [] s = (0, s)"
| "restore_orphaned env now ((v, tx) # txs) s = (let (r, s) = add_with_chain env now v tx s;
     (n, s) = restore_orphaned env now txs s in (case r of Inl _ \<Rightarrow> n | Inr _ \<Rightarrow> n + 1, s))"

text \<open>Loading: \<open>file\<close> is the file's content, if it exists, and \<open>parse\<close> its Borsh decoder.\<close>

fun load_loop ::
  "'g::ab_group_add pool_env \<Rightarrow> nat \<Rightarrow> transaction list \<Rightarrow> mempool \<times> verification_cache \<Rightarrow> nat \<times> mempool \<times> verification_cache" where
  "load_loop env now [] s = (0, s)"
| "load_loop env now (tx # txs) s = (let (r, s) = mempool_add env now tx s;
     (n, s) = load_loop env now txs s in (case r of Inl _ \<Rightarrow> n | Inr _ \<Rightarrow> n + 1, s))"

definition load_from_disk ::
  "'g::ab_group_add pool_env \<Rightarrow> nat \<Rightarrow> (bytes \<Rightarrow> transaction list option) \<Rightarrow> bytes option \<Rightarrow> mempool \<times> verification_cache \<Rightarrow>
   nat result \<times> mempool \<times> verification_cache" where
  "load_from_disk env now parse file s = (case file of
       None \<Rightarrow> (Inr 0, s)
     | Some data \<Rightarrow>
         if MAX_MEMPOOL_BYTES < length data then (Inl (SerializationError ''mempool.dat too large''), s)
         else (case parse data of
             None \<Rightarrow> (Inl (SerializationError ''mempool.dat corrupt''), s)
           | Some txs \<Rightarrow>
               if MAX_MEMPOOL_TXS < length txs then (Inl (SerializationError ''mempool.dat contains too many txs''), s)
               else (case load_loop env now txs s of (n, s) \<Rightarrow> (Inr n, s))))"

section \<open>The invariant of the mempool\<close>

definition fee_key :: "hash \<times> mempool_entry \<Rightarrow> nat \<times> hash" where
  "fee_key x = (me_fee_per_byte (snd x), fst x)"

definition entry_images :: "mempool_entry \<Rightarrow> key_image set" where
  "entry_images e = set (key_images (me_tx e))"

definition entry_tags :: "'g pool_env \<Rightarrow> mempool_entry \<Rightarrow> bytes set" where
  "entry_tags env e = set (tags_or_default env (me_tx e))"

definition owned :: "(mempool_entry \<Rightarrow> 'x set) \<Rightarrow> (hash \<times> mempool_entry) list \<Rightarrow> 'x set" where
  "owned f es = (\<Union>x\<in>set es. f (snd x))"

definition separate :: "(mempool_entry \<Rightarrow> 'x set) \<Rightarrow> (hash \<times> mempool_entry) list \<Rightarrow> bool" where
  "separate f es \<longleftrightarrow> (\<forall>x\<in>set es. \<forall>y\<in>set es. fst x \<noteq> fst y \<longrightarrow> f (snd x) \<inter> f (snd y) = {})"

definition entry_ok :: "'g pool_env \<Rightarrow> hash \<times> mempool_entry \<Rightarrow> bool" where
  "entry_ok env x \<longleftrightarrow> me_hash (snd x) = fst x \<and> 0 < me_size (snd x) \<and>
     me_size (snd x) = tx_size (env_ser (pe_crypto env)) (me_tx (snd x)) \<and>
     tx_hash (env_hash (pe_crypto env)) (env_ser (pe_crypto env)) (me_tx (snd x)) = fst x \<and>
     distinct (key_images (me_tx (snd x))) \<and> MIN_FEE_PER_BYTE * 1000000 \<le> me_fee_per_byte (snd x)"

definition entries_size :: "(hash \<times> mempool_entry) list \<Rightarrow> nat" where
  "entries_size es = sum_list (map (\<lambda>(_, e). me_size e) es)"

definition pool_ok :: "'g pool_env \<Rightarrow> mempool \<Rightarrow> bool" where
  "pool_ok env p \<longleftrightarrow> distinct (map fst (mp_entries p)) \<and> list_all (entry_ok env) (mp_entries p) \<and>
     sorted (by_fee p) \<and> mset (by_fee p) = mset (map fee_key (mp_entries p)) \<and>
     mp_key_images p = owned entry_images (mp_entries p) \<and> separate entry_images (mp_entries p) \<and>
     mp_linking_tags p = owned (entry_tags env) (mp_entries p) \<and> separate (entry_tags env) (mp_entries p) \<and>
     mp_current_size p = entries_size (mp_entries p) \<and> mp_current_size p \<le> mp_max_size p"

lemma pool_okD:
  assumes "pool_ok env p"
  shows "distinct (map fst (mp_entries p))" "list_all (entry_ok env) (mp_entries p)" "sorted (by_fee p)"
    "mset (by_fee p) = mset (map fee_key (mp_entries p))" "mp_key_images p = owned entry_images (mp_entries p)"
    "separate entry_images (mp_entries p)" "mp_linking_tags p = owned (entry_tags env) (mp_entries p)"
    "separate (entry_tags env) (mp_entries p)" "mp_current_size p = entries_size (mp_entries p)"
    "mp_current_size p \<le> mp_max_size p"
  using assms by (simp_all add: pool_ok_def)

lemma pool_ok_audit [simp]: "pool_ok env (audit ev p) = pool_ok env p"
  by (simp add: pool_ok_def audit_def)

lemma audit_fields [simp]:
  "mp_entries (audit ev p) = mp_entries p" "by_fee (audit ev p) = by_fee p"
  "mp_current_size (audit ev p) = mp_current_size p" "mp_max_size (audit ev p) = mp_max_size p"
  "mp_key_images (audit ev p) = mp_key_images p" "mp_linking_tags (audit ev p) = mp_linking_tags p"
  "mp_chain_height (audit ev p) = mp_chain_height p"
  by (simp_all add: audit_def)

lemma entries_split:
  assumes "distinct (map fst es)" "map_of es h = Some e"
  shows "mset es = add_mset (h, e) (mset (filter (\<lambda>(k, _). k \<noteq> h) es))"
  using assms
proof (induction es)
  case (Cons x es)
  obtain k a where x: "x = (k, a)" by (cases x)
  show ?case
  proof (cases "k = h")
    case True
    then have "filter (\<lambda>(k, _). k \<noteq> h) es = es" using Cons.prems(1) x by (force simp: filter_id_conv)
    then show ?thesis using True Cons.prems(2) x by simp
  qed (use Cons x in auto)
qed simp

lemma owned_insert: "set es = insert (h, e) (set fs) \<Longrightarrow> owned f es = f e \<union> owned f fs"
  by (simp add: owned_def)

lemma separate_insert:
  assumes "set es = insert (h, e) (set fs)" "h \<notin> fst ` set fs"
  shows "separate f es \<longleftrightarrow> f e \<inter> owned f fs = {} \<and> separate f fs"
proof -
  have ne: "\<forall>x\<in>set fs. fst x \<noteq> h" "\<forall>x\<in>set fs. h \<noteq> fst x" using assms(2) by force+
  have "separate f es \<longleftrightarrow> (\<forall>x\<in>set fs. f e \<inter> f (snd x) = {}) \<and> (\<forall>x\<in>set fs. f (snd x) \<inter> f e = {}) \<and> separate f fs"
    unfolding separate_def assms(1) using ne by (simp add: ball_conj_distrib) blast
  then show ?thesis unfolding owned_def by blast
qed

lemma entries_size_mset: "entries_size es = (\<Sum>x\<in>#mset es. me_size (snd x))"
  by (induction es) (auto simp: entries_size_def)

text \<open>Taking one entry out of a pool, and putting one in, are inverse changes of the invariant.\<close>

lemma pool_ok_change:
  assumes "mset es = add_mset (h, e) (mset fs)" "h \<notin> fst ` set fs"
  shows "distinct (map fst es) \<longleftrightarrow> distinct (map fst fs)"
    "list_all (entry_ok env) es \<longleftrightarrow> entry_ok env (h, e) \<and> list_all (entry_ok env) fs"
    "owned f es = f e \<union> owned f fs" "separate f es \<longleftrightarrow> f e \<inter> owned f fs = {} \<and> separate f fs"
    "entries_size es = me_size e + entries_size fs"
    "mset (map fee_key es) = add_mset (me_fee_per_byte e, h) (mset (map fee_key fs))"
proof -
  have s: "set es = insert (h, e) (set fs)" using assms(1) by (metis set_mset_add_mset_insert set_mset_mset)
  have "mset (map fst es) = mset (h # map fst fs)" using assms(1) by simp
  then have "distinct (map fst es) = distinct (h # map fst fs)" by (rule mset_eq_imp_distinct_iff)
  then show "distinct (map fst es) \<longleftrightarrow> distinct (map fst fs)" using assms(2) by simp
  show "list_all (entry_ok env) es \<longleftrightarrow> entry_ok env (h, e) \<and> list_all (entry_ok env) fs"
    by (simp add: list_all_iff s)
  show "owned f es = f e \<union> owned f fs" using s by (rule owned_insert)
  show "separate f es \<longleftrightarrow> f e \<inter> owned f fs = {} \<and> separate f fs" using s assms(2) by (rule separate_insert)
  show "entries_size es = me_size e + entries_size fs" using assms(1) by (simp add: entries_size_mset)
  show "mset (map fee_key es) = add_mset (me_fee_per_byte e, h) (mset (map fee_key fs))"
    using assms(1) by (simp add: fee_key_def)
qed

lemma remove_tx_None: "map_of (mp_entries p) h = None \<Longrightarrow> snd (remove_tx env h p) = p"
  by (simp add: remove_tx_def)

lemma remove_tx_entries:
  "mp_entries (snd (remove_tx env h p)) = filter (\<lambda>(k, _). k \<noteq> h) (mp_entries p)"
proof (cases "map_of (mp_entries p) h")
  case None
  then have "filter (\<lambda>(k, _). k \<noteq> h) (mp_entries p) = mp_entries p" by (force simp: filter_id_conv map_of_eq_None_iff)
  then show ?thesis using None by (simp add: remove_tx_None)
qed (simp add: remove_tx_def)

lemma pool_ok_remove:
  assumes "pool_ok env p"
  shows "pool_ok env (snd (remove_tx env h p))"
proof (cases "map_of (mp_entries p) h")
  case (Some e)
  let ?fs = "filter (\<lambda>(k, _). k \<noteq> h) (mp_entries p)"
  note P = pool_okD [OF assms]
  have h: "h \<notin> fst ` set ?fs" by auto
  note C = pool_ok_change [OF entries_split [OF P(1) Some] h]
  have "entry_images e \<inter> owned entry_images ?fs = {}" "entry_tags env e \<inter> owned (entry_tags env) ?fs = {}"
    using P(6,8) by (simp_all only: C(4))
  then have "mp_key_images p - entry_images e = owned entry_images ?fs"
    "mp_linking_tags p - entry_tags env e = owned (entry_tags env) ?fs"
    unfolding P(5,7) C(3) by blast+
  moreover have "mset (remove1 (me_fee_per_byte e, h) (by_fee p)) = mset (map fee_key ?fs)"
    unfolding mset_remove1 P(4) C(6) by simp
  moreover have "mp_current_size p - me_size e = entries_size ?fs" unfolding P(9) C(5) by simp
  moreover have "entries_size ?fs \<le> mp_max_size p" using P(9,10) C(5) by linarith
  moreover have "separate entry_images ?fs" "separate (entry_tags env) ?fs" using P(6,8) by (simp_all only: C(4))
  moreover have "distinct (map fst ?fs)" "list_all (entry_ok env) ?fs" using P(1,2) C(1,2) by blast+
  moreover have "sorted (remove1 (me_fee_per_byte e, h) (by_fee p))" using P(3) by (rule sorted_remove1)
  ultimately show ?thesis using Some unfolding pool_ok_def
    by (simp add: remove_tx_def sat_sub_def entry_images_def [symmetric] entry_tags_def [symmetric])
qed (simp add: remove_tx_None assms)

lemma pool_ok_drop: "pool_ok env p \<Longrightarrow> pool_ok env (drop_tx env why now h p)"
  by (simp add: drop_tx_def pool_ok_remove)

lemma pool_ok_drop_all: "pool_ok env p \<Longrightarrow> pool_ok env (drop_all env why now hs p)"
  by (induction hs arbitrary: p) (simp_all add: pool_ok_drop)

lemma pool_ok_fold_remove: "pool_ok env p \<Longrightarrow> pool_ok env (fold (\<lambda>h p. snd (remove_tx env h p)) hs p)"
  by (induction hs arbitrary: p) (simp_all add: pool_ok_remove)

lemma pool_ok_evict: "pool_ok env p \<Longrightarrow> pool_ok env (evict_lowest_fee env now p)"
  by (auto simp: evict_lowest_fee_def pool_ok_drop split: list.split)

lemma pool_ok_evict_loop: "pool_ok env p \<Longrightarrow> pool_ok env (snd (evict_loop env now sz n p))"
  by (induction env now sz n p rule: evict_loop.induct)
    (subst evict_loop.simps, simp add: Let_def pool_ok_evict)

lemma remove_tx_frame [simp]:
  "mp_max_size (snd (remove_tx env h p)) = mp_max_size p" "mp_chain_height (snd (remove_tx env h p)) = mp_chain_height p"
  by (simp_all add: remove_tx_def split: option.split)

lemma drop_tx_fields [simp]:
  "mp_max_size (drop_tx env why now h p) = mp_max_size p"
  "mp_entries (drop_tx env why now h p) = filter (\<lambda>(k, _). k \<noteq> h) (mp_entries p)"
  by (simp_all add: drop_tx_def remove_tx_entries)

lemma evict_loop_max: "mp_max_size (snd (evict_loop env now sz n p)) = mp_max_size p"
proof (induction env now sz n p rule: evict_loop.induct)
  case (1 env now sz n p)
  have "mp_max_size (evict_lowest_fee env now p) = mp_max_size p"
    by (simp add: evict_lowest_fee_def split: list.split prod.split)
  then show ?case using 1 by (subst evict_loop.simps) (simp add: Let_def)
qed

lemma drop_all_fields [simp]:
  "mp_max_size (drop_all env why now hs p) = mp_max_size p"
  "mp_entries (drop_all env why now hs p) = filter (\<lambda>(k, _). k \<notin> set hs) (mp_entries p)"
  by (induction hs arbitrary: p) (auto intro!: filter_cong)

lemma by_fee_set: "pool_ok env p \<Longrightarrow> set (by_fee p) = fee_key ` set (mp_entries p)"
  using arg_cong [OF pool_okD(4), of env p set_mset] by simp

lemma by_fee_distinct:
  assumes "pool_ok env p"
  shows "distinct (by_fee p)"
proof -
  have "distinct (map fee_key (mp_entries p))"
    using pool_okD(1) [OF assms] by (auto simp: distinct_map inj_on_def fee_key_def)
  then show ?thesis using mset_eq_imp_distinct_iff [OF pool_okD(4) [OF assms]] by simp
qed

lemma by_fee_entry:
  assumes "pool_ok env p" "(rate, h) \<in> set (by_fee p)"
  obtains e where "map_of (mp_entries p) h = Some e" "me_fee_per_byte e = rate"
proof -
  obtain e where "(h, e) \<in> set (mp_entries p)" "rate = me_fee_per_byte e"
    using assms(2) by (auto simp: by_fee_set [OF assms(1)] fee_key_def)
  then show thesis using that map_of_is_SomeI [OF pool_okD(1) [OF assms(1)]] by blast
qed

lemma by_fee_drop_tx:
  assumes "pool_ok env p"
  shows "by_fee (drop_tx env why now h p) = filter (\<lambda>(_, k). k \<noteq> h) (by_fee p)"
proof (cases "map_of (mp_entries p) h")
  case None
  then have "\<forall>x\<in>set (by_fee p). snd x \<noteq> h"
    using by_fee_entry [OF assms] by (metis option.distinct(1) prod.collapse)
  then have "filter (\<lambda>(_, k). k \<noteq> h) (by_fee p) = by_fee p" by (auto simp: filter_id_conv)
  then show ?thesis using None by (simp add: drop_tx_def remove_tx_None)
next
  case (Some e)
  have "x = (me_fee_per_byte e, h) \<longleftrightarrow> snd x = h" if x: "x \<in> set (by_fee p)" for x
  proof (cases x)
    case (Pair r k)
    obtain e' where "map_of (mp_entries p) k = Some e'" "me_fee_per_byte e' = r"
      using by_fee_entry [OF assms] x Pair by blast
    then show ?thesis using Pair Some by auto
  qed
  then have "filter (\<lambda>x. x \<noteq> (me_fee_per_byte e, h)) (by_fee p) = filter (\<lambda>(_, k). k \<noteq> h) (by_fee p)"
    by (intro filter_cong) (auto simp: split_beta)
  moreover have "remove1 y (by_fee p) = filter (\<lambda>x. x \<noteq> y) (by_fee p)" for y
    unfolding distinct_remove1_removeAll [OF by_fee_distinct [OF assms]] removeAll_filter_not_eq by (rule filter_cong) auto
  moreover have "by_fee (drop_tx env why now h p) = remove1 (me_fee_per_byte e, h) (by_fee p)"
    using Some by (simp add: drop_tx_def remove_tx_def)
  ultimately show ?thesis by simp
qed

lemma by_fee_drop_all:
  assumes "pool_ok env p"
  shows "by_fee (drop_all env why now hs p) = filter (\<lambda>(_, k). k \<notin> set hs) (by_fee p)"
  using assms
proof (induction hs arbitrary: p)
  case (Cons h hs)
  then show ?case by (auto simp: by_fee_drop_tx pool_ok_drop intro!: filter_cong)
qed simp

lemma map_of_drop: "map_of (filter (\<lambda>(k, _). k \<noteq> h) es) x = (if x = h then None else map_of es x)"
  by (induction es) auto

lemma map_of_drop_all: "map_of (filter (\<lambda>(k, _). k \<notin> S) es) x = (if x \<in> S then None else map_of es x)"
  by (induction es) auto

lemma map_filter_cong_on: "(\<And>x. x \<in> set xs \<Longrightarrow> f x = g x) \<Longrightarrow> List.map_filter f xs = List.map_filter g xs"
  by (induction xs) (auto simp: map_filter_simps split: option.split)

lemma entries_size_replaced:
  assumes "distinct (map fst es)" "distinct hs"
  shows "sum_list (map me_size (List.map_filter (map_of es) hs)) + entries_size (filter (\<lambda>(k, _). k \<notin> set hs) es)
    = entries_size es"
  using assms
proof (induction hs arbitrary: es)
  case (Cons h hs)
  let ?fs = "filter (\<lambda>(k, _). k \<noteq> h) es"
  have "distinct (map fst ?fs)" using Cons.prems(1) by (simp add: distinct_map_filter)
  then have IH: "sum_list (map me_size (List.map_filter (map_of ?fs) hs)) +
      entries_size (filter (\<lambda>(k, _). k \<notin> set hs) ?fs) = entries_size ?fs"
    by (rule Cons.IH) (use Cons.prems(2) in simp)
  have "List.map_filter (map_of ?fs) hs = List.map_filter (map_of es) hs"
    using Cons.prems(2) by (intro map_filter_cong_on) (auto simp: map_of_drop)
  moreover have "filter (\<lambda>(k, _). k \<notin> set hs) ?fs = filter (\<lambda>(k, _). k \<notin> set (h # hs)) es"
    unfolding filter_filter by (rule filter_cong) auto
  moreover have "entries_size es = (case map_of es h of None \<Rightarrow> 0 | Some e \<Rightarrow> me_size e) + entries_size ?fs"
  proof (cases "map_of es h")
    case None
    then have "?fs = es" by (force simp: filter_id_conv map_of_eq_None_iff)
    then show ?thesis using None by simp
  next
    case (Some e)
    have "h \<notin> fst ` set ?fs" by auto
    then show ?thesis using pool_ok_change(5) [OF entries_split [OF Cons.prems(1) Some]] by (simp add: Some)
  qed
  ultimately show ?case using IH by (cases "map_of es h") (simp_all add: map_filter_simps del: set_simps filter_filter)
qed (simp add: map_filter_simps)

section \<open>The eviction simulation is exact\<close>

lemma simulate_exhausted: "MAX_EVICTION_ATTEMPTS \<le> n \<Longrightarrow> simulate_eviction p R rate sz cs s n = s"
  by (cases cs) auto

lemma simulate_fits: "s + sz \<le> mp_max_size p \<Longrightarrow> simulate_eviction p R rate sz cs s n = s"
  by (cases cs) auto

lemma evict_lowest_step:
  assumes "pool_ok env q" "by_fee q = (rate, h) # rest"
  obtains e where "map_of (mp_entries q) h = Some e" "by_fee (evict_lowest_fee env now q) = rest"
    "mp_current_size (evict_lowest_fee env now q) = sat_sub (mp_current_size q) (me_size e)"
    "mp_current_size (evict_lowest_fee env now q) < mp_current_size q"
    "mp_max_size (evict_lowest_fee env now q) = mp_max_size q"
    "mp_entries (evict_lowest_fee env now q) = filter (\<lambda>(k, _). k \<noteq> h) (mp_entries q)"
    "\<forall>x\<in>set rest. snd x \<noteq> h"
proof -
  have q': "evict_lowest_fee env now q = drop_tx env LowFee now h q" by (simp add: evict_lowest_fee_def assms(2))
  obtain e where e: "map_of (mp_entries q) h = Some e" "me_fee_per_byte e = rate"
    using by_fee_entry [OF assms(1)] assms(2) by (metis list.set_intros(1))
  have ne: "snd x \<noteq> h" if "x \<in> set rest" for x
  proof
    assume "snd x = h"
    then have "(fst x, h) \<in> set (by_fee q)" using that assms(2) by auto
    then have "fst x = rate" using by_fee_entry [OF assms(1)] e by (metis option.inject)
    then show False using by_fee_distinct [OF assms(1)] that assms(2) \<open>snd x = h\<close> by (cases x) auto
  qed
  then have rest: "filter (\<lambda>(_, k). k \<noteq> h) rest = rest" by (simp add: filter_id_conv split_beta)
  have "(h, e) \<in> set (mp_entries q)" using e(1) by (rule map_of_SomeD)
  then have "0 < me_size e" using pool_okD(2) [OF assms(1)] by (auto simp: list_all_iff entry_ok_def)
  moreover have "me_size e \<le> mp_current_size q"
  proof -
    have "h \<notin> fst ` set (filter (\<lambda>(k, _). k \<noteq> h) (mp_entries q))" by auto
    from pool_ok_change(5) [OF entries_split [OF pool_okD(1) [OF assms(1)] e(1)] this]
    show ?thesis using pool_okD(9) [OF assms(1)] by linarith
  qed
  moreover have "mp_current_size (drop_tx env LowFee now h q) = sat_sub (mp_current_size q) (me_size e)"
    by (simp add: drop_tx_def remove_tx_def e(1))
  ultimately show thesis using that e(1) ne rest by (simp add: q' by_fee_drop_tx [OF assms(1)] assms(2) sat_sub_def)
qed

lemma evict_loop_step:
  assumes "mp_max_size q < mp_current_size q + sz" "map_of (mp_entries q) h = Some e"
    and "mp_current_size (evict_lowest_fee env now q) < mp_current_size q"
    and "\<not> (mp_max_size (evict_lowest_fee env now q) < mp_current_size (evict_lowest_fee env now q) + sz \<and>
      MAX_EVICTION_ATTEMPTS \<le> n + 1)"
  shows "evict_loop env now sz n q = evict_loop env now sz (n + 1) (evict_lowest_fee env now q)"
proof -
  have "mp_entries q \<noteq> []" using assms(2) by auto
  then show ?thesis using assms by (auto simp: evict_loop.simps [of env now sz n q] Let_def)
qed

text \<open>When the simulation fits the new transaction, the loop that evicts for real ends with room for it.\<close>

lemma evict_loop_fits:
  assumes "pool_ok env q" "by_fee q = filter (\<lambda>(_, k). k \<notin> set R) cs"
    and "\<forall>x\<in>set (by_fee q). map_of (mp_entries q) (snd x) = map_of (mp_entries p) (snd x)"
    and "mp_max_size q = mp_max_size p"
    and "simulate_eviction p R rate sz cs (mp_current_size q) n + sz \<le> mp_max_size p"
  shows "fst (evict_loop env now sz n q) \<and>
    mp_current_size (snd (evict_loop env now sz n q)) + sz \<le> mp_max_size (snd (evict_loop env now sz n q)) \<and>
    set (mp_entries (snd (evict_loop env now sz n q))) \<subseteq> set (mp_entries q)"
  using assms
proof (induction cs arbitrary: q n)
  case Nil
  then show ?case by (simp add: evict_loop.simps [of env now sz n q])
next
  case (Cons c cs)
  obtain r h where c: "c = (r, h)" by (cases c)
  show ?case
  proof (cases "mp_current_size q + sz \<le> mp_max_size p")
    case True
    then show ?thesis using Cons.prems(4) by (simp add: evict_loop.simps [of env now sz n q])
  next
    case big: False
    have n: "n < MAX_EVICTION_ATTEMPTS" using big Cons.prems(5) simulate_exhausted by (metis not_le)
    show ?thesis
    proof (cases "h \<in> set R")
      case True
      show ?thesis by (rule Cons.IH [OF Cons.prems(1) _ Cons.prems(3,4)]) (use Cons.prems(2,5) True big n c in simp_all)
    next
      case False
      let ?q = "evict_lowest_fee env now q" and ?rest = "filter (\<lambda>(_, k). k \<notin> set R) cs"
      have "by_fee q = (r, h) # ?rest" using Cons.prems(2) False c by simp
      from evict_lowest_step [OF Cons.prems(1) this, of now]
      obtain e where e: "map_of (mp_entries q) h = Some e" and st: "by_fee ?q = ?rest"
        "mp_current_size ?q = sat_sub (mp_current_size q) (me_size e)" "mp_current_size ?q < mp_current_size q"
        "mp_max_size ?q = mp_max_size q" "mp_entries ?q = filter (\<lambda>(k, _). k \<noteq> h) (mp_entries q)"
        "\<forall>x\<in>set ?rest. snd x \<noteq> h" by blast
      have "map_of (mp_entries p) h = Some e" using Cons.prems(3) e \<open>by_fee q = (r, h) # ?rest\<close> by simp
      then have sim: "simulate_eviction p R rate sz cs (mp_current_size ?q) (n + 1) + sz \<le> mp_max_size p"
        using Cons.prems(5) False big n c by (simp add: st(2) split: if_splits)
      have IH: "fst (evict_loop env now sz (n + 1) ?q) \<and>
          mp_current_size (snd (evict_loop env now sz (n + 1) ?q)) + sz \<le> mp_max_size (snd (evict_loop env now sz (n + 1) ?q)) \<and>
          set (mp_entries (snd (evict_loop env now sz (n + 1) ?q))) \<subseteq> set (mp_entries ?q)"
      proof (rule Cons.IH [OF pool_ok_evict [OF Cons.prems(1)] st(1) _ _ sim])
        show "\<forall>x\<in>set (by_fee ?q). map_of (mp_entries ?q) (snd x) = map_of (mp_entries p) (snd x)"
          using Cons.prems(3) st(6) \<open>by_fee q = (r, h) # ?rest\<close> by (simp add: st(1,5) map_of_drop) blast
      qed (simp add: st(4) Cons.prems(4))
      have "\<not> (mp_max_size ?q < mp_current_size ?q + sz \<and> MAX_EVICTION_ATTEMPTS \<le> n + 1)"
        using sim simulate_exhausted st(4) Cons.prems(4) by (metis not_le)
      moreover have "mp_max_size q < mp_current_size q + sz" using big Cons.prems(4) by simp
      ultimately have "evict_loop env now sz n q = evict_loop env now sz (n + 1) ?q"
        using evict_loop_step e st(3) by blast
      then show ?thesis using IH st(5) by auto
    qed
  qed
qed

section \<open>Admission keeps the invariant or changes nothing\<close>

lemma find_conflict_Some:
  "find_conflict ki p = Some (h, e) \<Longrightarrow> (h, e) \<in> set (mp_entries p) \<and> ki \<in> entry_images e"
  by (auto simp: find_conflict_def find_Some_iff entry_images_def list_ex_iff) (metis nth_mem)

lemma collect_replaced_spec:
  assumes "collect_replaced p rate kis acc = Inr R" "distinct acc"
  shows "distinct R \<and> set acc \<subseteq> set R \<and>
    (\<forall>ki\<in>set kis \<inter> mp_key_images p. \<exists>x\<in>set (mp_entries p). ki \<in> entry_images (snd x) \<and> fst x \<in> set R)"
  using assms
proof (induction kis arbitrary: acc)
  case (Cons ki kis)
  show ?case
  proof (cases "ki \<in> mp_key_images p")
    case True
    then obtain h e where f: "find_conflict ki p = Some (h, e)" and
      r: "collect_replaced p rate kis (if h \<in> set acc then acc else acc @ [h]) = Inr R"
      using Cons.prems(1) by (auto split: option.splits if_splits)
    have IH: "distinct R \<and> set (if h \<in> set acc then acc else acc @ [h]) \<subseteq> set R \<and>
        (\<forall>ki\<in>set kis \<inter> mp_key_images p. \<exists>x\<in>set (mp_entries p). ki \<in> entry_images (snd x) \<and> fst x \<in> set R)"
      using Cons.IH [OF r] Cons.prems(2) by simp
    then have "set acc \<subseteq> set R" "h \<in> set R" by (auto split: if_splits)
    then show ?thesis using IH find_conflict_Some [OF f] by fastforce
  qed (use Cons in auto)
qed simp

lemma check_admission_ok:
  assumes "check_admission env tx p = Inr R"
  shows "tx_size (env_ser (pe_crypto env)) tx * MIN_FEE_PER_BYTE \<le> fee tx"
    and "shielded_linking_tags env tx = Inr (tags_or_default env tx)"
    and "collect_replaced p (scaled_fee_per_byte (fee tx) (tx_size (env_ser (pe_crypto env)) tx)) (key_images tx) [] = Inr R"
    and "set (tags_or_default env tx) \<inter> mp_linking_tags p \<subseteq> replaced_tags env p R"
    and "simulated_size p R (scaled_fee_per_byte (fee tx) (tx_size (env_ser (pe_crypto env)) tx))
      (tx_size (env_ser (pe_crypto env)) tx) + tx_size (env_ser (pe_crypto env)) tx \<le> mp_max_size p"
proof -
  obtain tags where t: "shielded_linking_tags env tx = Inr tags"
    using assms by (auto simp: check_admission_def Let_def split: if_splits sum.splits)
  then have t': "tags_or_default env tx = tags" by (simp add: tags_or_default_def)
  then show "shielded_linking_tags env tx = Inr (tags_or_default env tx)" using t by simp
  have m: "1 \<le> fee_multiplier x" for x by (simp add: fee_multiplier_def)
  have "tx_size (env_ser (pe_crypto env)) tx * MIN_FEE_PER_BYTE * fee_multiplier (fullness_pct p) \<le> fee tx"
    using assms by (auto simp: check_admission_def Let_def not_less split: if_splits sum.splits)
  then show "tx_size (env_ser (pe_crypto env)) tx * MIN_FEE_PER_BYTE \<le> fee tx"
    using mult_le_mono2 [OF m] by (metis le_trans mult.right_neutral)
  show "collect_replaced p (scaled_fee_per_byte (fee tx) (tx_size (env_ser (pe_crypto env)) tx)) (key_images tx) [] = Inr R"
    using assms by (auto simp: check_admission_def Let_def split: if_splits sum.splits)
  show "set (tags_or_default env tx) \<inter> mp_linking_tags p \<subseteq> replaced_tags env p R"
    using assms unfolding t' by (auto simp: check_admission_def t Let_def list_ex_iff split: if_splits sum.splits)
  show "simulated_size p R (scaled_fee_per_byte (fee tx) (tx_size (env_ser (pe_crypto env)) tx))
      (tx_size (env_ser (pe_crypto env)) tx) + tx_size (env_ser (pe_crypto env)) tx \<le> mp_max_size p"
    using assms by (auto simp: check_admission_def Let_def not_less split: if_splits sum.splits)
qed

lemma simulated_size_eq:
  "simulated_size p R rate sz = simulate_eviction p R rate sz (by_fee p)
     (sat_sub (mp_current_size p) (sum_list (map me_size (replaced_entries p R)))) 0"
  by (simp add: simulated_size_def Let_def simulate_fits)

lemma admit_room:
  fixes now :: nat
  assumes "pool_ok env p" "check_admission env tx p = Inr R"
  defines "q \<equiv> drop_all env ReplacedByFee now R p"
    and "sz \<equiv> tx_size (env_ser (pe_crypto env)) tx"
  shows "fst (evict_loop env now sz 0 q)" "pool_ok env (snd (evict_loop env now sz 0 q))"
    "mp_current_size (snd (evict_loop env now sz 0 q)) + sz \<le> mp_max_size (snd (evict_loop env now sz 0 q))"
    "set (mp_entries (snd (evict_loop env now sz 0 q))) \<subseteq> {x \<in> set (mp_entries p). fst x \<notin> set R}"
proof -
  let ?rate = "scaled_fee_per_byte (fee tx) sz"
  have q: "pool_ok env q" unfolding q_def by (rule pool_ok_drop_all [OF assms(1)])
  have fields: "mp_max_size q = mp_max_size p" "mp_entries q = filter (\<lambda>(k, _). k \<notin> set R) (mp_entries p)"
    "by_fee q = filter (\<lambda>(_, k). k \<notin> set R) (by_fee p)"
    by (simp_all add: q_def by_fee_drop_all [OF assms(1)])
  have "distinct R" using collect_replaced_spec [OF check_admission_ok(3) [OF assms(2)]] by simp
  then have "mp_current_size q = sat_sub (mp_current_size p) (sum_list (map me_size (replaced_entries p R)))"
    using entries_size_replaced [OF pool_okD(1) [OF assms(1)]] pool_okD(9) [OF q] pool_okD(9) [OF assms(1)]
    by (metis fields(2) sat_sub_def replaced_entries_def diff_add_inverse)
  then have sim: "simulate_eviction p R ?rate sz (by_fee p) (mp_current_size q) 0 + sz \<le> mp_max_size p"
    using check_admission_ok(5) [OF assms(2)] by (simp add: simulated_size_eq sz_def)
  have "\<forall>x\<in>set (by_fee q). map_of (mp_entries q) (snd x) = map_of (mp_entries p) (snd x)"
    by (auto simp: fields(2,3) map_of_drop_all)
  from evict_loop_fits [OF q fields(3) this fields(1) sim, of now]
  show "fst (evict_loop env now sz 0 q)"
    "mp_current_size (snd (evict_loop env now sz 0 q)) + sz \<le> mp_max_size (snd (evict_loop env now sz 0 q))"
    "set (mp_entries (snd (evict_loop env now sz 0 q))) \<subseteq> {x \<in> set (mp_entries p). fst x \<notin> set R}"
    by (auto simp: fields(2))
  show "pool_ok env (snd (evict_loop env now sz 0 q))" by (rule pool_ok_evict_loop [OF q])
qed

lemma pool_ok_insert:
  assumes "pool_ok env q" "h \<notin> fst ` set (mp_entries q)" "h = tx_hash (env_hash (pe_crypto env)) (env_ser (pe_crypto env)) tx"
    and "distinct (key_images tx)" "0 < tx_size (env_ser (pe_crypto env)) tx"
    and "tx_size (env_ser (pe_crypto env)) tx * MIN_FEE_PER_BYTE \<le> fee tx"
    and "set (key_images tx) \<inter> mp_key_images q = {}" "set (tags_or_default env tx) \<inter> mp_linking_tags q = {}"
    and "mp_current_size q + tx_size (env_ser (pe_crypto env)) tx \<le> mp_max_size q"
  shows "pool_ok env (insert_entry env now tx h q)"
proof -
  let ?e = "mempool_entry_new env tx (mp_chain_height q) now" and ?sz = "tx_size (env_ser (pe_crypto env)) tx"
  note P = pool_okD [OF assms(1)]
  have "mset ((h, ?e) # mp_entries q) = add_mset (h, ?e) (mset (mp_entries q))" by simp
  note C = pool_ok_change [OF this assms(2)]
  have e: "me_tx ?e = tx" "me_size ?e = ?sz" "me_hash ?e = h" "me_fee_per_byte ?e = min (fee tx * 1000000 div ?sz) u64_max"
    using assms(3,5) by (simp_all add: mempool_entry_new_def Let_def)
  have "MIN_FEE_PER_BYTE * 1000000 * ?sz \<le> fee tx * 1000000" using assms(6) by (simp add: mult.commute mult.left_commute)
  then have "MIN_FEE_PER_BYTE * 1000000 \<le> fee tx * 1000000 div ?sz" using assms(5) by (simp add: less_eq_div_iff_mult_less_eq)
  moreover have "MIN_FEE_PER_BYTE * 1000000 \<le> u64_max" by (simp add: MIN_FEE_PER_BYTE_def u64_max_eq)
  ultimately have "entry_ok env (h, ?e)" using assms(3,4,5) e by (simp add: entry_ok_def)
  moreover have "entry_images ?e = set (key_images tx)" "entry_tags env ?e = set (tags_or_default env tx)"
    by (simp_all add: entry_images_def entry_tags_def e(1))
  ultimately show ?thesis unfolding pool_ok_def using P C(1,2,5,6) assms(7-9) e(2)
    by (simp add: insert_entry_def Let_def sorted_insort Un_commute C(3,4))
qed

lemma survivors_disjoint:
  assumes "separate f es" "set fs \<subseteq> {x \<in> set es. fst x \<notin> R}"
    and "\<forall>a\<in>A \<inter> owned f es. \<exists>x\<in>set es. a \<in> f (snd x) \<and> fst x \<in> R"
  shows "A \<inter> owned f fs = {}"
proof -
  have False if a: "a \<in> A" "a \<in> owned f fs" for a
  proof -
    obtain y where y: "y \<in> set es" "fst y \<notin> R" "a \<in> f (snd y)" using a(2) assms(2) by (auto simp: owned_def)
    then have "a \<in> A \<inter> owned f es" using a(1) unfolding owned_def by blast
    then obtain x where "x \<in> set es" "a \<in> f (snd x)" "fst x \<in> R" using assms(3) by blast
    then show False using y assms(1) unfolding separate_def by (metis IntI empty_iff)
  qed
  then show ?thesis by blast
qed

lemma replaced_tags_owner:
  assumes "t \<in> replaced_tags env p R"
  shows "\<exists>x\<in>set (mp_entries p). t \<in> entry_tags env (snd x) \<and> fst x \<in> set R"
proof -
  obtain h e where "h \<in> set R" "map_of (mp_entries p) h = Some e" "t \<in> entry_tags env e"
    using assms by (auto simp: replaced_tags_def replaced_entries_def map_filter_def entry_tags_def)
  then show ?thesis by (intro bexI [of _ "(h, e)"]) (auto dest: map_of_SomeD)
qed

lemma admit_result:
  assumes "pool_ok env p" "h = tx_hash (env_hash (pe_crypto env)) (env_ser (pe_crypto env)) tx" "map_of (mp_entries p) h = None"
    and "distinct (key_images tx)" "0 < tx_size (env_ser (pe_crypto env)) tx"
  shows "(\<exists>e. admit_after_checks env now tx h p = (Inl e, reject h e now p)) \<or>
    (\<exists>q. admit_after_checks env now tx h p = (Inr h, insert_entry env now tx h q) \<and> mp_max_size q = mp_max_size p \<and>
      pool_ok env (insert_entry env now tx h q))"
proof (cases "check_admission env tx p")
  case (Inl e)
  then show ?thesis by (simp add: admit_after_checks_def)
next
  case (Inr R)
  let ?E = "evict_loop env now (tx_size (env_ser (pe_crypto env)) tx) 0 (drop_all env ReplacedByFee now R p)"
  note P = pool_okD [OF assms(1)] and K = check_admission_ok [OF Inr] and E = admit_room [OF assms(1) Inr, of now]
  note Q = pool_okD [OF E(2)]
  have "set (key_images tx) \<inter> owned entry_images (mp_entries (snd ?E)) = {}"
    using survivors_disjoint [OF P(6) E(4)] collect_replaced_spec [OF K(3)] P(5) by simp
  moreover have "set (tags_or_default env tx) \<inter> owned (entry_tags env) (mp_entries (snd ?E)) = {}"
    by (rule survivors_disjoint [OF P(8) E(4)]) (use K(4) P(7) replaced_tags_owner in blast)
  moreover have "h \<notin> fst ` set (mp_entries (snd ?E))" using E(4) assms(3) by (force simp: map_of_eq_None_iff)
  ultimately have "pool_ok env (insert_entry env now tx h (snd ?E))"
    using pool_ok_insert [OF E(2) _ assms(2,4,5) K(1)] E(3) Q(5,7) by simp
  moreover have "mp_max_size (snd ?E) = mp_max_size p" by (simp add: evict_loop_max)
  ultimately show ?thesis using E(1) Inr by (auto simp: admit_after_checks_def Let_def split_beta)
qed

lemma preflight_ok:
  assumes "preflight_check env tx = Inr u"
  shows "distinct (key_images tx)" "0 < tx_size (env_ser (pe_crypto env)) tx" "\<not> is_coinbase tx"
  using assms
  by (auto simp: preflight_check_def validate_transaction_basic_def Let_def check_basic_size_def guard_err_def MIN_TX_SIZE_def
      split: if_splits)

lemma insert_entry_get: "map_of (mp_entries (insert_entry env now tx h q)) h = Some (mempool_entry_new env tx (mp_chain_height q) now)"
  by (simp add: insert_entry_def Let_def)

lemma insert_entry_max [simp]: "mp_max_size (insert_entry env now tx h q) = mp_max_size q"
  by (simp add: insert_entry_def Let_def)

text \<open>The three outcomes of \<open>add\<close>: nothing but the audit log changes, nothing changes, or the entry is in.\<close>

lemma mempool_add_cases:
  fixes env :: "'g::ab_group_add pool_env"
  assumes "pool_ok env p"
    and h: "h = tx_hash (env_hash (pe_crypto env)) (env_ser (pe_crypto env)) tx"
  obtains (rejected) e c' where "mempool_add env now tx (p, c) = (Inl e, reject h e now p, c')"
    | (known) "mempool_add env now tx (p, c) = (Inr h, p, c)" "pool_contains h p"
    | (admitted) q c' where "mempool_add env now tx (p, c) = (Inr h, insert_entry env now tx h q, c')"
      "pool_ok env (insert_entry env now tx h q)" "mp_max_size q = mp_max_size p"
proof (cases "preflight_check env tx")
  case (Inl e)
  then show thesis using rejected [of e c] by (simp add: mempool_add_def h)
next
  case (Inr u)
  show thesis
  proof (cases "map_of (mp_entries p) h")
    case None
    obtain r c' where v: "verify_crypto_for_admission (pe_crypto env) now tx (mp_chain_height p) c = (r, c')" by fastforce
    show thesis
    proof (cases r)
      case (Inl e)
      then show thesis using rejected [of e c'] None v \<open>preflight_check env tx = Inr u\<close> by (simp add: mempool_add_def h [symmetric])
    next
      case r: (Inr u')
      have add: "mempool_add env now tx (p, c) = (case admit_after_checks env now tx h p of (r, p) \<Rightarrow> (r, p, c'))"
        using None v r Inr by (simp add: mempool_add_def h [symmetric])
      from admit_result [OF assms(1) h None preflight_ok(1,2) [OF Inr], of now]
      consider e where "admit_after_checks env now tx h p = (Inl e, reject h e now p)"
        | q where "admit_after_checks env now tx h p = (Inr h, insert_entry env now tx h q)" "mp_max_size q = mp_max_size p"
          "pool_ok env (insert_entry env now tx h q)" by blast
      then show thesis
      proof cases
        case (1 e)
        then show thesis using rejected [of e c'] add by simp
      next
        case (2 q)
        then show thesis using admitted [of q c'] add by simp
      qed
    qed
  next
    case (Some e)
    then show thesis using known Inr by (simp add: mempool_add_def h [symmetric] pool_contains_def)
  qed
qed

section \<open>Runs of the mempool\<close>

datatype mempool_op =
    POp_add nat transaction
  | POp_add_with_chain nat chain_view transaction
  | POp_restore nat "(chain_view \<times> transaction) list"
  | POp_load nat "bytes \<Rightarrow> transaction list option" "bytes option"
  | POp_remove hash
  | POp_set_height nat nat
  | POp_expire nat nat
  | POp_confirmed nat "transaction list"
  | POp_shadow nat "transaction \<Rightarrow> bool" "transaction \<Rightarrow> bool"
  | POp_conflicts "key_image list"
  | POp_clear
  | POp_clear_audit

fun mempool_step :: "'g::ab_group_add pool_env \<Rightarrow> mempool_op \<Rightarrow> mempool \<times> verification_cache \<Rightarrow> mempool \<times> verification_cache" where
  "mempool_step env (POp_add now tx) s = snd (mempool_add env now tx s)"
| "mempool_step env (POp_add_with_chain now v tx) s = snd (add_with_chain env now v tx s)"
| "mempool_step env (POp_restore now txs) s = snd (restore_orphaned env now txs s)"
| "mempool_step env (POp_load now parse file) s = snd (load_from_disk env now parse file s)"
| "mempool_step env (POp_remove h) s = apfst (\<lambda>p. snd (remove_tx env h p)) s"
| "mempool_step env (POp_set_height now h) s = apfst (set_height env now h) s"
| "mempool_step env (POp_expire now age) s = apfst (\<lambda>p. snd (expire_old env now age p)) s"
| "mempool_step env (POp_confirmed now txs) s = apfst (remove_confirmed env now txs) s"
| "mempool_step env (POp_shadow now ok un) s = apfst (shadow_evict_invalid env now ok un) s"
| "mempool_step env (POp_conflicts kis) s = apfst (remove_conflicts env kis) s"
| "mempool_step env POp_clear s = apfst mempool_clear s"
| "mempool_step env POp_clear_audit s = apfst clear_audit_log s"

definition mempool_inv :: "'g pool_env \<Rightarrow> nat \<Rightarrow> mempool \<times> verification_cache \<Rightarrow> bool" where
  "mempool_inv env m s \<longleftrightarrow> pool_ok env (fst s) \<and> mp_max_size (fst s) = m"

lemma mempool_inv_add:
  assumes "mempool_inv env m s"
  shows "mempool_inv env m (snd (mempool_add env now tx s))"
proof -
  obtain p c where s: "s = (p, c)" by (cases s)
  have p: "pool_ok env p" "mp_max_size p = m" using assms s by (simp_all add: mempool_inv_def)
  from p(1) refl show ?thesis unfolding s
    by (rule mempool_add_cases [where now = now and tx = tx and c = c]) (simp_all add: mempool_inv_def reject_def p)
qed

lemma mempool_inv_retry:
  assumes "\<And>i g s. I s \<Longrightarrow> I (snd (attempt i g s))" "I s"
  shows "I (snd (retry_loop k i gen attempt s))"
  using assms(2)
proof (induction k arbitrary: i s)
  case (Suc k)
  show ?case
  proof (cases "gen i")
    case (Some g)
    obtain a s' where a: "attempt i g s = (a, s')" by fastforce
    then have "I s'" using assms(1) [OF Suc.prems, of i g] by simp
    then show ?thesis using Some a Suc.IH by (cases a) simp_all
  qed (simp add: Suc)
qed simp

lemma mempool_inv_attempt: "mempool_inv env m s \<Longrightarrow> mempool_inv env m (snd (try_admission env now v tx i g s))"
  by (cases "cv_verdict v i tx") (simp_all add: try_admission_def split_beta mempool_inv_add)

lemma mempool_inv_add_with_chain:
  assumes "mempool_inv env m s"
  shows "mempool_inv env m (snd (add_with_chain env now v tx s))"
proof (cases "preflight_check env tx")
  case (Inr u)
  have "mempool_inv env m (snd (retry_loop k i gen (try_admission env now v tx) s))" for k i gen
    using mempool_inv_attempt assms by (rule mempool_inv_retry)
  then show ?thesis using Inr by (simp add: add_with_chain_def retry_stable_admission_def)
qed (simp add: add_with_chain_def assms)

lemma mempool_inv_restore: "mempool_inv env m s \<Longrightarrow> mempool_inv env m (snd (restore_orphaned env now txs s))"
proof (induction txs arbitrary: s)
  case (Cons x txs)
  obtain v tx where "x = (v, tx)" by (cases x)
  then show ?case using Cons.IH [OF mempool_inv_add_with_chain [OF Cons.prems]] by (simp add: split_beta Let_def)
qed simp

lemma mempool_inv_load: "mempool_inv env m s \<Longrightarrow> mempool_inv env m (snd (load_loop env now txs s))"
proof (induction txs arbitrary: s)
  case (Cons tx txs)
  then show ?case using Cons.IH [OF mempool_inv_add [OF Cons.prems]] by (simp add: split_beta Let_def)
qed simp

lemma mempool_inv_load_from_disk:
  assumes "mempool_inv env m s"
  shows "mempool_inv env m (snd (load_from_disk env now parse file s))"
  using assms mempool_inv_load [OF assms]
  by (simp add: load_from_disk_def split_beta split: option.split)

lemma remove_all_max: "mp_max_size (fold (\<lambda>h p. snd (remove_tx env h p)) hs p) = mp_max_size p"
  by (induction hs arbitrary: p) simp_all

lemma pool_ok_empty: "pool_ok env (with_max_size m)"
  by (simp add: pool_ok_def with_max_size_def owned_def separate_def entries_size_def)

lemma pool_ok_clear: "pool_ok env (mempool_clear p)" "pool_ok env (clear_audit_log p) = pool_ok env p"
  by (simp_all add: pool_ok_def mempool_clear_def clear_audit_log_def owned_def separate_def entries_size_def)

lemma pool_ok_height: "pool_ok env (p\<lparr>mp_chain_height := h\<rparr>) = pool_ok env p"
  by (simp add: pool_ok_def)

lemmas pool_removals = set_height_def expire_old_transactions_def expire_old_def remove_confirmed_def shadow_evict_invalid_def
  remove_conflicts_def

lemma mempool_inv_step:
  assumes "mempool_inv env m s"
  shows "mempool_inv env m (mempool_step env x s)"
proof -
  have p: "pool_ok env (fst s)" "mp_max_size (fst s) = m" using assms by (simp_all add: mempool_inv_def)
  show ?thesis
  proof (cases x)
    case (POp_conflicts kis)
    then show ?thesis using p by (simp add: mempool_inv_def pool_removals pool_ok_fold_remove remove_all_max)
  next
    case POp_clear
    then show ?thesis using p by (simp add: mempool_inv_def pool_ok_clear) (simp add: mempool_clear_def)
  next
    case POp_clear_audit
    then show ?thesis using p by (simp add: mempool_inv_def pool_ok_clear) (simp add: clear_audit_log_def)
  qed (use assms p in \<open>simp_all add: mempool_inv_add mempool_inv_add_with_chain mempool_inv_restore mempool_inv_load_from_disk,
      simp_all add: mempool_inv_def pool_removals pool_ok_drop_all pool_ok_remove pool_ok_height Let_def\<close>)
qed

interpretation pool: invariant_machine
  "\<lambda>s. fst s = with_max_size m" "mempool_step env" "mempool_inv env m" for env m
proof unfold_locales
  fix s :: "mempool \<times> verification_cache"
  assume "fst s = with_max_size m"
  moreover have "mp_max_size (with_max_size m) = m" by (simp add: with_max_size_def)
  ultimately show "mempool_inv env m s" by (simp add: mempool_inv_def pool_ok_empty)
qed (rule mempool_inv_step)

section \<open>Block templates\<close>

definition entry_key :: "mempool_entry \<Rightarrow> nat \<times> hash" where
  "entry_key e = (me_fee_per_byte e, me_hash e)"

lemma select_limits:
  "n \<le> N \<Longrightarrow> n + length (select_loop env p S N cands n t kis tags) \<le> N"
  "t \<le> S \<Longrightarrow> t + sum_list (map me_size (select_loop env p S N cands n t kis tags)) \<le> S"
  by (induction env p S N cands n t kis tags rule: select_loop.induct)
    (auto simp: not_le add.assoc [symmetric] split: option.split)

lemma select_images:
  assumes "list_all (entry_ok env) (mp_entries p)"
  shows "distinct (concat (map (\<lambda>e. key_images (me_tx e)) (select_loop env p S N cands n t kis tags))) \<and>
    (\<forall>e\<in>set (select_loop env p S N cands n t kis tags). entry_images e \<inter> kis = {})"
  using assms
proof (induction env p S N cands n t kis tags rule: select_loop.induct)
  case (2 env p S N rate h cands n t kis tags)
  show ?case
  proof (cases "map_of (mp_entries p) h")
    case (Some e)
    have "distinct (key_images (me_tx e))"
      using 2(4) map_of_SomeD [OF Some] by (auto simp: list_all_iff entry_ok_def)
    then show ?thesis using 2(2-4) Some by (auto simp: entry_images_def list_ex_iff)
  qed (use 2 in simp)
qed simp

lemma select_tags:
  "sorted_wrt (\<lambda>a b. entry_tags env a \<inter> entry_tags env b = {}) (select_loop env p S N cands n t kis tags) \<and>
   (\<forall>e\<in>set (select_loop env p S N cands n t kis tags). entry_tags env e \<inter> tags = {})"
proof (induction env p S N cands n t kis tags rule: select_loop.induct)
  case (2 env p S N rate h cands n t kis tags)
  then show ?case by (cases "map_of (mp_entries p) h") (auto simp: entry_tags_def list_ex_iff)
qed simp

lemma select_subseq:
  assumes "pool_ok env p" "set cands \<subseteq> set (by_fee p)"
  shows "subseq (map entry_key (select_loop env p S N cands n t kis tags)) cands \<and>
    set (select_loop env p S N cands n t kis tags) \<subseteq> snd ` set (mp_entries p)"
  using assms
proof (induction env p S N cands n t kis tags rule: select_loop.induct)
  case (2 env p S N rate h cands n t kis tags)
  obtain e where e: "map_of (mp_entries p) h = Some e" "me_fee_per_byte e = rate"
    using by_fee_entry [OF 2(4)] 2(5) by (metis list.set_intros(1) subset_code(1))
  then have "(h, e) \<in> set (mp_entries p)" by (simp add: map_of_SomeD)
  moreover from this have "me_hash e = h" using pool_okD(2) [OF 2(4)] by (auto simp: list_all_iff entry_ok_def)
  ultimately show ?case using 2 e by (auto simp: entry_key_def image_iff intro: bexI [of _ "(h, e)"])
qed simp

lemma images_distinct:
  assumes "distinct (map fst es)" "list_all (entry_ok env) es" "separate entry_images es"
  shows "distinct (concat (map (\<lambda>x. key_images (me_tx (snd x))) es))"
  using assms
proof (induction es)
  case (Cons x es)
  have h: "fst x \<notin> fst ` set es" using Cons.prems(1) by simp
  have "set (x # es) = insert (fst x, snd x) (set es)" by simp
  from separate_insert [OF this h, of entry_images]
  have "entry_images (snd x) \<inter> owned entry_images es = {}" "separate entry_images es" using Cons.prems(3) by blast+
  moreover have "distinct (key_images (me_tx (snd x)))" using Cons.prems(2) by (simp add: entry_ok_def)
  moreover have "distinct (concat (map (\<lambda>x. key_images (me_tx (snd x))) es))"
    using Cons.IH Cons.prems(1,2) calculation(2) by simp
  ultimately show ?case by (auto simp: entry_images_def owned_def)
qed simp

text \<open>
  A percentile of a pool that holds anything is at least a million times the floor that an
  empty pool reports: the rates are in millionths of a unit per byte, the floor is in units.
\<close>

lemma fee_percentiles_scaled:
  assumes "pool_ok env p" "mp_entries p \<noteq> []"
  shows "MIN_FEE_PER_BYTE * 1000000 \<le> fp25 (fee_percentiles p)"
proof -
  have "length (by_fee p) = length (mp_entries p)" using pool_okD(4) [OF assms(1)] by (metis length_map size_mset)
  then have n: "0 < length (by_fee p)" using assms(2) by simp
  let ?i = "min (length (by_fee p) * 25 div 100) (length (by_fee p) - 1)"
  have i: "?i < length (by_fee p)" using n by simp
  have "by_fee p ! ?i \<in> fee_key ` set (mp_entries p)" using nth_mem [OF i] by (simp only: by_fee_set [OF assms(1)])
  then obtain x where "x \<in> set (mp_entries p)" "by_fee p ! ?i = fee_key x" by blast
  then have "MIN_FEE_PER_BYTE * 1000000 \<le> fst (by_fee p ! ?i)"
    using pool_okD(2) [OF assms(1)] by (simp add: list_all_iff entry_ok_def fee_key_def)
  then show ?thesis using assms(2) i by (simp add: fee_percentiles_def Let_def nth_map)
qed

lemma hash_distinct:
  assumes "pool_ok env p" "set r \<subseteq> snd ` set (mp_entries p)" "distinct (map entry_key r)"
  shows "distinct (map me_hash r)"
proof -
  have "e = e'" if r: "e \<in> set r" "e' \<in> set r" "me_hash e = me_hash e'" for e e'
  proof -
    obtain x y where "x \<in> set (mp_entries p)" "e = snd x" "y \<in> set (mp_entries p)" "e' = snd y" using r(1,2) assms(2) by blast
    then show ?thesis using pool_okD(1,2) [OF assms(1)] r(3)
      by (auto simp: list_all_iff entry_ok_def) (metis eq_key_imp_eq_value prod.collapse)
  qed
  then show ?thesis using assms(3) by (auto simp: distinct_map inj_on_def)
qed

lemma subseq_keeps:
  "subseq xs ys \<Longrightarrow> set xs \<subseteq> set ys \<and> (distinct ys \<longrightarrow> distinct xs) \<and> (sorted_wrt P ys \<longrightarrow> sorted_wrt P xs)"
  by (induction rule: list_emb.induct) auto

lemma sorted_map_fst: "sorted xs \<Longrightarrow> sorted (map fst (xs :: (nat \<times> hash) list))"
  by (induction xs) (auto simp: less_eq_prod_def)

lemma template_ok:
  fixes env :: "'g pool_env"
  assumes p: "pool_ok env p"
  defines "H \<equiv> tx_hash (env_hash (pe_crypto env)) (env_ser (pe_crypto env))"
  shows "sum_list (map (tx_size (env_ser (pe_crypto env))) (get_block_transactions env S N p)) \<le> S"
    and "set (get_block_transactions env S N p) \<subseteq> me_tx ` snd ` set (mp_entries p)"
    and "sorted (rev (map me_fee_per_byte (select_entries env S N p)))"
    and "distinct (map H (get_block_transactions env S N p))"
proof -
  let ?r = "select_entries env S N p"
  have sub: "subseq (map entry_key ?r) (rev (by_fee p))" "set ?r \<subseteq> snd ` set (mp_entries p)"
    unfolding select_entries_def using select_subseq [OF p, of "rev (by_fee p)"] by simp_all
  then show "set (get_block_transactions env S N p) \<subseteq> me_tx ` snd ` set (mp_entries p)"
    by (simp add: get_block_transactions_def image_mono)
  have ok: "me_size e = tx_size (env_ser (pe_crypto env)) (me_tx e)" "H (me_tx e) = me_hash e" if r: "e \<in> set ?r" for e
  proof -
    obtain x where "x \<in> set (mp_entries p)" "e = snd x" using r sub(2) by blast
    then show "me_size e = tx_size (env_ser (pe_crypto env)) (me_tx e)" "H (me_tx e) = me_hash e"
      using pool_okD(2) [OF p] by (simp_all add: list_all_iff entry_ok_def H_def)
  qed
  have "map (tx_size (env_ser (pe_crypto env))) (map me_tx ?r) = map me_size ?r" using ok(1) by simp
  then show "sum_list (map (tx_size (env_ser (pe_crypto env))) (get_block_transactions env S N p)) \<le> S"
    using select_limits(2) [of 0 S env p N "rev (by_fee p)" 0 "{}" "{}"]
    by (simp only: get_block_transactions_def select_entries_def) simp
  have "sorted_wrt (\<lambda>a b. b \<le> a) (rev (by_fee p))" "distinct (rev (by_fee p))"
    using pool_okD(3) [OF p] by_fee_distinct [OF p] by (simp_all add: sorted_wrt_rev)
  then have "sorted_wrt (\<lambda>a b. b \<le> a) (map entry_key ?r)" and d: "distinct (map entry_key ?r)"
    using subseq_keeps [OF sub(1)] by blast+
  then have s: "sorted (rev (map entry_key ?r))" by (simp add: sorted_wrt_rev)
  have "rev (map me_fee_per_byte ?r) = map fst (rev (map entry_key ?r))" by (simp add: rev_map entry_key_def)
  then show "sorted (rev (map me_fee_per_byte ?r))" using s sorted_map_fst by simp
  have "map H (get_block_transactions env S N p) = map me_hash ?r" using ok(2) by (simp add: get_block_transactions_def)
  then show "distinct (map H (get_block_transactions env S N p))" using hash_distinct [OF p sub(2) d] by simp
qed

definition pool_after :: "'g::ab_group_add pool_env \<Rightarrow> mempool_op list \<Rightarrow> nat \<Rightarrow> verification_cache \<Rightarrow> mempool \<times> verification_cache" where
  "pool_after env ops m c = fold (mempool_step env) ops (with_max_size m, c)"

lemma pool_after_ok: "pool_ok env (fst (pool_after env ops m c))" "mp_max_size (fst (pool_after env ops m c)) = m"
  using pool.reachable_inv [of "(with_max_size m, c)" m env ops] by (simp_all add: mempool_inv_def pool_after_def)

section \<open>Properties\<close>

text \<open>
  C11 (every run keeps the mempool consistent). Start from an empty mempool of any capacity and
  apply any sequence of additions, chain-checked additions, restorations, loads, removals,
  expiries, confirmations, evictions and clears. The fee index then lists exactly the entries
  in order of fee rate, the sets of key images and linking tags are exactly those of the
  entries, and no two entries share one. The tracked size is the sum of the entries' sizes and
  is within the capacity.
\<close>

theorem mempool_stays_consistent:
  "pool_ok env (fst (pool_after env ops m c)) \<and> verify_size_invariant (fst (pool_after env ops m c)) \<and>
   mp_current_size (fst (pool_after env ops m c)) \<le> m \<and>
   distinct (concat (map (\<lambda>x. key_images (me_tx (snd x))) (mp_entries (fst (pool_after env ops m c)))))"
  using pool_okD [OF pool_after_ok(1) [of env ops m c]] pool_after_ok [of env ops m c]
    images_distinct [of "mp_entries (fst (pool_after env ops m c))" env]
  by (simp add: verify_size_invariant_def entries_size_def)

text \<open>
  C12 (an addition succeeds or changes nothing). In every reachable mempool, an addition that
  fails leaves all of the mempool but its audit log as it was: no transaction is replaced or
  evicted for one that is then refused. An addition that succeeds returns the transaction's
  hash, which the mempool then holds, within its capacity; either it held the hash before and
  is unchanged, or it now maps the hash to the transaction.
\<close>

theorem add_succeeds_or_changes_nothing:
  "case mempool_add env now tx (pool_after env ops m c) of
      (Inl e, p', c') \<Rightarrow> p' = reject (tx_hash (env_hash (pe_crypto env)) (env_ser (pe_crypto env)) tx) e now
        (fst (pool_after env ops m c))
    | (Inr h, p', c') \<Rightarrow> h = tx_hash (env_hash (pe_crypto env)) (env_ser (pe_crypto env)) tx \<and> pool_contains h p' \<and>
        mp_current_size p' \<le> m \<and> (p' = fst (pool_after env ops m c) \<or> pool_get h p' = Some tx)"
proof -
  obtain p c1 where s: "pool_after env ops m c = (p, c1)" by fastforce
  then have p: "pool_ok env p" "mp_max_size p = m" using pool_after_ok [of env ops m c] by simp_all
  show ?thesis
  proof (cases rule: mempool_add_cases [OF p(1) refl, where now = now and tx = tx and c = c1])
    case 2
    then show ?thesis using pool_okD(10) [OF p(1)] p(2) by (simp add: s)
  next
    case (3 q c')
    then show ?thesis using pool_okD(10) [OF 3(2)] p(2)
      by (simp add: s pool_contains_def pool_get_def insert_entry_get) (simp add: mempool_entry_new_def Let_def)
  qed (simp add: s)
qed

text \<open>
  C13 (a block template is admissible). The transactions a reachable mempool offers for a block
  are at most the asked number and within the asked size, come from the mempool in descending
  order of fee rate, have distinct hashes and distinct key images, and share no linking tag:
  the checks of a block for repeated hashes and key images pass on them.
\<close>

theorem template_admissible:
  "length (get_block_transactions env S N (fst (pool_after env ops m c))) \<le> N \<and>
   sum_list (map (tx_size (env_ser (pe_crypto env))) (get_block_transactions env S N (fst (pool_after env ops m c)))) \<le> S \<and>
   set (get_block_transactions env S N (fst (pool_after env ops m c))) \<subseteq> me_tx ` snd ` set (mp_entries (fst (pool_after env ops m c))) \<and>
   sorted (rev (map me_fee_per_byte (select_entries env S N (fst (pool_after env ops m c))))) \<and>
   distinct (map (tx_hash (env_hash (pe_crypto env)) (env_ser (pe_crypto env)))
     (get_block_transactions env S N (fst (pool_after env ops m c)))) \<and>
   distinct (concat (map key_images (get_block_transactions env S N (fst (pool_after env ops m c))))) \<and>
   sorted_wrt (\<lambda>a b. set (tags_or_default env a) \<inter> set (tags_or_default env b) = {})
     (get_block_transactions env S N (fst (pool_after env ops m c)))"
proof -
  let ?p = "fst (pool_after env ops m c)"
  note p = pool_after_ok(1) [of env ops m c]
  have "length (get_block_transactions env S N ?p) \<le> N"
    using select_limits(1) [of 0 N env ?p S "rev (by_fee ?p)" 0 "{}" "{}"] by (simp add: get_block_transactions_def select_entries_def)
  moreover have "distinct (concat (map key_images (get_block_transactions env S N ?p)))"
    using select_images [OF pool_okD(2) [OF p], of S N "rev (by_fee ?p)" 0 0 "{}" "{}"]
    by (simp add: get_block_transactions_def select_entries_def comp_def)
  moreover have "sorted_wrt (\<lambda>a b. set (tags_or_default env a) \<inter> set (tags_or_default env b) = {}) (get_block_transactions env S N ?p)"
    using select_tags [of env ?p S N "rev (by_fee ?p)" 0 0 "{}" "{}"]
    by (simp add: get_block_transactions_def select_entries_def sorted_wrt_map entry_tags_def)
  ultimately show ?thesis using template_ok [OF p, of S N] by blast
qed

end
