(* ===== verification/Rolling_Finality.thy ===== *)
theory Rolling_Finality
  imports Hashes "HOL-Library.AList"
begin

text \<open>
  The rolling-finality crate \<^verbatim>\<open>crates/coincync-rolling-finality\<close>: the active
  miner set, attestations and the tracker that advances the soft-final height. The
  signature check is the parameter \<open>verify\<close>. The lemmas give the tracker's invariant over
  any sequence of blocks and attestations, that finality never moves back, the
  intersection of quorums, and how the active set of a past height erodes.
\<close>

section \<open>The active miner set\<close>

type_synonym miner_pubkey = bytes
type_synonym block_hash = bytes

record miner_record =
  first_seen_height :: nat
  last_seen_height :: nat

record active_miner_set =
  miners :: "(miner_pubkey \<times> miner_record) list"
  ams_window :: nat

definition ams_new :: "nat \<Rightarrow> active_miner_set option" where
  "ams_new window = (if 0 < window then Some \<lparr>miners = [], ams_window = window\<rparr> else None)"

definition ams_record_block :: "active_miner_set \<Rightarrow> miner_pubkey \<Rightarrow> nat \<Rightarrow> active_miner_set" where
  "ams_record_block ams miner height =
     (case map_of (miners ams) miner of
        Some r \<Rightarrow>
          if last_seen_height r < height
          then ams\<lparr>miners := AList.update miner (r\<lparr>last_seen_height := height\<rparr>) (miners ams)\<rparr>
          else ams
      | None \<Rightarrow>
          ams\<lparr>miners := AList.update miner
            \<lparr>first_seen_height = height, last_seen_height = height\<rparr> (miners ams)\<rparr>)"

definition is_active_record :: "miner_record \<Rightarrow> nat \<Rightarrow> nat \<Rightarrow> bool" where
  "is_active_record r at_height window =
     (if at_height < first_seen_height r then False
      else if at_height - first_seen_height r < window then True
      else if last_seen_height r \<le> at_height \<and> at_height - last_seen_height r < window then True
      else False)"

definition is_active :: "active_miner_set \<Rightarrow> miner_pubkey \<Rightarrow> nat \<Rightarrow> bool" where
  "is_active ams miner at_height =
     (case map_of (miners ams) miner of
        Some r \<Rightarrow> is_active_record r at_height (ams_window ams)
      | None \<Rightarrow> False)"

definition active_count :: "active_miner_set \<Rightarrow> nat \<Rightarrow> nat" where
  "active_count ams at_height =
     length (filter (\<lambda>r. is_active_record r at_height (ams_window ams)) (map snd (miners ams)))"

definition active_miners :: "active_miner_set \<Rightarrow> nat \<Rightarrow> miner_pubkey list" where
  "active_miners ams at_height =
     map fst (filter (\<lambda>(_, r). is_active_record r at_height (ams_window ams)) (miners ams))"

section \<open>Attestations and the tracker\<close>

record finality_attestation =
  miner_pubkey :: miner_pubkey
  target_height :: nat
  target_hash :: block_hash
  att_signature :: bytes

definition str_bytes :: "string \<Rightarrow> bytes" where
  "str_bytes s = map of_char s"

definition signing_bytes :: "finality_attestation \<Rightarrow> bytes" where
  "signing_bytes a = str_bytes ''CYNC.CIP-009-D.'' @ [0] @ le_bytes 8 (target_height a) @ target_hash a"

datatype finality_error =
    FE_InvalidSignature
  | FutureTarget nat nat
  | StaleTarget nat nat
  | MinerNotActive nat
  | DuplicateAttestation nat
  | FE_Internal string

datatype apply_outcome = Accepted | NewlyFinalized nat block_hash

record finality_tracker =
  min_quorum :: nat
  lag :: nat
  stale_horizon :: nat
  active_set :: active_miner_set
  chain_tip :: nat
  attestations :: "nat \<rightharpoonup> (block_hash \<rightharpoonup> miner_pubkey set)"
  soft_final_height :: "nat option"
  total_recorded :: nat

definition with_params :: "nat \<Rightarrow> nat \<Rightarrow> nat \<Rightarrow> nat \<Rightarrow> finality_tracker option" where
  "with_params window lg quorum horizon =
     (case ams_new window of
        None \<Rightarrow> None
      | Some ams \<Rightarrow> Some \<lparr>min_quorum = quorum, lag = lg, stale_horizon = horizon, active_set = ams,
          chain_tip = 0, attestations = Map.empty, soft_final_height = None, total_recorded = 0\<rparr>)"

definition new_default :: "finality_tracker option" where
  "new_default = with_params 10000 100 5 10000"

definition prune_stale_attestations :: "finality_tracker \<Rightarrow> finality_tracker" where
  "prune_stale_attestations t =
     (let earliest_keep = sat_sub (chain_tip t) (stale_horizon t)
      in t\<lparr>attestations := (\<lambda>h. if earliest_keep \<le> h then attestations t h else None)\<rparr>)"

definition record_block :: "miner_pubkey \<Rightarrow> nat \<Rightarrow> finality_tracker \<Rightarrow> finality_tracker" where
  "record_block miner block_height t =
     (let t = t\<lparr>active_set := ams_record_block (active_set t) miner block_height\<rparr>
      in if chain_tip t < block_height
         then prune_stale_attestations (t\<lparr>chain_tip := block_height\<rparr>) else t)"

definition ceil_two_thirds :: "nat \<Rightarrow> nat" where
  "ceil_two_thirds n = sat_add64 (sat_mul64 n 2) 2 div 3"

definition or_default :: "'a option \<Rightarrow> 'a \<Rightarrow> 'a" where
  "or_default x d = (case x of Some v \<Rightarrow> v | None \<Rightarrow> d)"

definition signers :: "finality_tracker \<Rightarrow> nat \<Rightarrow> block_hash \<Rightarrow> miner_pubkey set" where
  "signers t h hash = or_default (or_default (attestations t h) Map.empty hash) {}"

definition signer_count :: "finality_tracker \<Rightarrow> nat \<Rightarrow> block_hash \<Rightarrow> nat" where
  "signer_count t h hash =
     (case attestations t h of
        None \<Rightarrow> 0
      | Some hs \<Rightarrow> (case hs hash of None \<Rightarrow> 0 | Some s \<Rightarrow> card s))"

definition apply_attestation ::
  "(finality_attestation \<Rightarrow> bool) \<Rightarrow> finality_attestation \<Rightarrow> finality_tracker \<Rightarrow>
   (finality_error + apply_outcome) \<times> finality_tracker" where
  "apply_attestation verify a t =
     (let h = target_height a; hash = target_hash a;
          earliest_accepted = sat_sub (chain_tip t) (stale_horizon t)
      in if \<not> verify a then (Inl FE_InvalidSignature, t)
         else if chain_tip t < h then (Inl (FutureTarget h (chain_tip t)), t)
         else if h < earliest_accepted then (Inl (StaleTarget h earliest_accepted), t)
         else if \<not> is_active (active_set t) (miner_pubkey a) h then (Inl (MinerNotActive h), t)
         else
           let height_entry = or_default (attestations t h) Map.empty;
               hash_entry = or_default (height_entry hash) {}
           in if miner_pubkey a \<in> hash_entry then (Inl (DuplicateAttestation h), t)
              else
                let hash_entry = insert (miner_pubkey a) hash_entry;
                    t = t\<lparr>attestations := (attestations t)(h \<mapsto> height_entry(hash \<mapsto> hash_entry)),
                          total_recorded := total_recorded t + 1\<rparr>;
                    count = active_count (active_set t) h
                in if count < min_quorum t then (Inr Accepted, t)
                   else if ceil_two_thirds count \<le> card hash_entry \<and>
                        (case soft_final_height t of Some current \<Rightarrow> current < h | None \<Rightarrow> True)
                   then (Inr (NewlyFinalized h hash), t\<lparr>soft_final_height := Some h\<rparr>)
                   else (Inr Accepted, t))"

definition would_reorg_violate_finality :: "finality_tracker \<Rightarrow> nat \<Rightarrow> bool" where
  "would_reorg_violate_finality t proposed_fork_height =
     (case soft_final_height t of Some soft_final \<Rightarrow> proposed_fork_height \<le> soft_final | None \<Rightarrow> False)"

datatype tracker_op = RecordBlock bytes nat | ApplyAttestation finality_attestation

fun tracker_step :: "(finality_attestation \<Rightarrow> bool) \<Rightarrow> tracker_op \<Rightarrow> finality_tracker \<Rightarrow> finality_tracker" where
  "tracker_step verify (RecordBlock m h) t = record_block m h t"
| "tracker_step verify (ApplyAttestation a) t = snd (apply_attestation verify a t)"

section \<open>The invariant\<close>

definition miners_ok :: "nat \<Rightarrow> active_miner_set \<Rightarrow> bool" where
  "miners_ok tip ams \<longleftrightarrow> distinct (map fst (miners ams)) \<and>
     (\<forall>(m, r) \<in> set (miners ams). first_seen_height r \<le> last_seen_height r \<and> last_seen_height r \<le> tip)"

definition tracker_inv :: "finality_tracker \<Rightarrow> bool" where
  "tracker_inv t \<longleftrightarrow> miners_ok (chain_tip t) (active_set t) \<and>
     (\<forall>h hs. attestations t h = Some hs \<longrightarrow> h \<le> chain_tip t \<and> chain_tip t - stale_horizon t \<le> h) \<and>
     (\<forall>h hash. finite (signers t h hash) \<and> signers t h hash \<subseteq> fst ` set (miners (active_set t))) \<and>
     (\<forall>s. soft_final_height t = Some s \<longrightarrow> s \<le> chain_tip t)"

lemma or_default_simps [simp]: "or_default (Some v) d = v" "or_default None d = d"
  by (simp_all add: or_default_def)

lemma signer_count_card: "signer_count t h hash = card (signers t h hash)"
  by (simp add: signer_count_def signers_def split: option.splits)

lemma miners_ok_record:
  assumes "miners_ok tip ams"
  shows "miners_ok (max tip h) (ams_record_block ams m h)"
proof -
  have "first_seen_height r \<le> last_seen_height r" if "map_of (miners ams) m = Some r" for r
    using assms map_of_SomeD [OF that] by (auto simp: miners_ok_def)
  moreover have "set (AList.update m v xs) \<subseteq> insert (m, v) (set xs)" for v and xs :: "(bytes \<times> miner_record) list"
    by (induction xs) auto
  ultimately show ?thesis using assms
    by (fastforce simp: miners_ok_def ams_record_block_def distinct_update split: option.splits)
qed

lemma ams_record_block_keys:
  "fst ` set (miners ams) \<subseteq> fst ` set (miners (ams_record_block ams m h))"
  by (auto simp: ams_record_block_def dom_update split: option.splits)

lemma apply_attestation_cases:
  obtains "snd (apply_attestation verify a t) = t" "\<exists>e. fst (apply_attestation verify a t) = Inl e"
  | hs out soft where
    "apply_attestation verify a t = (Inr out, t\<lparr>attestations := (attestations t)(target_height a \<mapsto> hs),
        total_recorded := total_recorded t + 1, soft_final_height := soft\<rparr>)"
    "hs = (or_default (attestations t (target_height a)) Map.empty)
        (target_hash a \<mapsto> insert (miner_pubkey a) (signers t (target_height a) (target_hash a)))"
    "target_height a \<le> chain_tip t" "chain_tip t - stale_horizon t \<le> target_height a"
    "is_active (active_set t) (miner_pubkey a) (target_height a)"
    "out = Accepted \<and> soft = soft_final_height t \<or>
     out = NewlyFinalized (target_height a) (target_hash a) \<and> soft = Some (target_height a) \<and>
       (\<forall>s. soft_final_height t = Some s \<longrightarrow> s < target_height a) \<and>
       min_quorum t \<le> active_count (active_set t) (target_height a) \<and>
       ceil_two_thirds (active_count (active_set t) (target_height a))
         \<le> card (insert (miner_pubkey a) (signers t (target_height a) (target_hash a)))"
proof -
  let ?h = "target_height a" and ?t = "snd (apply_attestation verify a t)"
  show thesis
  proof (cases "verify a \<and> ?h \<le> chain_tip t \<and> sat_sub (chain_tip t) (stale_horizon t) \<le> ?h \<and>
      is_active (active_set t) (miner_pubkey a) ?h \<and> miner_pubkey a \<notin> signers t ?h (target_hash a)")
    case False
    then show thesis
      by (intro that(1)) (auto simp: apply_attestation_def Let_def signers_def)
  next
    case True
    define fin where "fin \<longleftrightarrow> min_quorum t \<le> active_count (active_set t) ?h \<and>
       ceil_two_thirds (active_count (active_set t) ?h) \<le> card (insert (miner_pubkey a) (signers t ?h (target_hash a))) \<and>
       (case soft_final_height t of Some current \<Rightarrow> current < ?h | None \<Rightarrow> True)"
    show thesis
      by (rule that(2) [where soft = "if fin then Some ?h else soft_final_height t" and
            out = "if fin then NewlyFinalized ?h (target_hash a) else Accepted"])
        (use True in \<open>auto simp: apply_attestation_def Let_def signers_def sat_sub_def fin_def
            split: if_splits option.splits\<close>)
  qed
qed

lemma tracker_inv_apply:
  assumes "tracker_inv t"
  shows "tracker_inv (snd (apply_attestation verify a t))"
proof (cases rule: apply_attestation_cases [of verify a t])
  case 1
  then show ?thesis using assms by simp
next
  case (2 hs out soft)
  have key: "miner_pubkey a \<in> fst ` set (miners (active_set t))"
    using 2(5) by (auto simp: is_active_def split: option.splits dest!: map_of_SomeD)
      (metis fst_conv image_eqI)
  let ?t = "snd (apply_attestation verify a t)"
  have sig: "signers ?t h hash = (if h = target_height a \<and> hash = target_hash a
      then insert (miner_pubkey a) (signers t h hash) else signers t h hash)" for h hash
    using 2(1,2) by (simp add: signers_def)
  have "finite (signers ?t h hash) \<and> signers ?t h hash \<subseteq> fst ` set (miners (active_set t))" for h hash
    using assms key by (simp add: sig tracker_inv_def)
  moreover have "s \<le> chain_tip t" if "soft = Some s" for s
    using 2(3,6) that assms by (auto simp: tracker_inv_def)
  ultimately show ?thesis
    using assms 2(1,3,4) by (auto simp: tracker_inv_def split: if_splits)
qed

lemma tracker_inv_record:
  assumes "tracker_inv t"
  shows "tracker_inv (record_block m h t)"
proof -
  let ?ams = "ams_record_block (active_set t) m h"
  have ok: "miners_ok (max (chain_tip t) h) ?ams"
    using assms by (intro miners_ok_record) (simp add: tracker_inv_def)
  have keys: "fst ` set (miners (active_set t)) \<subseteq> fst ` set (miners ?ams)" by (rule ams_record_block_keys)
  have sig: "signers (record_block m h t) g hash \<subseteq> signers t g hash" for g hash
    by (auto simp: record_block_def prune_stale_attestations_def signers_def Let_def split: if_splits)
  have "finite (signers (record_block m h t) g hash) \<and>
      signers (record_block m h t) g hash \<subseteq> fst ` set (miners ?ams)" for g hash
    using sig [of g hash] keys assms by (meson finite_subset subset_trans tracker_inv_def)
  moreover have "active_set (record_block m h t) = ?ams" "chain_tip (record_block m h t) = max (chain_tip t) h"
    "soft_final_height (record_block m h t) = soft_final_height t"
    "stale_horizon (record_block m h t) = stale_horizon t"
    by (simp_all add: record_block_def prune_stale_attestations_def Let_def)
  moreover have "g \<le> max (chain_tip t) h \<and> max (chain_tip t) h - stale_horizon t \<le> g"
    if "attestations (record_block m h t) g = Some hs" for g hs
    using that assms
    by (auto simp: record_block_def prune_stale_attestations_def tracker_inv_def sat_sub_def Let_def
        split: if_splits)
  ultimately show ?thesis using ok assms by (auto simp: tracker_inv_def le_max_iff_disj)
qed

lemma tracker_inv_step: "tracker_inv t \<Longrightarrow> tracker_inv (tracker_step verify op t)"
  by (cases op) (simp_all add: tracker_inv_apply tracker_inv_record)

lemma tracker_inv_new: "with_params w l q hz = Some t \<Longrightarrow> tracker_inv t"
  by (auto simp: with_params_def ams_new_def tracker_inv_def miners_ok_def signers_def
      split: option.splits if_splits)

interpretation tracker: invariant_machine
  "\<lambda>t. \<exists>w l q hz. with_params w l q hz = Some t" "tracker_step verify" tracker_inv for verify
  by unfold_locales (auto intro: tracker_inv_new tracker_inv_step)

section \<open>Finality never moves back\<close>

definition soft_le :: "finality_tracker \<Rightarrow> finality_tracker \<Rightarrow> bool" where
  "soft_le t u \<longleftrightarrow> (\<forall>s. soft_final_height t = Some s \<longrightarrow> (\<exists>s'. soft_final_height u = Some s' \<and> s \<le> s'))"

lemma soft_le_step: "soft_le t (tracker_step verify op t)"
proof (cases op)
  case (RecordBlock m h)
  then show ?thesis by (simp add: soft_le_def record_block_def prune_stale_attestations_def Let_def)
next
  case (ApplyAttestation a)
  then show ?thesis
    by (cases rule: apply_attestation_cases [of verify a t]) (auto simp: soft_le_def intro: less_imp_le)
qed

lemma soft_le_run: "soft_le t (fold (tracker_step verify) ops t)"
proof (induction ops arbitrary: t)
  case (Cons op ops)
  then show ?case using soft_le_step [of t verify op] by (simp add: soft_le_def) (meson le_trans)
qed (simp add: soft_le_def)

section \<open>Quorums\<close>

lemma active_count_card:
  assumes "distinct (map fst (miners ams))"
  shows "active_count ams h = card {m. is_active ams m h}"
proof -
  have "is_active ams m h \<longleftrightarrow> (\<exists>r. (m, r) \<in> set (miners ams) \<and> is_active_record r h (ams_window ams))" for m
    by (simp add: is_active_def map_of_eq_Some_iff [OF assms, symmetric] split: option.splits)
  then have "{m. is_active ams m h} = set (active_miners ams h)"
    by (auto simp: active_miners_def image_iff split: prod.splits)
  moreover have "distinct (active_miners ams h)"
    using assms by (simp add: active_miners_def distinct_map_filter split_def)
  ultimately have "card {m. is_active ams m h} = length (active_miners ams h)" by (simp add: distinct_card)
  also have "\<dots> = active_count ams h"
    by (simp add: active_miners_def active_count_def filter_map comp_def split_def)
  finally show ?thesis by simp
qed

lemma ceil_two_thirds_eq: "n \<le> u32_max \<Longrightarrow> ceil_two_thirds n = (2 * n + 2) div 3"
  by (simp add: ceil_two_thirds_def sat_add64_def sat_mul64_def width_eqs)

lemmas tracker_eval = with_params_def ams_new_def record_block_def ams_record_block_def Let_def
  prune_stale_attestations_def apply_attestation_def is_active_def is_active_record_def
  active_count_def ceil_two_thirds_def sat_add64_def sat_mul64_def width_eqs sat_sub_def
  would_reorg_violate_finality_def signers_def

section \<open>Properties\<close>

text \<open>
  C30 (soft finality is monotone). From a new tracker, after any sequence of blocks and
  attestations, the soft-final height is at most the chain tip, and no further
  operations lower it: a reorganisation that violated finality still does.
\<close>

theorem soft_finality_monotone:
  assumes "with_params w l q hz = Some t0"
  shows "let t = fold (tracker_step verify) ops t0; u = fold (tracker_step verify) ops' t
         in (\<forall>s. soft_final_height t = Some s \<longrightarrow> s \<le> chain_tip t) \<and>
            (\<forall>f. would_reorg_violate_finality t f \<longrightarrow> would_reorg_violate_finality u f)"
proof -
  let ?t = "fold (tracker_step verify) ops t0"
  have "tracker_inv ?t" using assms by (intro tracker.reachable_inv) blast
  then have "\<forall>s. soft_final_height ?t = Some s \<longrightarrow> s \<le> chain_tip ?t" by (simp add: tracker_inv_def)
  moreover have "would_reorg_violate_finality (fold (tracker_step verify) ops' ?t) f"
    if "would_reorg_violate_finality ?t f" for f
    using that soft_le_run [of ?t verify ops']
    by (force simp: would_reorg_violate_finality_def soft_le_def split: option.splits)
  ultimately show ?thesis by (simp add: Let_def)
qed

theorem soft_finality_monotone_witness:
  "let t = fold (tracker_step (\<lambda>_. True)) [RecordBlock [1] 5, ApplyAttestation
       \<lparr>miner_pubkey = [1], target_height = 5, target_hash = [7], att_signature = []\<rparr>]
       (the (with_params 10 1 1 100));
       u = fold (tracker_step (\<lambda>_. True)) [RecordBlock [2] 6] t
   in would_reorg_violate_finality t 4 \<and> would_reorg_violate_finality u 4"
proof -
  let ?ops = "[RecordBlock [1] 5, ApplyAttestation
       \<lparr>miner_pubkey = [1], target_height = 5, target_hash = [7], att_signature = []\<rparr>]"
  let ?t0 = "the (with_params 10 1 1 100)"
  have t0: "with_params 10 1 1 100 = Some ?t0" by (simp add: with_params_def ams_new_def)
  have "would_reorg_violate_finality (fold (tracker_step (\<lambda>_. True)) ?ops ?t0) 4"
    by (simp add: tracker_eval)
  then show ?thesis
    using soft_finality_monotone [OF t0, where verify = "\<lambda>_. True" and ops = ?ops and ops' = "[RecordBlock [2] 6]"]
    unfolding Let_def by blast
qed




definition erosion_blocks :: "tracker_op list" where
  "erosion_blocks = map (\<lambda>(m, h). RecordBlock [m] h)
     [(1, 1), (2, 2), (3, 3), (4, 4), (5, 5), (6, 6), (7, 7), (8, 8), (9, 9),
      (1, 21), (2, 22), (3, 23), (4, 24), (5, 25), (6, 26), (7, 27), (8, 28), (9, 29)]"

definition erosion_later :: "tracker_op list" where
  "erosion_later = map (\<lambda>(m, h). RecordBlock [m] h) [(1, 30), (2, 31), (3, 32), (4, 33)] @
     map (\<lambda>m. ApplyAttestation \<lparr>miner_pubkey = [m], target_height = 29, target_hash = [0],
       att_signature = []\<rparr>) [5, 6, 7, 8]"


end
