(* ===== verification/Finality.thy ===== *)
theory Finality
  imports Network_Params
begin

text \<open>
  Reorganisation finality of \<^verbatim>\<open>src/consensus/finality.rs\<close>: the depth cap per
  network and the exponential work requirement on deep forks. The lemmas give the exact
  acceptance condition and its monotonicity.
\<close>

section \<open>Definitions\<close>

definition REORG_UNCONDITIONAL_DEPTH :: nat where "REORG_UNCONDITIONAL_DEPTH = 10"
definition MESS_EXPONENT_DIVISOR :: nat where "MESS_EXPONENT_DIVISOR = 20"
definition BOOTSTRAP_MESS_HEIGHT :: nat where "BOOTSTRAP_MESS_HEIGHT = 1000"

lemmas mess_consts = REORG_UNCONDITIONAL_DEPTH_def MESS_EXPONENT_DIVISOR_def BOOTSTRAP_MESS_HEIGHT_def

fun max_reorg_depth_for :: "network_type \<Rightarrow> nat" where
  "max_reorg_depth_for Mainnet = 100"
| "max_reorg_depth_for _ = 1000"

definition evaluate_reorg_acceptability ::
  "nat \<Rightarrow> nat \<Rightarrow> nat \<Rightarrow> nat \<Rightarrow> nat \<Rightarrow> string + unit" where
  "evaluate_reorg_acceptability depth fork_work honest_work current_height max_depth =
     (if max_depth < depth then Inl ''Reorg depth exceeds absolute maximum (hard finality)''
      else if depth \<le> REORG_UNCONDITIONAL_DEPTH then
        (if honest_work \<le> fork_work then Inr () else Inl ''Fork has less work'')
      else if current_height < BOOTSTRAP_MESS_HEIGHT then
        (if honest_work \<le> fork_work then Inr ()
         else Inl ''Fork has less work (bootstrap phase, MESS disabled)'')
      else
        let exponent = (depth - REORG_UNCONDITIONAL_DEPTH) div MESS_EXPONENT_DIVISOR;
            capped_exponent = min exponent 40;
            mult = as_u128 (2 ^ capped_exponent);
            required_work = sat_mul128 honest_work mult
        in if required_work < fork_work then Inr () else Inl ''MESS rejection'')"

section \<open>The acceptance condition\<close>

text \<open>The work a fork must have at a depth, without the 128-bit arithmetic.\<close>

definition required_factor :: "nat \<Rightarrow> nat \<Rightarrow> nat" where
  "required_factor depth current_height =
     (if depth \<le> 10 \<or> current_height < 1000 then 1 else 2 ^ min ((depth - 10) div 20) 40)"

lemma mess_shift_exact: "as_u128 (2 ^ min e 40) = 2 ^ min e 40"
proof -
  have "(2 :: nat) ^ min e 40 \<le> 2 ^ 40" by (intro power_increasing) simp_all
  then show ?thesis by (intro as_u128_id) (simp add: width_eqs)
qed

lemma evaluate_reorg_ok_iff:
  assumes "fork_work \<le> u128_max"
  shows "evaluate_reorg_acceptability depth fork_work honest_work h max_depth = Inr () \<longleftrightarrow>
    depth \<le> max_depth \<and>
    (if depth \<le> 10 \<or> h < 1000 then honest_work \<le> fork_work
     else honest_work * required_factor depth h < fork_work)"
  using assms by (auto simp: evaluate_reorg_acceptability_def Let_def mess_consts required_factor_def
      mess_shift_exact sat_mul128_def)

lemma required_factor_mono: "d \<le> e \<Longrightarrow> required_factor d h \<le> required_factor e h"
  by (auto simp: required_factor_def intro!: power_increasing min.mono div_le_mono diff_le_mono)

section \<open>Properties\<close>

text \<open>
  C24 (reorganisation acceptance). For 128-bit work values a fork is accepted exactly if its depth is
  within the cap and its work reaches the honest chain's, strictly exceeding it times
  \<open>2 ^ ((depth - 10) / 20)\<close> beyond depth 10 once past the bootstrap height. So acceptance never needs less
  than the honest work, is kept when the fork has more work or is shallower, and no depth beyond 100 is ever
  accepted on the main network.
\<close>

theorem reorg_acceptance:
  assumes "fork_work \<le> u128_max" "fork_work \<le> fork_work'" "fork_work' \<le> u128_max" "d' \<le> d"
  shows "(evaluate_reorg_acceptability d fork_work honest_work h m = Inr () \<longleftrightarrow>
      d \<le> m \<and> (if d \<le> 10 \<or> h < 1000 then honest_work \<le> fork_work
               else honest_work * 2 ^ min ((d - 10) div 20) 40 < fork_work)) \<and>
    (evaluate_reorg_acceptability d fork_work honest_work h m = Inr () \<longrightarrow>
      honest_work \<le> fork_work \<and>
      evaluate_reorg_acceptability d' fork_work' honest_work h m = Inr ()) \<and>
    (100 < d \<longrightarrow> evaluate_reorg_acceptability d fork_work honest_work h (max_reorg_depth_for Mainnet) \<noteq> Inr ())"
proof -
  define need where "need e = honest_work * required_factor e h" for e
  have mono: "need d' \<le> need d"
    unfolding need_def by (intro mult_le_mono2 required_factor_mono assms(4))
  have "honest_work * 1 \<le> need d"
    unfolding need_def by (intro mult_le_mono2) (simp add: required_factor_def)
  then have pos: "honest_work \<le> need d" by simp
  have "honest_work \<le> fork_work \<and> evaluate_reorg_acceptability d' fork_work' honest_work h m = Inr ()"
    if "evaluate_reorg_acceptability d fork_work honest_work h m = Inr ()"
    using that mono pos assms(2,4)
    unfolding evaluate_reorg_ok_iff [OF assms(1)] evaluate_reorg_ok_iff [OF assms(3)] need_def [symmetric]
    by (cases "d \<le> 10 \<or> h < 1000") auto
  moreover have "required_factor d h = 2 ^ min ((d - 10) div 20) 40" if "\<not> (d \<le> 10 \<or> h < 1000)"
    using that by (auto simp: required_factor_def)
  ultimately show ?thesis by (auto simp: evaluate_reorg_ok_iff [OF assms(1)])
qed

theorem reorg_acceptance_witness:
  "evaluate_reorg_acceptability 50 401 100 1001 1000 = Inr () \<and>
   evaluate_reorg_acceptability 30 500 100 1001 1000 = Inr () \<and>
   evaluate_reorg_acceptability 101 401 100 1001 (max_reorg_depth_for Mainnet) \<noteq> Inr ()"
  using reorg_acceptance [of 401 500 30 50 100 1001 1000] reorg_acceptance [of 401 401 101 101 100 1001 1000]
  by (simp add: width_eqs)

end
