(* ===== verification/Fork_Choice.thy ===== *)
theory Fork_Choice
  imports Rolling_Finality Finality Difficulty Transactions "HOL-Library.List_Lexorder"
begin

text \<open>
  Fork choice of the chain manager: the lookups of \<^verbatim>\<open>src/chain/queries.rs\<close>, the walks of
  \<^verbatim>\<open>src/chain/fork_calc.rs\<close>, the classification of \<^verbatim>\<open>src/chain/apply.rs\<close> and the decision to
  reorganise of \<^verbatim>\<open>src/chain.rs\<close>. The block cache and the database are association lists; a
  database read that fails in a lookup or a walk is one that finds nothing, as the code treats it there. The walks are
  loops over stored links that may be corrupt, so they are partial functions, and that they
  return is a theorem.
\<close>

section \<open>Stored blocks\<close>

record disk_store =
  disk_blocks :: "(hash \<times> block) list"
  disk_heights :: "(nat \<times> hash) list"

record chain_store =
  cached_blocks :: "(hash \<times> block) list"
  height_to_hash :: "(nat \<times> hash) list"
  disk :: "disk_store option"
  chain_tip_hash :: hash
  chain_tip_height :: nat
  total_difficulty :: nat

definition CHECKPOINT_INTERVAL :: nat where "CHECKPOINT_INTERVAL = 144"

definition disk_get_by_height :: "disk_store \<Rightarrow> nat \<Rightarrow> block option" where
  "disk_get_by_height d h = (case map_of (disk_heights d) h of Some x \<Rightarrow> map_of (disk_blocks d) x | None \<Rightarrow> None)"

definition get_block :: "chain_store \<Rightarrow> hash \<Rightarrow> block option" where
  "get_block st x = (case map_of (cached_blocks st) x of
       Some b \<Rightarrow> Some b
     | None \<Rightarrow> (case disk st of Some d \<Rightarrow> map_of (disk_blocks d) x | None \<Rightarrow> None))"

definition get_block_hash :: "chain_store \<Rightarrow> nat \<Rightarrow> hash option" where
  "get_block_hash st h = (case map_of (height_to_hash st) h of
       Some x \<Rightarrow> Some x
     | None \<Rightarrow> (case disk st of Some d \<Rightarrow> map_of (disk_heights d) h | None \<Rightarrow> None))"

definition get_block_by_height :: "chain_store \<Rightarrow> nat \<Rightarrow> block option" where
  "get_block_by_height st h = (case get_block_hash st h of Some x \<Rightarrow> get_block st x | None \<Rightarrow> None)"

datatype incoming_class = AlreadyKnown | Orphan | Proceed "block option"

text \<open>\<open>disk_contains\<close> is the answer of the database, whose failure is passed on.\<close>

definition classify_incoming ::
  "(disk_store \<Rightarrow> hash \<Rightarrow> bool result) \<Rightarrow> chain_store \<Rightarrow> block \<Rightarrow> hash \<Rightarrow> incoming_class result" where
  "classify_incoming disk_contains st b x =
     (if map_of (cached_blocks st) x \<noteq> None then Inr AlreadyKnown
      else case (case disk st of Some d \<Rightarrow> disk_contains d x | None \<Rightarrow> Inr False) of
          Inl e \<Rightarrow> Inl e
        | Inr known \<Rightarrow>
            if known then Inr AlreadyKnown
            else let parent = get_block st (prev_hash (header b)) in
              if parent = None \<and> 0 < height (header b) then Inr Orphan else Inr (Proceed parent))"

section \<open>The walks\<close>

definition block_work :: "block \<Rightarrow> nat" where
  "block_work b = calculate_difficulty_from_target (target (header b))"

definition diff_block :: "nat \<Rightarrow> block \<Rightarrow> difficulty_block" where
  "diff_block h b = \<lparr>db_height = h, db_timestamp = timestamp (header b), db_target = target (header b)\<rparr>"

definition main_chain_diff_block :: "chain_store \<Rightarrow> nat \<Rightarrow> difficulty_block option" where
  "main_chain_diff_block st h = (case disk st of
       Some d \<Rightarrow> map_option (diff_block h) (disk_get_by_height d h)
     | None \<Rightarrow> (case map_of (height_to_hash st) h of
         None \<Rightarrow> None
       | Some x \<Rightarrow> map_option (diff_block h) (map_of (cached_blocks st) x)))"

text \<open>The window reads the database when there is one and the cache otherwise.\<close>

definition window_block :: "chain_store \<Rightarrow> hash \<Rightarrow> block option" where
  "window_block st x = (case disk st of Some d \<Rightarrow> map_of (disk_blocks d) x | None \<Rightarrow> map_of (cached_blocks st) x)"

definition window_main :: "chain_store \<Rightarrow> nat \<Rightarrow> hash option" where
  "window_main st h = (case disk st of Some d \<Rightarrow> map_of (disk_heights d) h | None \<Rightarrow> map_of (height_to_hash st) h)"

partial_function (option) window_loop ::
  "chain_store \<Rightarrow> hash set \<Rightarrow> hash \<Rightarrow> difficulty_block list \<Rightarrow> (difficulty_block list \<times> nat) option" where
  "window_loop st visited cur fork =
     (if cur \<in> visited then Some (fork, 0)
      else (case window_block st cur of
          None \<Rightarrow> Some (fork, 0)
        | Some b \<Rightarrow>
            (if window_main st (height (header b)) = Some cur then Some (fork, height (header b))
             else (if height (header b) = 0 then Some (fork @ [diff_block 0 b], 0)
             else window_loop st (insert cur visited) (prev_hash (header b)) (fork @ [diff_block (height (header b)) b])))))"

definition window_entry :: "chain_store \<Rightarrow> difficulty_block list \<Rightarrow> nat \<Rightarrow> nat \<Rightarrow> difficulty_block option" where
  "window_entry st fork fork_point h =
     (if h \<le> fork_point then main_chain_diff_block st h
      else let off = h - fork_point - 1 in if off < length fork then Some (fork ! off) else None)"

definition fork_difficulty_window :: "chain_store \<Rightarrow> hash \<Rightarrow> nat \<Rightarrow> difficulty_block list option" where
  "fork_difficulty_window st parent_hash bh =
     (case window_loop st {} parent_hash [] of
        None \<Rightarrow> None
      | Some (fork, fork_point) \<Rightarrow>
          Some (List.map_filter (window_entry st (rev fork) fork_point) [sat_sub bh 144..<bh]))"

partial_function (option) work_loop :: "chain_store \<Rightarrow> nat \<Rightarrow> nat \<Rightarrow> nat \<Rightarrow> hash \<Rightarrow> nat option" where
  "work_loop st max_steps steps total_work cur =
     (if max_steps < sat_add64 steps 1 then Some total_work
      else (case get_block st cur of
          None \<Rightarrow> Some total_work
        | Some p \<Rightarrow>
            (if height (header p) = 0 then Some (sat_add128 total_work 1)
             else work_loop st max_steps (sat_add64 steps 1) (sat_add128 total_work (block_work p)) (prev_hash (header p)))))"

definition calculate_fork_cumulative_work :: "chain_store \<Rightarrow> block \<Rightarrow> nat option" where
  "calculate_fork_cumulative_work st b =
     work_loop st (sat_add64 (height (header b)) 100) 0 (block_work b) (prev_hash (header b))"

fun recompute_loop :: "chain_store \<Rightarrow> nat list \<Rightarrow> nat \<Rightarrow> nat option" where
  "recompute_loop st [] total_work = Some total_work"
| "recompute_loop st (h # hs) total_work = (case get_block_by_height st h of
     None \<Rightarrow> None
   | Some b \<Rightarrow> recompute_loop st hs (sat_add128 total_work (block_work b)))"

definition recompute_total_difficulty :: "chain_store \<Rightarrow> nat \<Rightarrow> nat option" where
  "recompute_total_difficulty st h = recompute_loop st [1..<h + 1] 1"

partial_function (option) fork_point_loop :: "chain_store \<Rightarrow> hash set \<Rightarrow> hash \<Rightarrow> nat option option" where
  "fork_point_loop st visited cur =
     (if cur \<in> visited then Some None
      else (case get_block st cur of
          None \<Rightarrow> Some None
        | Some p \<Rightarrow>
            (if get_block_hash st (height (header p)) = Some cur then Some (Some (height (header p)))
             else (if height (header p) = 0 then Some (Some 0)
             else fork_point_loop st (insert cur visited) (prev_hash (header p))))))"

definition find_fork_point :: "chain_store \<Rightarrow> block \<Rightarrow> nat option option" where
  "find_fork_point st b = fork_point_loop st {} (prev_hash (header b))"

partial_function (option) collect_loop ::
  "chain_store \<Rightarrow> nat \<Rightarrow> hash set \<Rightarrow> hash \<Rightarrow> block list \<Rightarrow> block list option" where
  "collect_loop st fork_point visited cur chain =
     (if cur \<in> visited then Some chain
      else (case get_block st cur of
          None \<Rightarrow> Some chain
        | Some b \<Rightarrow>
            (if height (header b) \<le> fork_point then Some chain
             else collect_loop st fork_point (insert cur visited) (prev_hash (header b)) (chain @ [b]))))"

definition collect_fork_chain :: "chain_store \<Rightarrow> block \<Rightarrow> nat \<Rightarrow> block list option" where
  "collect_fork_chain st fork_tip fork_point =
     map_option rev (collect_loop st fork_point {} (prev_hash (header fork_tip)) [])"

section \<open>The decision\<close>

datatype fork_verdict = KeepChain | Reorganise nat

definition take_fork :: "(bytes \<Rightarrow> hash) \<Rightarrow> chain_store \<Rightarrow> block \<Rightarrow> nat \<Rightarrow> bool" where
  "take_fork H st b fork_cumulative =
     (if total_difficulty st < fork_cumulative then True
      else if fork_cumulative = total_difficulty st then block_hash H b < chain_tip_hash st
      else False)"

text \<open>\<open>rf\<close> is the rolling-finality tracker of a build that has one.\<close>

definition check_fork_point ::
  "network_type \<Rightarrow> finality_tracker option \<Rightarrow> chain_store \<Rightarrow> block \<Rightarrow> nat \<Rightarrow> nat \<Rightarrow> fork_verdict result" where
  "check_fork_point net rf st b fork_cumulative fork_point =
     (let h = height (header b); reorg_depth = sat_sub h fork_point; net_max = max_reorg_depth_for net;
          finality_floor = sat_sub (chain_tip_height st) CHECKPOINT_INTERVAL in
      if evaluate_reorg_acceptability reorg_depth fork_cumulative (total_difficulty st) (chain_tip_height st) net_max \<noteq> Inr ()
      then Inl (ReorgTooDeep reorg_depth net_max)
      else if (case rf of Some t \<Rightarrow> rolling_finality_enforce_height net \<le> h \<and> would_reorg_violate_finality t fork_point | None \<Rightarrow> False)
      then Inl (ReorgTooDeep reorg_depth
        (sat_sub (sat_sub h (case rf of Some t \<Rightarrow> (case soft_final_height t of Some s \<Rightarrow> s | None \<Rightarrow> 0) | None \<Rightarrow> 0)) 1))
      else if 0 < finality_floor \<and> fork_point < finality_floor then Inl (ReorgTooDeep reorg_depth CHECKPOINT_INTERVAL)
      else Inr (Reorganise fork_point))"

definition judge_fork ::
  "(bytes \<Rightarrow> hash) \<Rightarrow> network_type \<Rightarrow> finality_tracker option \<Rightarrow> chain_store \<Rightarrow> block \<Rightarrow> fork_verdict result option" where
  "judge_fork H net rf st b = (case calculate_fork_cumulative_work st b of
       None \<Rightarrow> None
     | Some w \<Rightarrow>
         if take_fork H st b w
         then (case find_fork_point st b of
             None \<Rightarrow> None
           | Some None \<Rightarrow> Some (Inl (Corruption ''fork-point search aborted by DB corruption (cycle or missing parent); reorg rejected''))
           | Some (Some fp) \<Rightarrow> Some (check_fork_point net rf st b w fp))
         else Some (Inr KeepChain))"

section \<open>The walks return\<close>

text \<open>A walk that visits a stored hash at most once ends: induction along it.\<close>

lemma walk_induct:
  assumes "finite D"
    and step: "\<And>visited cur. (cur \<in> D \<Longrightarrow> cur \<notin> visited \<Longrightarrow> \<forall>next. P (insert cur visited) next) \<Longrightarrow> P visited cur"
  shows "P visited cur"
proof (induction "card (D - visited)" arbitrary: visited cur rule: less_induct)
  case (less visited cur)
  have "\<forall>next. P (insert cur visited) next" if c: "cur \<in> D" "cur \<notin> visited"
  proof -
    have "D - insert cur visited \<subset> D - visited" using c by blast
    then have "card (D - insert cur visited) < card (D - visited)" using assms(1) by (simp add: psubset_card_mono)
    then show ?thesis using less by blast
  qed
  then show ?case by (rule step)
qed

lemma finite_get_block: "finite (dom (get_block st))"
proof -
  have "dom (get_block st) \<subseteq> dom (map_of (cached_blocks st)) \<union> (case disk st of Some d \<Rightarrow> dom (map_of (disk_blocks d)) | None \<Rightarrow> {})"
    by (auto simp: get_block_def split: option.splits)
  then show ?thesis by (rule finite_subset) (simp add: finite_dom_map_of split: option.split)
qed

lemma finite_window_block: "finite (dom (window_block st))"
  by (cases "disk st") (simp_all add: window_block_def [abs_def] finite_dom_map_of)

lemma fork_point_loop_returns: "\<exists>r. fork_point_loop st visited cur = Some r"
proof (rule walk_induct [OF finite_get_block [of st]])
  fix visited cur
  assume IH: "cur \<in> dom (get_block st) \<Longrightarrow> cur \<notin> visited \<Longrightarrow> \<forall>next. \<exists>r. fork_point_loop st (insert cur visited) next = Some r"
  then show "\<exists>r. fork_point_loop st visited cur = Some r"
    by (subst fork_point_loop.simps) (auto simp: dom_def split: option.split)
qed

lemma collect_loop_returns: "\<exists>r. collect_loop st fp visited cur chain = Some r"
proof -
  have "\<forall>chain. \<exists>r. collect_loop st fp visited cur chain = Some r"
  proof (rule walk_induct [OF finite_get_block [of st]])
    fix visited cur
    assume IH: "cur \<in> dom (get_block st) \<Longrightarrow> cur \<notin> visited \<Longrightarrow>
      \<forall>next. \<forall>chain. \<exists>r. collect_loop st fp (insert cur visited) next chain = Some r"
    then show "\<forall>chain. \<exists>r. collect_loop st fp visited cur chain = Some r"
      by (subst collect_loop.simps) (auto simp: dom_def split: option.split)
  qed
  then show ?thesis ..
qed

lemma window_loop_returns: "\<exists>r. window_loop st visited cur fork = Some r"
proof -
  have "\<forall>fork. \<exists>r. window_loop st visited cur fork = Some r"
  proof (rule walk_induct [OF finite_window_block [of st]])
    fix visited cur
    assume IH: "cur \<in> dom (window_block st) \<Longrightarrow> cur \<notin> visited \<Longrightarrow>
      \<forall>next. \<forall>fork. \<exists>r. window_loop st (insert cur visited) next fork = Some r"
    then show "\<forall>fork. \<exists>r. window_loop st visited cur fork = Some r"
      by (subst window_loop.simps) (auto simp: dom_def split: option.split)
  qed
  then show ?thesis ..
qed

lemma work_loop_returns:
  assumes "max_steps < u64_max"
  shows "\<exists>w. work_loop st max_steps steps total_work cur = Some w"
proof (induction "max_steps + 1 - steps" arbitrary: steps total_work cur rule: less_induct)
  case less
  show ?case
  proof (cases "max_steps < sat_add64 steps 1")
    case False
    then have "sat_add64 steps 1 = steps + 1" "steps < max_steps" using assms by (auto simp: sat_add64_def min_def split: if_splits)
    then have "max_steps + 1 - sat_add64 steps 1 < max_steps + 1 - steps" by simp
    from less [OF this] show ?thesis by (subst work_loop.simps) (auto split: option.split)
  qed (subst work_loop.simps, simp)
qed

section \<open>What the walks compute\<close>

definition known_hashes :: "chain_store \<Rightarrow> hash list" where
  "known_hashes st = map fst (cached_blocks st) @ (case disk st of Some d \<Rightarrow> map fst (disk_blocks d) | None \<Rightarrow> [])"

definition known_heights :: "chain_store \<Rightarrow> nat list" where
  "known_heights st = map fst (height_to_hash st) @ (case disk st of Some d \<Rightarrow> map fst (disk_heights d) | None \<Rightarrow> [])"

text \<open>Every stored block has its parent stored, and the height index is one chain of them.\<close>

definition block_linked :: "chain_store \<Rightarrow> hash \<Rightarrow> bool" where
  "block_linked st x = (case get_block st x of
       None \<Rightarrow> True
     | Some b \<Rightarrow> if height (header b) = 0 then get_block_hash st 0 = Some x
         else (case get_block st (prev_hash (header b)) of None \<Rightarrow> False | Some p \<Rightarrow> height (header p) + 1 = height (header b)))"

definition height_linked :: "chain_store \<Rightarrow> nat \<Rightarrow> bool" where
  "height_linked st h = (case get_block_hash st h of
       None \<Rightarrow> True
     | Some x \<Rightarrow> (case get_block st x of
         None \<Rightarrow> False
       | Some b \<Rightarrow> height (header b) = h \<and> (h = 0 \<or> get_block_hash st (h - 1) = Some (prev_hash (header b)))))"

definition store_ok :: "chain_store \<Rightarrow> bool" where
  "store_ok st \<longleftrightarrow> list_all (block_linked st) (known_hashes st) \<and> list_all (height_linked st) (known_heights st)"

lemma store_ok_block:
  assumes "store_ok st" "get_block st x = Some b"
  shows "block_linked st x"
proof -
  have "x \<in> set (known_hashes st)"
    using assms(2) by (auto simp: get_block_def known_hashes_def split: option.splits dest: map_of_SomeD) (force dest: map_of_SomeD)+
  then show ?thesis using assms(1) by (simp add: store_ok_def list_all_iff)
qed

lemma store_ok_main:
  assumes "store_ok st" "get_block_hash st h = Some x"
  obtains b where "get_block st x = Some b" "height (header b) = h" "h = 0 \<or> get_block_hash st (h - 1) = Some (prev_hash (header b))"
proof -
  have "h \<in> set (known_heights st)"
    using assms(2) by (auto simp: get_block_hash_def known_heights_def split: option.splits dest: map_of_SomeD) (force dest: map_of_SomeD)+
  then have "height_linked st h" using assms(1) by (simp add: store_ok_def list_all_iff)
  then show thesis using that assms(2) by (auto simp: height_linked_def split: option.splits)
qed

lemma store_ok_parent:
  assumes "store_ok st" "get_block st x = Some b" "height (header b) = Suc n"
  obtains p where "get_block st (prev_hash (header b)) = Some p" "height (header p) = n"
  using store_ok_block [OF assms(1,2)] assms(2,3) that by (auto simp: block_linked_def split: option.splits)

text \<open>The last \<open>k\<close> blocks of the branch that ends in a hash, oldest first, and the hash below them.\<close>

fun branch :: "chain_store \<Rightarrow> nat \<Rightarrow> hash \<Rightarrow> block list" where
  "branch st 0 x = []"
| "branch st (Suc k) x = (case get_block st x of None \<Rightarrow> [] | Some b \<Rightarrow> branch st k (prev_hash (header b)) @ [b])"

fun branch_base :: "chain_store \<Rightarrow> nat \<Rightarrow> hash \<Rightarrow> hash" where
  "branch_base st 0 x = x"
| "branch_base st (Suc k) x = (case get_block st x of None \<Rightarrow> x | Some b \<Rightarrow> branch_base st k (prev_hash (header b)))"

definition above :: "chain_store \<Rightarrow> nat \<Rightarrow> hash set \<Rightarrow> bool" where
  "above st n visited \<longleftrightarrow> (\<forall>x\<in>visited. case get_block st x of None \<Rightarrow> False | Some b \<Rightarrow> n < height (header b))"

lemma above_step:
  assumes "above st n visited" "get_block st x = Some b" "height (header b) = n"
  shows "x \<notin> visited" "m < n \<Longrightarrow> above st m (insert x visited)"
  using assms by (auto simp: above_def split: option.splits)

lemma fork_point_loop_finds:
  assumes "store_ok st" "get_block st x = Some b" "height (header b) = n" "above st n visited"
  shows "\<exists>fp\<le>n. fork_point_loop st visited x = Some (Some fp) \<and> get_block_hash st fp = Some (branch_base st (n - fp) x)"
  using assms(2-)
proof (induction n arbitrary: x b visited)
  case 0
  then have "get_block_hash st 0 = Some x" using store_ok_block [OF assms(1) 0(1)] by (simp add: block_linked_def)
  then show ?case using 0 above_step(1) [OF 0(3,1,2)] by (subst fork_point_loop.simps) simp
next
  case (Suc n)
  have v: "x \<notin> visited" using above_step(1) [OF Suc.prems(3,1,2)] .
  show ?case
  proof (cases "get_block_hash st (Suc n) = Some x")
    case True
    then show ?thesis using Suc.prems v by (intro exI [of _ "Suc n"]) (subst fork_point_loop.simps, simp)
  next
    case False
    obtain p where p: "get_block st (prev_hash (header b)) = Some p" "height (header p) = n"
      using store_ok_parent [OF assms(1) Suc.prems(1,2)] .
    have "above st n (insert x visited)" using above_step(2) [OF Suc.prems(3,1,2)] by simp
    from Suc.IH [OF p this] obtain fp where fp: "fp \<le> n"
      "fork_point_loop st (insert x visited) (prev_hash (header b)) = Some (Some fp)"
      "get_block_hash st fp = Some (branch_base st (n - fp) (prev_hash (header b)))" by blast
    moreover have "fork_point_loop st visited x = fork_point_loop st (insert x visited) (prev_hash (header b))"
      using Suc.prems v False by (subst fork_point_loop.simps) simp
    ultimately show ?thesis using Suc.prems(1) by (intro exI [of _ fp]) (simp add: Suc_diff_le)
  qed
qed

lemma collect_loop_collects:
  assumes "store_ok st" "get_block st x = Some b" "height (header b) = n" "above st n visited" "fp \<le> n"
  shows "collect_loop st fp visited x chain = Some (chain @ rev (branch st (n - fp) x))"
  using assms(2-)
proof (induction n arbitrary: x b visited chain)
  case 0
  then show ?case using above_step(1) [OF 0(3,1,2)] by (subst collect_loop.simps) simp
next
  case (Suc n)
  have v: "x \<notin> visited" using above_step(1) [OF Suc.prems(3,1,2)] .
  show ?case
  proof (cases "fp = Suc n")
    case True
    then show ?thesis using Suc.prems v by (subst collect_loop.simps) simp
  next
    case False
    obtain p where p: "get_block st (prev_hash (header b)) = Some p" "height (header p) = n"
      using store_ok_parent [OF assms(1) Suc.prems(1,2)] .
    have "above st n (insert x visited)" using above_step(2) [OF Suc.prems(3,1,2)] by simp
    moreover have "fp \<le> n" using False Suc.prems(4) by simp
    ultimately show ?thesis using Suc.IH [OF p, of "insert x visited" "chain @ [b]"] Suc.prems v
      by (subst collect_loop.simps) (simp add: Suc_diff_le)
  qed
qed

definition branch_work :: "block list \<Rightarrow> nat" where
  "branch_work bs = sum_list (map block_work bs)"

lemma branch_split: "branch st (k + j) x = branch st j (branch_base st k x) @ branch st k x"
proof (induction k arbitrary: x)
  case (Suc k)
  then show ?case by (cases "get_block st x"; cases j) simp_all
qed simp

lemma branch_links:
  assumes "prev_hash (header c) = x"
  shows "successively (\<lambda>p b. get_block st (prev_hash (header b)) = Some p) (branch st k x @ [c]) \<and>
    prev_hash (header (hd (branch st k x @ [c]))) = branch_base st k x"
  using assms
proof (induction k arbitrary: x c)
  case (Suc k)
  show ?case
  proof (cases "get_block st x")
    case (Some b)
    from Suc.IH [of b "prev_hash (header b)"]
    have "successively (\<lambda>p b. get_block st (prev_hash (header b)) = Some p) ((branch st k (prev_hash (header b)) @ [b]) @ [c])"
      using Some Suc.prems by (subst successively_append_iff) simp
    then show ?thesis using Suc.IH [of b "prev_hash (header b)"] Some by (cases "branch st k (prev_hash (header b))") simp_all
  qed (use Suc.prems in simp)
qed simp

lemma branch_heights:
  assumes "store_ok st" "get_block st x = Some b" "height (header b) = n" "k \<le> n"
  shows "map (\<lambda>b. height (header b)) (branch st k x) = [n - k + 1..<n + 1]"
  using assms(2-)
proof (induction k arbitrary: x b n)
  case (Suc k)
  then obtain m where n: "n = Suc m" by (cases n) simp_all
  obtain p where p: "get_block st (prev_hash (header b)) = Some p" "height (header p) = m"
    using store_ok_parent [OF assms(1) Suc.prems(1)] Suc.prems(2) n by blast
  show ?case using Suc.IH [OF p] Suc.prems n by simp
qed simp

lemma work_loop_sums:
  assumes "store_ok st" "get_block st x = Some b" "height (header b) = n" "steps + n < max_steps" "max_steps \<le> u64_max"
  shows "work_loop st max_steps steps w x = Some (min (w + branch_work (branch st n x) + 1) u128_max)"
  using assms(2-4)
proof (induction n arbitrary: x b steps w)
  case 0
  then show ?case using assms(5) by (subst work_loop.simps) (simp add: sat_add64_def sat_add128_def branch_work_def min_def)
next
  case (Suc n)
  obtain p where p: "get_block st (prev_hash (header b)) = Some p" "height (header p) = n"
    using store_ok_parent [OF assms(1) Suc.prems(1,2)] .
  have "sat_add64 steps 1 = steps + 1" using Suc.prems(3) assms(5) by (simp add: sat_add64_def)
  then show ?case using Suc.IH [OF p, of "steps + 1" "sat_add128 w (block_work b)"] Suc.prems
    by (subst work_loop.simps) (simp add: branch_work_def sat_add128_def min_def)
qed

lemma recompute_loop_append:
  "recompute_loop st (xs @ ys) w = (case recompute_loop st xs w of None \<Rightarrow> None | Some w \<Rightarrow> recompute_loop st ys w)"
  by (induction xs arbitrary: w) (auto split: option.split)

lemma recompute_sums:
  assumes "store_ok st" "get_block_hash st h = Some x"
  shows "recompute_total_difficulty st h = Some (min (1 + branch_work (branch st h x)) u128_max)"
  using assms(2)
proof (induction h arbitrary: x)
  case 0
  then show ?case by (simp add: recompute_total_difficulty_def branch_work_def u128_max_eq)
next
  case (Suc h)
  obtain b where b: "get_block st x = Some b" "get_block_hash st h = Some (prev_hash (header b))"
    using store_ok_main [OF assms(1) Suc.prems] by auto
  then show ?case using Suc.IH [OF b(2)] Suc.prems
    by (simp add: recompute_total_difficulty_def recompute_loop_append get_block_by_height_def branch_work_def sat_add128_def min_def)
qed

section \<open>Concrete stores\<close>

definition demo_link :: "nat \<Rightarrow> hash \<Rightarrow> block" where
  "demo_link h prev = \<lparr>header = \<lparr>network_magic = [], hdr_version = 1, height = h, timestamp = 0, prev_hash = prev, tx_root = [],
     anchor = [], algorithm = 0, nonce = 0, target = replicate 32 1, miner_pubkey = [], supply_commitment = [],
     checkpoint_vote = None, spark_set_root = [], mw_kernel_root = []\<rparr>, transactions = []\<rparr>"

text \<open>A main chain of two blocks with a second block at height 1, and a store whose only block is its own parent.\<close>

definition demo_store :: chain_store where
  "demo_store = \<lparr>cached_blocks = [([0], demo_link 0 []), ([1], demo_link 1 [0]), ([2], demo_link 1 [0])],
     height_to_hash = [(0, [0]), (1, [1])], disk = None, chain_tip_hash = [1], chain_tip_height = 1, total_difficulty = 1\<rparr>"

definition cyclic_store :: chain_store where
  "cyclic_store = \<lparr>cached_blocks = [([1], demo_link 5 [1])], height_to_hash = [], disk = None, chain_tip_hash = [],
     chain_tip_height = 0, total_difficulty = 0\<rparr>"

lemma demo_link_fields [simp]: "height (header (demo_link h x)) = h" "prev_hash (header (demo_link h x)) = x"
  by (simp_all add: demo_link_def)

lemma demo_store_ok: "store_ok demo_store"
  by (simp add: store_ok_def known_hashes_def known_heights_def block_linked_def height_linked_def get_block_def
      get_block_hash_def demo_store_def)

section \<open>Properties\<close>

text \<open>
  C15 (every fork walk ends). Whatever the cache and the database hold, cycles and missing
  blocks included, the search for the fork point, the collection of the fork and the
  difficulty window return, and so does the decision on the fork, if the block's height plus
  100 is below the largest 64-bit value.
\<close>

theorem fork_walks_end:
  assumes "height (header b) + 100 < u64_max"
  shows "find_fork_point st b \<noteq> None \<and> collect_fork_chain st b fp \<noteq> None \<and> fork_difficulty_window st x h \<noteq> None \<and>
    calculate_fork_cumulative_work st b \<noteq> None \<and> judge_fork H net rf st b \<noteq> None"
proof -
  have f: "find_fork_point st b \<noteq> None" unfolding find_fork_point_def using fork_point_loop_returns by blast
  have "collect_loop st fp {} (prev_hash (header b)) [] \<noteq> None" using collect_loop_returns by blast
  then have c: "collect_fork_chain st b fp \<noteq> None" by (simp add: collect_fork_chain_def)
  have "window_loop st {} x [] \<noteq> None" using window_loop_returns by blast
  then have w: "fork_difficulty_window st x h \<noteq> None" by (auto simp: fork_difficulty_window_def)
  have "sat_add64 (height (header b)) 100 < u64_max" using assms by (simp add: sat_add64_def)
  then have k: "calculate_fork_cumulative_work st b \<noteq> None"
    unfolding calculate_fork_cumulative_work_def using work_loop_returns by blast
  then have "judge_fork H net rf st b \<noteq> None" using f by (auto simp: judge_fork_def split: option.splits)
  then show ?thesis using f c w k by blast
qed

theorem fork_walks_end_witness:
  "find_fork_point cyclic_store (demo_link 6 [1]) \<noteq> None \<and> collect_fork_chain cyclic_store (demo_link 6 [1]) 0 \<noteq> None \<and>
   judge_fork (\<lambda>x. x) Mainnet None cyclic_store (demo_link 6 [1]) \<noteq> None"
proof -
  have "height (header (demo_link 6 [1])) + 100 < u64_max" by (simp add: u64_max_eq)
  from fork_walks_end [OF this, of cyclic_store 0 "[]" 0 "\<lambda>x. x" Mainnet None] show ?thesis by blast
qed

text \<open>
  C14 (a fork is measured exactly). Let every stored block have its parent stored, let the
  height index be one chain, and let the parent of a block be stored at the height below it.
  The search then finds a fork point below the block. The collected blocks fill the heights
  between the fork point and the block, each linked to the next, the first to the main chain at the
  fork point. The cumulative work is the recomputed work of the main chain up to the fork
  point plus the work of the fork, saturating at 128 bits.
\<close>

theorem fork_measured_exactly:
  assumes "store_ok st" "get_block st (prev_hash (header b)) = Some p" "height (header b) = height (header p) + 1"
    and "height (header b) \<le> u64_max"
  shows "\<exists>fp main_hash main_work fork. find_fork_point st b = Some (Some fp) \<and> get_block_hash st fp = Some main_hash \<and>
    recompute_total_difficulty st fp = Some main_work \<and> collect_fork_chain st b fp = Some fork \<and>
    map (\<lambda>c. height (header c)) fork = [fp + 1..<height (header b)] \<and>
    prev_hash (header (hd (fork @ [b]))) = main_hash \<and>
    successively (\<lambda>c d. get_block st (prev_hash (header d)) = Some c) (fork @ [b]) \<and>
    calculate_fork_cumulative_work st b = Some (min (main_work + branch_work (fork @ [b])) u128_max)"
proof -
  let ?x = "prev_hash (header b)" let ?n = "height (header p)"
  have e: "above st ?n {}" by (simp add: above_def)
  obtain fp where fp: "fp \<le> ?n" "find_fork_point st b = Some (Some fp)"
    "get_block_hash st fp = Some (branch_base st (?n - fp) ?x)"
    using fork_point_loop_finds [OF assms(1,2) refl e] by (auto simp: find_fork_point_def)
  let ?fork = "branch st (?n - fp) ?x" let ?base = "branch_base st (?n - fp) ?x"
  have c: "collect_fork_chain st b fp = Some ?fork"
    using collect_loop_collects [OF assms(1,2) refl e fp(1), of "[]"] by (simp add: collect_fork_chain_def)
  have h: "map (\<lambda>c. height (header c)) ?fork = [fp + 1..<height (header b)]"
    using branch_heights [OF assms(1,2) refl, of "?n - fp"] fp(1) assms(3) by simp
  have "0 + ?n < sat_add64 (height (header b)) 100" using assms(3,4) by (simp add: sat_add64_def)
  from work_loop_sums [OF assms(1,2) refl this]
  have "calculate_fork_cumulative_work st b = Some (min (block_work b + branch_work (branch st ?n ?x) + 1) u128_max)"
    by (simp add: calculate_fork_cumulative_work_def sat_add64_def)
  moreover have "branch st ?n ?x = branch st fp ?base @ ?fork"
    using branch_split [of st "?n - fp" fp ?x] fp(1) by simp
  ultimately have "calculate_fork_cumulative_work st b =
      Some (min (min (1 + branch_work (branch st fp ?base)) u128_max + branch_work (?fork @ [b])) u128_max)"
    by (simp add: branch_work_def min_def)
  then show ?thesis using fp(2,3) c h recompute_sums [OF assms(1) fp(3)] branch_links [of b ?x st "?n - fp"] by blast
qed

theorem fork_measured_exactly_witness:
  "\<exists>fp main_hash main_work fork. find_fork_point demo_store (demo_link 2 [2]) = Some (Some fp) \<and>
    get_block_hash demo_store fp = Some main_hash \<and> recompute_total_difficulty demo_store fp = Some main_work \<and>
    collect_fork_chain demo_store (demo_link 2 [2]) fp = Some fork \<and> map (\<lambda>c. height (header c)) fork = [fp + 1..<2] \<and>
    calculate_fork_cumulative_work demo_store (demo_link 2 [2]) =
      Some (min (main_work + branch_work (fork @ [demo_link 2 [2]])) u128_max)"
proof -
  have "get_block demo_store (prev_hash (header (demo_link 2 [2]))) = Some (demo_link 1 [0])"
    by (simp add: get_block_def demo_store_def)
  from fork_measured_exactly [OF demo_store_ok this] show ?thesis by (fastforce simp: u64_max_eq)
qed

end
