(* ===== verification/Fork_Signal.thy ===== *)
theory Fork_Signal
  imports Network_Params
begin

text \<open>
  Miner signalling for soft forks, \<^verbatim>\<open>src/consensus/fork_signal.rs\<close>: the
  signal bits in the coinbase, the deployment table and the lock-in state machine. The
  lemmas show the round trip of the encoding and that a lock-in is permanent.
\<close>

unbundle bit_operations_syntax

section \<open>Signal bits\<close>

type_synonym u32 = "32 word"

definition VIEW_TAGS :: u32 where "VIEW_TAGS = push_bit 0 1"
definition RING_SIZE_16 :: u32 where "RING_SIZE_16 = push_bit 1 1"
definition FEE_MARKET_V2 :: u32 where "FEE_MARKET_V2 = push_bit 2 1"
definition HALO2_SHIELDED :: u32 where "HALO2_SHIELDED = push_bit 3 1"
definition LELANTUS_SPARK :: u32 where "LELANTUS_SPARK = push_bit 4 1"
definition MW_CUTTHROUGH :: u32 where "MW_CUTTHROUGH = push_bit 5 1"
definition V1_0_12_BUNDLE :: u32 where "V1_0_12_BUNDLE = push_bit 6 1"
definition MUST_SET :: u32 where "MUST_SET = push_bit 31 1"

definition signal_bits_new :: "u32 \<Rightarrow> u32" where
  "signal_bits_new raw = raw OR MUST_SET"

definition signals :: "u32 \<Rightarrow> u32 \<Rightarrow> bool" where
  "signals sb b \<longleftrightarrow> sb AND b \<noteq> 0"

definition encode_coinbase_extra :: "nat \<Rightarrow> u32 \<Rightarrow> bytes" where
  "encode_coinbase_extra height signal_bits =
     le_bytes 8 height @ (if signal_bits \<noteq> 0 then le_bytes 4 (unat signal_bits) else [])"

definition decode_signal_bits :: "bytes \<Rightarrow> u32" where
  "decode_signal_bits extra =
     (if length extra < 12 then 0 else of_nat (from_le_bytes (take 4 (drop 8 extra))))"

section \<open>Deployments\<close>

record deployment =
  dep_name :: string
  dep_bit :: u32
  start_height :: nat
  timeout_height :: nat
  min_activation_height :: nat

definition DEPLOYMENTS :: "deployment list" where
  "DEPLOYMENTS =
    [\<lparr>dep_name = ''view-tags'', dep_bit = VIEW_TAGS, start_height = 0, timeout_height = 1000000,
      min_activation_height = 2016\<rparr>,
     \<lparr>dep_name = ''halo2-shielded'', dep_bit = HALO2_SHIELDED, start_height = u64_max,
      timeout_height = u64_max, min_activation_height = u64_max\<rparr>,
     \<lparr>dep_name = ''lelantus-spark'', dep_bit = LELANTUS_SPARK, start_height = u64_max,
      timeout_height = u64_max, min_activation_height = u64_max\<rparr>,
     \<lparr>dep_name = ''mw-cutthrough'', dep_bit = MW_CUTTHROUGH, start_height = u64_max,
      timeout_height = u64_max, min_activation_height = u64_max\<rparr>,
     \<lparr>dep_name = ''v1.0.12-bundle'', dep_bit = V1_0_12_BUNDLE, start_height = u64_max,
      timeout_height = u64_max, min_activation_height = u64_max\<rparr>]"

datatype deployment_state =
    Defined
  | Started (signaling_pct: nat)
  | LockedIn (at_height: nat)
  | Active
  | Failed

definition SIGNAL_WINDOW :: nat where "SIGNAL_WINDOW = 2016"
definition SIGNAL_THRESHOLD :: nat where "SIGNAL_THRESHOLD = 1814"

section \<open>The signaler\<close>

type_synonym fork_signaler = "u32 \<rightharpoonup> nat"
type_synonym signal_count = "nat \<Rightarrow> nat \<Rightarrow> u32 \<Rightarrow> nat"

definition window_start :: "nat \<Rightarrow> nat" where
  "window_start height = (height div SIGNAL_WINDOW) * SIGNAL_WINDOW"

definition next_window_start :: "nat \<Rightarrow> nat" where
  "next_window_start height = as_u64 (window_start height + SIGNAL_WINDOW)"

definition signaler_state :: "fork_signaler \<Rightarrow> deployment \<Rightarrow> nat \<Rightarrow> signal_count \<Rightarrow> deployment_state" where
  "signaler_state locked_in d current_height signal_count_fn =
     (if current_height < start_height d then Defined
      else if timeout_height d \<le> current_height \<and> locked_in (dep_bit d) = None then Failed
      else case locked_in (dep_bit d) of
        Some locked_at \<Rightarrow>
          (let activation = next_window_start locked_at
           in if max activation (min_activation_height d) \<le> current_height then Active
              else LockedIn activation)
      | None \<Rightarrow>
          (let window = window_start current_height;
               count = signal_count_fn window current_height (dep_bit d);
               tot = max (sat_sub current_height window) 1;
               pct = min (as_u32 (as_u64 (count * 100) div tot)) 100
           in if SIGNAL_THRESHOLD \<le> count then LockedIn (next_window_start current_height)
              else Started pct))"

definition record_lock_in :: "fork_signaler \<Rightarrow> u32 \<Rightarrow> nat \<Rightarrow> fork_signaler" where
  "record_lock_in locked_in b height = locked_in(b \<mapsto> height)"

definition is_locked_in :: "deployment_state \<Rightarrow> bool" where
  "is_locked_in st \<longleftrightarrow> (case st of LockedIn _ \<Rightarrow> True | _ \<Rightarrow> False)"

definition state_and_record ::
  "fork_signaler \<Rightarrow> deployment \<Rightarrow> nat \<Rightarrow> signal_count \<Rightarrow> deployment_state \<times> fork_signaler" where
  "state_and_record locked_in d current_height signal_count_fn =
     (let st = signaler_state locked_in d current_height signal_count_fn
      in (st, if is_locked_in st \<and> locked_in (dep_bit d) = None
              then record_lock_in locked_in (dep_bit d) current_height else locked_in))"

text \<open>A query of any deployment at any height with any signal counts.\<close>

type_synonym signal_query = "deployment \<times> nat \<times> signal_count"

definition signal_step :: "signal_query \<Rightarrow> fork_signaler \<Rightarrow> fork_signaler" where
  "signal_step q locked_in = (case q of (d, h, f) \<Rightarrow> snd (state_and_record locked_in d h f))"

section \<open>Encoding\<close>

lemma decode_encode_signal_bits: "decode_signal_bits (encode_coinbase_extra h sb) = sb"
proof -
  have "unat sb < 256 ^ 4" using unsigned_less [of sb] by simp
  then show ?thesis by (simp add: decode_signal_bits_def encode_coinbase_extra_def from_le_le_bytes)
qed

lemma signals_must_set: "signals (signal_bits_new raw) MUST_SET"
proof -
  have "(raw OR MUST_SET) AND MUST_SET = MUST_SET" by (simp add: bit_eq_iff bit_simps)
  moreover have "MUST_SET \<noteq> 0" by (simp add: MUST_SET_def)
  ultimately show ?thesis by (simp add: signals_def signal_bits_new_def)
qed

section \<open>Lock-in is permanent\<close>

lemma signal_step_keeps: "locked_in b = Some h \<Longrightarrow> signal_step q locked_in b = Some h"
  by (cases q) (auto simp: signal_step_def state_and_record_def record_lock_in_def Let_def)

interpretation lock_in: invariant_machine
  "\<lambda>locked_in. locked_in b = Some h" signal_step "\<lambda>locked_in. locked_in b = Some h" for b h
  by unfold_locales (auto intro: signal_step_keeps)

lemma state_locked:
  assumes "locked_in (dep_bit d) = Some l" "start_height d \<le> h"
  shows "signaler_state locked_in d h f =
    (if max (next_window_start l) (min_activation_height d) \<le> h then Active else LockedIn (next_window_start l))"
  using assms by (simp add: signaler_state_def Let_def)

lemma locked_in_recorded:
  assumes "state_and_record locked_in d h f = (LockedIn a, locked_in')"
  shows "\<exists>l. locked_in' (dep_bit d) = Some l \<and> a = next_window_start l \<and> start_height d \<le> h"
  using assms
  by (auto simp: state_and_record_def signaler_state_def record_lock_in_def is_locked_in_def Let_def
      split: if_splits option.splits)

section \<open>Properties\<close>

text \<open>
  Signalling round trip. What a miner encodes into the coinbase is what validation
  decodes, for every height and all 32 bits, and a signal built by the constructor always carries the
  marker bit.
\<close>

theorem signal_bits_roundtrip:
  "decode_signal_bits (encode_coinbase_extra height sb) = sb \<and>
   signals (decode_signal_bits (encode_coinbase_extra height (signal_bits_new raw))) MUST_SET"
  by (simp add: decode_encode_signal_bits signals_must_set)

text \<open>
  C29 (a lock-in is permanent). Once a query answers that a deployment is locked in with
  activation height \<open>a\<close>, then after any further queries of any deployments at any heights, a query at a height not below
  the first answers active from \<open>a\<close> and the minimum height on, and locked in at the same \<open>a\<close> before: never failed, never
  started again, never another height.
\<close>

theorem lock_in_permanent:
  assumes "state_and_record locked_in d h f = (LockedIn a, locked_in')" "h \<le> h'"
  shows "fst (state_and_record (fold signal_step qs locked_in') d h' g) =
    (if max a (min_activation_height d) \<le> h' then Active else LockedIn a)"
proof -
  obtain l where l: "locked_in' (dep_bit d) = Some l" "a = next_window_start l" "start_height d \<le> h"
    using locked_in_recorded [OF assms(1)] by blast
  have "fold signal_step qs locked_in' (dep_bit d) = Some l" using l(1) by (rule lock_in.inv_run)
  then show ?thesis using l(2,3) assms(2) by (simp add: state_and_record_def Let_def state_locked)
qed

theorem lock_in_permanent_witness:
  "let d = hd DEPLOYMENTS; f = (\<lambda>_ _ _. 1900); none = (\<lambda>_ _ _. 0)
   in fst (state_and_record (fold signal_step [(d, 2000001, none)]
        (snd (state_and_record Map.empty d 4031 f))) d 2000002 none) = Active"
proof -
  let ?d = "hd DEPLOYMENTS"
  have first: "state_and_record Map.empty ?d 4031 (\<lambda>_ _ _. 1900) = (LockedIn 4032, [VIEW_TAGS \<mapsto> 4031])"
    by (simp add: state_and_record_def signaler_state_def DEPLOYMENTS_def SIGNAL_THRESHOLD_def
        next_window_start_def window_start_def SIGNAL_WINDOW_def is_locked_in_def record_lock_in_def
        as_u64_def)
  have "min_activation_height ?d = 2016" by (simp add: DEPLOYMENTS_def)
  then show ?thesis
    using lock_in_permanent [OF first, of 2000002 "[(?d, 2000001, \<lambda>_ _ _. 0)]" "\<lambda>_ _ _. 0"]
    unfolding Let_def first snd_conv by simp
qed

end
