(* ===== verification/Spec2Isabelle.thy ===== *)
theory Spec2Isabelle
  imports Mempool Fork_Choice Fork_Signal
begin

text \<open>
  \<^bold>\<open>CoinCync: the consensus rules and the state they protect.\<close>

  CoinCync is a privacy coin node written in Rust. A block carries a header, a coinbase and
  confidential transactions; a transaction spends outputs through ring signatures with key
  images, or through the shielded (Spark) pool with linking tags. A node checks each
  transaction (\<^verbatim>\<open>src/consensus/validation.rs\<close>) against its output set
  (\<^verbatim>\<open>src/storage/utxos.rs\<close>) and shielded pool (\<^verbatim>\<open>src/storage/spark_pool.rs\<close>),
  connects the block, computes the next difficulty target and the reward, and decides about
  forks by work, depth and attestations.

  \<^bold>\<open>Theories and the sources they model.\<close>
  \<^item> \<open>Cync_Prelude\<close>: integers at their Rust widths (checked, saturating and wrapping
    operations as functions on \<open>nat\<close> and \<open>int\<close>), the error type, the \<open>?\<close> operator, and the
    locales \<open>guarded_machine\<close> and \<open>invariant_machine\<close> for runs of a state machine.
  \<^item> \<open>Amounts\<close> (\<^verbatim>\<open>src/primitives/\<close>): amounts, formatting and parsing, heights, timestamps.
  \<^item> \<open>Hashes\<close> (\<^verbatim>\<open>src/primitives/hash.rs\<close>, \<^verbatim>\<open>difficulty.rs\<close>): targets and Merkle roots.
  \<^item> \<open>Emission\<close> (\<^verbatim>\<open>src/emission/\<close>) and \<open>Fee_Market\<close>
    (\<^verbatim>\<open>src/consensus/fee_market.rs\<close>): rewards, supply, fees and the fee reservoir.
  \<^item> \<open>Difficulty\<close> (\<^verbatim>\<open>src/consensus/difficulty.rs\<close>): the ASERT adjustment in i128 arithmetic.
  \<^item> \<open>Network_Params\<close> (\<^verbatim>\<open>src/config.rs\<close>, \<^verbatim>\<open>src/constants.rs\<close>): networks and
    height-dependent parameters.
  \<^item> \<open>Transactions\<close> (\<^verbatim>\<open>src/transaction/types.rs\<close>, \<^verbatim>\<open>src/consensus/header.rs\<close>,
    \<^verbatim>\<open>block.rs\<close>): data, hashes and signed messages.
  \<^item> \<open>Utxo_Set\<close> (\<^verbatim>\<open>src/storage/utxos.rs\<close>): the output set with its five indexes and its
    database, block connection and disconnection.
  \<^item> \<open>Verify_Cache\<close> (\<^verbatim>\<open>src/crypto/cache.rs\<close>): the caches of verified proofs.
  \<^item> \<open>Tx_Extra\<close> (\<^verbatim>\<open>src/transaction/recovery.rs\<close>, \<^verbatim>\<open>payment_id.rs\<close>): the extra field.
  \<^item> \<open>Spark_Pool\<close> and \<open>Spark_Payload\<close> (\<^verbatim>\<open>src/storage/spark_pool.rs\<close>,
    \<^verbatim>\<open>src/consensus/spark_payload.rs\<close>, \<^verbatim>\<open>shielded.rs\<close>, \<^verbatim>\<open>crates/spark-connector\<close>):
    the shielded pool, its turnstile and the verification of payloads.
  \<^item> \<open>Tx_Validation\<close> (\<^verbatim>\<open>src/consensus/validation.rs\<close>, \<^verbatim>\<open>privacy_policy.rs\<close>,
    \<^verbatim>\<open>src/transaction/validator.rs\<close>): every rule about one transaction.
  \<^item> \<open>Block_Validation\<close> (\<^verbatim>\<open>src/consensus/validation.rs\<close>): the rules about a block, its
    header, difficulty, coinbase and body.
  \<^item> \<open>Mempool\<close> (\<^verbatim>\<open>src/mempool.rs\<close>): admission with replacement by fee and eviction,
    removal, expiry, block templates, and admission against a chain that moves.
  \<^item> \<open>Fork_Choice\<close> (\<^verbatim>\<open>src/chain/fork_calc.rs\<close>, \<^verbatim>\<open>queries.rs\<close>, \<^verbatim>\<open>apply.rs\<close>,
    \<^verbatim>\<open>src/chain.rs\<close>): block lookup, the fork walks and the decision to reorganise.
  \<^item> \<open>Finality\<close>, \<open>Fork_Signal\<close>, \<open>Rolling_Finality\<close> (\<^verbatim>\<open>src/consensus/finality.rs\<close>,
    \<^verbatim>\<open>fork_signal.rs\<close>, \<^verbatim>\<open>crates/coincync-rolling-finality\<close>): reorganisation depth,
    deployments and attested finality.

  \<^bold>\<open>How the code is represented.\<close> A struct is a record and an enum a datatype. Unsigned
  integers are \<open>nat\<close> with the wrap, saturation or overflow check of each operation written
  out; bytes are 8-bit words. A \<^verbatim>\<open>HashMap\<close> is a map, or an association list where its order
  or size matters. Locks and atomics disappear: each method is one step on the state. Error
  messages keep their static text without the formatted values. BLAKE3 (\<open>H\<close>), Borsh
  (\<open>ser\<close> and parsers), curve points, CLSAG, Bulletproofs and the Spark engine are parameters;
  where a theorem needs a law of them (no collision among named strings, strict decoding,
  commitments that add) it is a hypothesis with a witness.

  \<^bold>\<open>What is shown.\<close> The reward never rises and ends in the tail emission; difficulty steps
  are bounded; the fee reservoir conserves fees. The output set refines a ledger, its indexes
  never drift, and disconnecting a block undoes connecting it. The shielded pool keeps its
  turnstile, rewinds exactly and never accepts a linking tag twice; batch and single
  verification agree. The verification cache changes no verdict, an accepted transfer meets
  every rule, and the balance equations accept exactly the balanced commitments. An accepted
  block mints exactly what it may, is bound by its hash, and can be undone; the computed target
  is always accepted. Every run of the mempool keeps its indexes and size consistent, an
  addition succeeds or changes nothing, and its block templates repeat no hash, key image or
  linking tag. Every fork walk ends, and on linked stores it measures the fork exactly. Signed
  messages, header preimages and duplicate-free Merkle trees are unambiguous. Finality depth,
  lock-in and soft finality are permanent in the stated sense.

  \<^bold>\<open>Loops and termination.\<close> Loops are structural recursion or \<open>function\<close>s with a measure.
  The fork walks follow stored links that may be corrupt, so they are partial functions whose
  value \<open>None\<close> is not returning; that they return is a theorem. The one counter the code itself
  bounds a loop with, the four attempts of admission against the chain, is kept.

  \<^bold>\<open>Constants.\<close> Numeric constants have the names of the source, so the manifest's map lists
  the operations and types and leaves some of the one-line constants out.

  \<^bold>\<open>Not modelled.\<close> Socket I/O, RPC, wallets, mining threads, the graphical wallet and the
  companion programs act outside consensus. RandomX, curve arithmetic and the proof systems
  are foreign or cryptographic code and appear as parameters. Floating-point estimates
  (hashrate, fee priority) are displayed only. Circuit breakers, metrics and clocks observe
  the node without changing consensus state. Of the chain manager, carrying a reorganisation
  out (locking, disk recovery, the order of writes to the stores) is not modelled. Of the
  mempool, lock handling, metrics and the writing of its file are not; the answers of the chain
  to an admission attempt are parameters, and other threads act between attempts only through
  them.
\<close>

end
